(* ===== verification/Prelude.thy ===== *)
theory Prelude
  imports Main "HOL-Library.Word"
begin

text \<open>
  Shared vocabulary of the development: the machine types of the kernel's sources, the
  outcome of code that may stop the machine, byte-addressed memory with little-endian
  access, and the generic lemmas on words, address ranges and lists the components use.

  Addresses are 64-bit words and wrap. A range of \<open>n\<close> bytes that starts at \<open>a\<close> is
  the set of the addresses whose distance \<open>offs a x\<close> from \<open>a\<close>, counted upwards with
  wrap-around, is below \<open>n\<close>.
\<close>

unbundle bit_operations_syntax

type_synonym u8 = "8 word"
type_synonym u16 = "16 word"
type_synonym u32 = "32 word"
type_synonym u64 = "64 word"
type_synonym memory = "u64 \<Rightarrow> u8"

named_theorems addr_simps \<open>distances between addresses\<close>
named_theorems mem_frame \<open>what a store leaves unchanged\<close>

subsection \<open>Bounds of the machine types\<close>

lemma unat_u8_less [simp]: "unat (x :: u8) < 256"
  using unsigned_less [of x] by simp

lemma unat_u16_less [simp]: "unat (x :: u16) < 65536"
  using unsigned_less [of x] by simp

lemma unat_u32_less [simp]: "unat (x :: u32) < 4294967296"
  using unsigned_less [of x] by simp

lemma unat_u64_less [simp]: "unat (x :: u64) < 18446744073709551616"
  using unsigned_less [of x] by simp

lemma unat_word_of_nat64: "n < 2 ^ 64 \<Longrightarrow> unat (word_of_nat n :: u64) = n"
  by (simp add: unat_of_nat)

subsection \<open>Outcomes\<close>

text \<open>
  \<open>Ret x s\<close>: the call returned \<open>x\<close> in state \<open>s\<close>. \<open>Halt s\<close>: the call reached
  \<^verbatim>\<open>done()\<close>, whose \<^verbatim>\<open>hlt\<close> loop never returns, in state \<open>s\<close>.
\<close>

datatype ('a, 's) run = Ret 'a 's | Halt 's

fun and_then :: "('a, 's) run \<Rightarrow> ('a \<Rightarrow> 's \<Rightarrow> ('b, 's) run) \<Rightarrow> ('b, 's) run" where
  "and_then (Ret x s) f = f x s"
| "and_then (Halt s) f = Halt s"

lemma and_then_Ret_iff:
  "and_then r f = Ret y t \<longleftrightarrow> (\<exists>x s. r = Ret x s \<and> f x s = Ret y t)"
  by (cases r) auto

lemma and_then_Ret_E [elim]:
  assumes "and_then r f = Ret y t"
  obtains x s where "r = Ret x s" and "f x s = Ret y t"
  using assms by (cases r) auto

subsection \<open>Little-endian memory\<close>

primrec load_le :: "memory \<Rightarrow> u64 \<Rightarrow> nat \<Rightarrow> nat" where
  "load_le m a 0 = 0"
| "load_le m a (Suc n) = unat (m a) + 256 * load_le m (a + 1) n"

primrec store_le :: "memory \<Rightarrow> u64 \<Rightarrow> nat \<Rightarrow> nat \<Rightarrow> memory" where
  "store_le m a 0 v = m"
| "store_le m a (Suc n) v = (store_le m (a + 1) n (v div 256))(a := word_of_nat v)"

definition load16 :: "memory \<Rightarrow> u64 \<Rightarrow> u16" where
  "load16 m a = word_of_nat (load_le m a 2)"

definition load32 :: "memory \<Rightarrow> u64 \<Rightarrow> u32" where
  "load32 m a = word_of_nat (load_le m a 4)"

definition load64 :: "memory \<Rightarrow> u64 \<Rightarrow> u64" where
  "load64 m a = word_of_nat (load_le m a 8)"

definition store16 :: "memory \<Rightarrow> u64 \<Rightarrow> u16 \<Rightarrow> memory" where
  "store16 m a v = store_le m a 2 (unat v)"

definition store32 :: "memory \<Rightarrow> u64 \<Rightarrow> u32 \<Rightarrow> memory" where
  "store32 m a v = store_le m a 4 (unat v)"

definition store64 :: "memory \<Rightarrow> u64 \<Rightarrow> u64 \<Rightarrow> memory" where
  "store64 m a v = store_le m a 8 (unat v)"

definition offs :: "u64 \<Rightarrow> u64 \<Rightarrow> nat" where
  "offs a x = unat (x - a)"

definition disjoint_ranges :: "u64 \<Rightarrow> nat \<Rightarrow> u64 \<Rightarrow> nat \<Rightarrow> bool" where
  "disjoint_ranges a n b k \<longleftrightarrow> (\<forall>x. \<not> (offs a x < n \<and> offs b x < k))"

definition page_aligned :: "u64 \<Rightarrow> bool" where
  "page_aligned a \<longleftrightarrow> unat a mod 4096 = 0"

lemma offs_self [simp]: "offs a a = 0"
  by (simp add: offs_def)

lemma offs_zero_iff [simp]: "offs a x = 0 \<longleftrightarrow> x = a"
  by (simp add: offs_def unat_eq_zero)

lemma offs_less: "offs a x < 2 ^ 64"
  unfolding offs_def using unsigned_less [of "x - a"] by simp

lemma offs_add_right [addr_simps]: "i < 2 ^ 64 \<Longrightarrow> offs a (a + word_of_nat i) = i"
  by (simp add: offs_def unat_of_nat)

lemma offs_back: "a + word_of_nat (offs a x) = x"
  by (simp add: offs_def)

lemma offs_succ: "x \<noteq> a \<Longrightarrow> offs a x = Suc (offs (a + 1) x)"
proof -
  assume "x \<noteq> a"
  then have "x - a \<noteq> 0" by simp
  then have "unat (x - a - 1) = unat (x - a) - 1" and "0 < unat (x - a)"
    by (simp_all add: unat_minus_one unat_gt_0)
  then show ?thesis by (simp add: offs_def algebra_simps)
qed

lemma disjoint_ranges_sym: "disjoint_ranges a n b k \<longleftrightarrow> disjoint_ranges b k a n"
  by (auto simp: disjoint_ranges_def)

lemma disjoint_rangesI:
  assumes "\<And>x. offs a x < n \<Longrightarrow> offs b x < k \<Longrightarrow> False"
  shows "disjoint_ranges a n b k"
  using assms by (auto simp: disjoint_ranges_def)

lemma store_le_apply:
  "n \<le> 2 ^ 64 \<Longrightarrow>
   store_le m a n v x = (if offs a x < n then word_of_nat (v div 256 ^ offs a x) else m x)"
proof (induction n arbitrary: a v)
  case 0
  then show ?case by simp
next
  case (Suc n)
  show ?case
  proof (cases "x = a")
    case True
    then show ?thesis by simp
  next
    case False
    with Suc show ?thesis by (simp add: offs_succ [of x a] div_mult2_eq)
  qed
qed

lemma load_le_cong:
  "n \<le> 2 ^ 64 \<Longrightarrow> (\<And>x. offs a x < n \<Longrightarrow> m x = m' x) \<Longrightarrow> load_le m a n = load_le m' a n"
proof (induction n arbitrary: a)
  case 0
  then show ?case by simp
next
  case (Suc n)
  have "m x = m' x" if "offs (a + 1) x < n" for x
    using Suc.prems(2) [of x] that by (cases "x = a") (auto simp: offs_succ [of x a])
  then have "load_le m (a + 1) n = load_le m' (a + 1) n"
    using Suc by simp
  moreover have "m a = m' a" using Suc.prems(2) [of a] by simp
  ultimately show ?case by simp
qed

lemma load_le_less: "load_le m a n < 256 ^ n"
proof (induction n arbitrary: a)
  case 0
  then show ?case by simp
next
  case (Suc n)
  show ?case using Suc [of "a + 1"] unat_u8_less [of "m a"] unfolding load_le.simps power_Suc by linarith
qed

lemma load_le_upd_other:
  "n < 2 ^ 64 \<Longrightarrow> load_le (m(a := b)) (a + 1) n = load_le m (a + 1) n"
proof (rule load_le_cong)
  fix x
  assume "n < 2 ^ 64" and "offs (a + 1) x < n"
  moreover have "offs (a + 1) a = 2 ^ 64 - 1"
    by (simp add: offs_def unsigned_minus_1_eq_mask mask_eq_exp_minus_1)
  ultimately have "x \<noteq> a" by auto
  then show "(m(a := b)) x = m x" by simp
qed simp

lemma load_le_store_le: "n < 2 ^ 64 \<Longrightarrow> load_le (store_le m a n v) a n = v mod 256 ^ n"
proof (induction n arbitrary: a v)
  case 0
  then show ?case by simp
next
  case (Suc n)
  then have "load_le (store_le m a (Suc n) v) a (Suc n)
      = v mod 256 + 256 * (v div 256 mod 256 ^ n)"
    by (simp add: load_le_upd_other unat_of_nat)
  also have "\<dots> = v mod 256 ^ Suc n" by (simp add: mod_mult2_eq)
  finally show ?case .
qed

lemma load_le_store_le_disjoint:
  assumes "n \<le> 2 ^ 64" and "k \<le> 2 ^ 64" and "disjoint_ranges a n b k"
  shows "load_le (store_le m b k v) a n = load_le m a n"
  using assms by (intro load_le_cong) (auto simp: store_le_apply disjoint_ranges_def)

lemma load16_store16 [simp]: "load16 (store16 m a v) a = v"
  by (simp add: load16_def store16_def load_le_store_le)

lemma load32_store32 [simp]: "load32 (store32 m a v) a = v"
  by (simp add: load32_def store32_def load_le_store_le)

lemma load64_store64 [simp]: "load64 (store64 m a v) a = v"
  by (simp add: load64_def store64_def load_le_store_le)

lemma store64_apply: "store64 m a v x = (if offs a x < 8 then word_of_nat (unat v div 256 ^ offs a x) else m x)"
  by (simp add: store64_def store_le_apply)

lemma load64_store64_disjoint [mem_frame]:
  "disjoint_ranges a 8 b 8 \<Longrightarrow> load64 (store64 m b v) a = load64 m a"
  by (simp add: load64_def store64_def load_le_store_le_disjoint)

lemma load64_cong: "(\<And>x. offs a x < 8 \<Longrightarrow> m x = m' x) \<Longrightarrow> load64 m a = load64 m' a"
  unfolding load64_def by (subst load_le_cong [of 8 a m m']) simp_all

lemma load64_zero: "(\<And>x. offs a x < 8 \<Longrightarrow> m x = 0) \<Longrightarrow> load64 m a = 0"
proof -
  assume "\<And>x. offs a x < 8 \<Longrightarrow> m x = 0"
  then have "load64 m a = load64 (\<lambda>_. 0) a" by (intro load64_cong) simp
  also have "\<dots> = 0" by (simp add: load64_def eval_nat_numeral)
  finally show ?thesis .
qed

lemma unat_diff_wrap: "unat (x - a :: u64) = (if unat a \<le> unat x then unat x - unat a else 2 ^ 64 + unat x - unat a)"
proof (cases "unat a \<le> unat x")
  case True
  then show ?thesis by (simp add: unat_sub word_le_nat_alt)
next
  case False
  then have "x < a" by (simp add: word_less_nat_alt)
  then show ?thesis using False by (simp add: unat_sub_if_size word_size)
qed

lemma offs_range:
  assumes "unat a + n \<le> 2 ^ 64"
  shows "offs a x < n \<longleftrightarrow> unat a \<le> unat x \<and> unat x < unat a + n"
  using assms unat_u64_less [of x] unat_u64_less [of a] unfolding offs_def unat_diff_wrap by auto

lemma disjoint_ranges_unat:
  assumes "unat a + n \<le> 2 ^ 64" and "unat b + k \<le> 2 ^ 64"
    and "unat a + n \<le> unat b \<or> unat b + k \<le> unat a"
  shows "disjoint_ranges a n b k"
  using assms by (auto simp: disjoint_ranges_def offs_range)

lemma aligned_frames_apart:
  assumes "page_aligned a" and "page_aligned b" and "a \<noteq> b"
  shows "unat a + 4096 \<le> unat b \<or> unat b + 4096 \<le> unat a"
proof -
  have "unat a \<noteq> unat b" using assms(3) by (simp add: word_unat_eq_iff)
  moreover have "unat a = 4096 * (unat a div 4096)" "unat b = 4096 * (unat b div 4096)"
    using assms(1,2) by (auto simp: page_aligned_def)
  ultimately have "unat a div 4096 < unat b div 4096 \<or> unat b div 4096 < unat a div 4096" by linarith
  then show ?thesis
    using \<open>unat a = 4096 * (unat a div 4096)\<close> \<open>unat b = 4096 * (unat b div 4096)\<close> by linarith
qed

lemma store16_apply: "store16 m a v x = (if offs a x < 2 then word_of_nat (unat v div 256 ^ offs a x) else m x)"
  by (simp add: store16_def store_le_apply)

lemma store32_apply: "store32 m a v x = (if offs a x < 4 then word_of_nat (unat v div 256 ^ offs a x) else m x)"
  by (simp add: store32_def store_le_apply)

lemma load16_cong: "(\<And>x. offs a x < 2 \<Longrightarrow> m x = m' x) \<Longrightarrow> load16 m a = load16 m' a"
  unfolding load16_def by (subst load_le_cong [of 2 a m m']) simp_all

lemma load32_cong: "(\<And>x. offs a x < 4 \<Longrightarrow> m x = m' x) \<Longrightarrow> load32 m a = load32 m' a"
  unfolding load32_def by (subst load_le_cong [of 4 a m m']) simp_all

lemma offs_field:
  assumes "i + n \<le> 2 ^ 64" "i < 2 ^ 64"
  shows "offs (a + word_of_nat i) x < n \<longleftrightarrow> i \<le> offs a x \<and> offs a x < i + n"
proof -
  obtain y where y: "y = x - a" by simp
  have i: "unat (word_of_nat i :: u64) = i" using assms by (simp add: unat_of_nat)
  have "offs (a + word_of_nat i) x = unat (y - word_of_nat i)" "offs a x = unat y"
    unfolding offs_def y by (simp_all add: diff_diff_eq)
  then show ?thesis
    using assms unat_u64_less [of y] by (auto simp: unat_diff_wrap i)
qed

lemma offs_eq_iff: "i < 2 ^ 64 \<Longrightarrow> x = a + word_of_nat i \<longleftrightarrow> offs a x = i"
  by (metis offs_add_right offs_back)

end
