(* ===== verification/Limine.thy ===== *)
theory Limine
  imports Prelude
begin

text \<open>
  The boot-protocol structures of \<^verbatim>\<open>kernel/limine.h\<close> that the kernel reads. A pointer to a
  response is an \<open>option\<close> (\<open>None\<close> is the null pointer the bootloader leaves when it does
  not answer a request), an array of pointers with its count is a list, and a field that the
  kernel only passes on (a framebuffer, a callback) is the address it holds.
\<close>

record limine_terminal =
  term_columns :: u64
  term_rows :: u64
  term_framebuffer :: u64

record limine_terminal_response =
  term_revision :: u64
  terminals :: "limine_terminal list"
  term_write :: u64

record limine_terminal_request =
  term_req_revision :: u64
  term_response :: "limine_terminal_response option"
  term_callback :: u64

definition terminal_count :: "limine_terminal_response \<Rightarrow> u64" where
  "terminal_count r = word_of_nat (length (terminals r))"

record limine_memmap_entry =
  me_base :: u64
  me_length :: u64
  me_type :: u64

definition LIMINE_MEMMAP_USABLE :: u64 where "LIMINE_MEMMAP_USABLE = 0"
definition LIMINE_MEMMAP_RESERVED :: u64 where "LIMINE_MEMMAP_RESERVED = 1"
definition LIMINE_MEMMAP_ACPI_RECLAIMABLE :: u64 where "LIMINE_MEMMAP_ACPI_RECLAIMABLE = 2"
definition LIMINE_MEMMAP_ACPI_NVS :: u64 where "LIMINE_MEMMAP_ACPI_NVS = 3"
definition LIMINE_MEMMAP_BAD_MEMORY :: u64 where "LIMINE_MEMMAP_BAD_MEMORY = 4"
definition LIMINE_MEMMAP_BOOTLOADER_RECLAIMABLE :: u64 where
  "LIMINE_MEMMAP_BOOTLOADER_RECLAIMABLE = 5"
definition LIMINE_MEMMAP_KERNEL_AND_MODULES :: u64 where "LIMINE_MEMMAP_KERNEL_AND_MODULES = 6"
definition LIMINE_MEMMAP_FRAMEBUFFER :: u64 where "LIMINE_MEMMAP_FRAMEBUFFER = 7"

lemmas limine_memmap_types =
  LIMINE_MEMMAP_USABLE_def LIMINE_MEMMAP_RESERVED_def LIMINE_MEMMAP_ACPI_RECLAIMABLE_def
  LIMINE_MEMMAP_ACPI_NVS_def LIMINE_MEMMAP_BAD_MEMORY_def
  LIMINE_MEMMAP_BOOTLOADER_RECLAIMABLE_def LIMINE_MEMMAP_KERNEL_AND_MODULES_def
  LIMINE_MEMMAP_FRAMEBUFFER_def

record limine_memmap_response =
  mm_revision :: u64
  entries :: "limine_memmap_entry list"

record limine_hhdm_response =
  hhdm_revision :: u64
  hhdm_offset :: u64

record limine_kernel_address_response =
  ka_revision :: u64
  physical_base :: u64
  virtual_base :: u64

record limine_rsdp_response =
  rsdp_revision :: u64
  rsdp_address :: u64

text \<open>The last address of an entry plus one, as the kernel computes it (it can wrap).\<close>

definition EndOfSegment :: "limine_memmap_entry \<Rightarrow> u64" where
  "EndOfSegment e = me_base e + me_length e"

definition is_usable :: "limine_memmap_entry \<Rightarrow> bool" where
  "is_usable e \<longleftrightarrow> me_type e = LIMINE_MEMMAP_USABLE"

text \<open>
  What the Limine protocol documents about the memory map: the usable entries are page
  aligned, do not wrap, are sorted by base and do not overlap.
\<close>

fun memmap_wf :: "limine_memmap_entry list \<Rightarrow> bool" where
  "memmap_wf [] = True"
| "memmap_wf (e # es) =
     ((is_usable e \<longrightarrow>
         page_aligned (me_base e) \<and> page_aligned (me_length e) \<and>
         unat (me_base e) + unat (me_length e) < 2 ^ 52 \<and>
         list_all (\<lambda>f. is_usable f \<longrightarrow> unat (me_base e) + unat (me_length e) \<le> unat (me_base f)) es) \<and>
      memmap_wf es)"

end
