(* ===== verification/Console.thy ===== *)
theory Console
  imports Limine
begin

text \<open>
  The terminal output of \<^verbatim>\<open>kernel/TTY0\<close> and the \<^verbatim>\<open>strlen\<close> of
  \<^verbatim>\<open>kernel/ToString/strlen.cpp\<close>. The bootloader's \<^verbatim>\<open>write\<close> callback is not kernel code:
  the model records the bytes the kernel hands to it, in order, in \<open>tty_out\<close>. A
  \<^verbatim>\<open>const char *\<close> is the list of the bytes from the pointer to the end of its object;
  reading past the object, or through a null response, is \<open>None\<close>.
\<close>

record console =
  terminal_request :: limine_terminal_request
  strlen_length :: u64
  tty_out :: "u8 list"

definition stdout :: int where
  "stdout = 13370"

definition cstr :: "string \<Rightarrow> u8 list" where
  "cstr s = map (\<lambda>c. of_char c :: u8) s @ [0]"

fun strlen_loop :: "u8 list \<Rightarrow> u64 \<Rightarrow> u64 option" where
  "strlen_loop [] n = None"
| "strlen_loop (c # cs) n = (if c = 0 then Some n else strlen_loop cs (n + 1))"

definition strlen :: "u8 list \<Rightarrow> 'a console_scheme \<Rightarrow> (u64 \<times> 'a console_scheme) option" where
  "strlen s k =
     (case strlen_loop s 0 of
        None \<Rightarrow> None
      | Some n \<Rightarrow> Some (n, k\<lparr>strlen_length := n\<rparr>))"

definition fputs :: "u8 list \<Rightarrow> int \<Rightarrow> 'a console_scheme \<Rightarrow> (int \<times> 'a console_scheme) option" where
  "fputs s stream k =
     (if stream = stdout then
        (case term_response (terminal_request k) of
           None \<Rightarrow> None
         | Some r \<Rightarrow>
             (case terminals r of
                [] \<Rightarrow> None
              | terminal # _ \<Rightarrow>
                  (case strlen s k of
                     None \<Rightarrow> None
                   | Some (n, k') \<Rightarrow>
                       Some (1, k'\<lparr>tty_out := tty_out k' @ take (unat n) s\<rparr>))))
      else Some (-1, k))"

definition puts :: "u8 list \<Rightarrow> 'a console_scheme \<Rightarrow> (int \<times> 'a console_scheme) option" where
  "puts s k =
     (case fputs s stdout k of
        None \<Rightarrow> None
      | Some (_, k') \<Rightarrow> fputs (cstr ''\<newline>'') stdout k')"

text \<open>
  The bytes a string of the kernel's own text prints; the error paths use it for their
  message before they stop the machine.
\<close>

definition print_message :: "string \<Rightarrow> 'a console_scheme \<Rightarrow> 'a console_scheme" where
  "print_message msg k = (case fputs (cstr msg) stdout k of Some (_, k') \<Rightarrow> k' | None \<Rightarrow> k)"

definition terminal_ready :: "'a console_scheme \<Rightarrow> bool" where
  "terminal_ready k \<longleftrightarrow> (\<exists>r t ts. term_response (terminal_request k) = Some r \<and> terminals r = t # ts)"

subsection \<open>Lemmas\<close>

lemma strlen_loop_app:
  "0 \<notin> set s \<Longrightarrow> strlen_loop (s @ 0 # rest) n = Some (n + word_of_nat (length s))"
  by (induction s arbitrary: n) auto

lemma strlen_loop_None_iff: "strlen_loop s n = None \<longleftrightarrow> 0 \<notin> set s"
  by (induction s arbitrary: n) auto

lemma strlen_takeWhile:
  assumes "0 \<in> set s"
  shows "strlen s k = Some (word_of_nat (length (takeWhile (\<lambda>c. c \<noteq> 0) s)),
                            k\<lparr>strlen_length := word_of_nat (length (takeWhile (\<lambda>c. c \<noteq> 0) s))\<rparr>)"
proof -
  obtain xs ys where s: "s = xs @ 0 # ys" and xs: "0 \<notin> set xs"
    using assms by (meson split_list_first)
  have "takeWhile (\<lambda>c. c \<noteq> 0) s = xs"
    unfolding s using xs by (subst takeWhile_append2) auto
  then show ?thesis
    using s xs by (simp add: strlen_def strlen_loop_app)
qed

lemma fputs_stdout:
  assumes "terminal_ready k" and "0 \<notin> set s" and "length s < 2 ^ 64"
  shows "fputs (s @ 0 # rest) stdout k =
         Some (1, k\<lparr>strlen_length := word_of_nat (length s), tty_out := tty_out k @ s\<rparr>)"
  using assms by (auto simp: fputs_def terminal_ready_def strlen_def strlen_loop_app unat_of_nat)

lemma terminal_ready_update [simp]:
  "terminal_ready (k\<lparr>tty_out := x\<rparr>) = terminal_ready k"
  "terminal_ready (k\<lparr>strlen_length := n\<rparr>) = terminal_ready k"
  by (simp_all add: terminal_ready_def)

text \<open>A terminal for the concrete machines that the witnesses run.\<close>

definition demo_console :: console where
  "demo_console =
     \<lparr>terminal_request =
        \<lparr>term_req_revision = 0,
         term_response = Some \<lparr>term_revision = 0, terminals = [\<lparr>term_columns = 80, term_rows = 25, term_framebuffer = 0\<rparr>], term_write = 0\<rparr>,
         term_callback = 0\<rparr>,
      strlen_length = 0, tty_out = []\<rparr>"

end
