(* ===== verification/Interrupts.thy ===== *)
theory Interrupts
  imports Console
begin

text \<open>
  Segment and interrupt descriptors: \<^verbatim>\<open>kernel/Memory/Gdt\<close>, \<^verbatim>\<open>kernel/Interrupts\<close> and
  \<^verbatim>\<open>kernel/Faults\<close>. The table \<^verbatim>\<open>IdtPage\<close> is a byte memory addressed from
  \<open>IdtPage_address\<close>; an \<^verbatim>\<open>InterruptEntry\<close> is a record with the layout of the C struct.
  Handlers are the addresses of the compiled functions. The main result is that after
  \<^verbatim>\<open>AddHandler\<close> the processor, which reads the gate at \<open>idtr\<close> plus 16 times the vector,
  finds the handler that was registered, and every other gate is as before.
\<close>

record InterruptEntry =
  Offset0 :: u16
  Selector :: u16
  StackListOffset :: u8
  TypeAttribute :: u8
  Offset1 :: u16
  Offset2 :: u32
  Ignore :: u32

record Idt =
  Idt_Limit :: u16
  Idt_Offset :: u64

record Gdt =
  Gdt_Size :: u16
  Gdt_Offset :: u64

record interrupts = console +
  Gdt0_address :: u64
  gdtr :: Gdt
  code_selector :: u16
  data_selectors :: "u16 list"
  Idt0 :: Idt
  IdtPage_address :: u64
  IdtPage :: memory
  idtr :: Idt
  interrupts_enabled :: bool

definition IntTA_Gate :: u8 where "IntTA_Gate = 0b10001110"
definition IntTA_CallGate :: u8 where "IntTA_CallGate = 0b10001100"
definition IntTA_TrapGate :: u8 where "IntTA_TrapGate = 0b10001111"

subsection \<open>The global descriptor table\<close>

definition Gdt0 :: "u64 list" where
  "Gdt0 = [0x0000000000000000, 0x0020980000000000, 0x0000920000000000,
           0x0020f80000000000, 0x0000f20000000000, 0]"

text \<open>The assembly routine: load the table, the data selectors and, by a far return, the code selector.\<close>

definition load_gdt :: "Gdt \<Rightarrow> 'a interrupts_scheme \<Rightarrow> 'a interrupts_scheme" where
  "load_gdt g k = k\<lparr>gdtr := g, data_selectors := [0x10, 0x10, 0x10, 0x10, 0x10], code_selector := 0x08\<rparr>"

definition CreateGdt :: "'a interrupts_scheme \<Rightarrow> 'a interrupts_scheme" where
  "CreateGdt k = load_gdt \<lparr>Gdt_Size = 5 * 8 - 1, Gdt_Offset = Gdt0_address k\<rparr> k"

subsection \<open>Gates\<close>

definition SetInterruptOffset :: "InterruptEntry \<Rightarrow> u64 \<Rightarrow> InterruptEntry" where
  "SetInterruptOffset e off =
     e\<lparr>Offset0 := ucast (off AND 0x000000000000FFFF),
       Offset1 := ucast (drop_bit 16 (off AND 0x00000000FFFF0000)),
       Offset2 := ucast (drop_bit 32 (off AND 0xFFFFFFFF00000000))\<rparr>"

definition GetInterruptOffset :: "InterruptEntry \<Rightarrow> u64" where
  "GetInterruptOffset e =
     (0 OR ucast (Offset0 e)) OR push_bit 16 (ucast (Offset1 e)) OR push_bit 32 (ucast (Offset2 e))"

definition read_entry :: "memory \<Rightarrow> u64 \<Rightarrow> InterruptEntry" where
  "read_entry m a =
     \<lparr>Offset0 = load16 m a, Selector = load16 m (a + 2), StackListOffset = m (a + 4),
      TypeAttribute = m (a + 5), Offset1 = load16 m (a + 6), Offset2 = load32 m (a + 8),
      Ignore = load32 m (a + 12)\<rparr>"

definition write_entry :: "memory \<Rightarrow> u64 \<Rightarrow> InterruptEntry \<Rightarrow> memory" where
  "write_entry m a e =
     (let m = store16 m a (Offset0 e);
          m = store16 m (a + 2) (Selector e);
          m = m(a + 4 := StackListOffset e);
          m = m(a + 5 := TypeAttribute e);
          m = store16 m (a + 6) (Offset1 e);
          m = store32 m (a + 8) (Offset2 e)
      in store32 m (a + 12) (Ignore e))"

definition CreateIdt :: "'a interrupts_scheme \<Rightarrow> 'a interrupts_scheme" where
  "CreateIdt k = k\<lparr>Idt0 := \<lparr>Idt_Limit = 0x0FFF, Idt_Offset = IdtPage_address k\<rparr>\<rparr>"

definition AddHandler3 :: "u64 \<Rightarrow> u64 \<Rightarrow> u64 \<Rightarrow> 'a interrupts_scheme \<Rightarrow> 'a interrupts_scheme" where
  "AddHandler3 Handler off sel k =
     (let a = Idt_Offset (Idt0 k) + off * 16;
          e = SetInterruptOffset (read_entry (IdtPage k) a) Handler;
          e = e\<lparr>TypeAttribute := IntTA_Gate\<rparr>;
          e = e\<lparr>Selector := ucast sel\<rparr>
      in k\<lparr>IdtPage := write_entry (IdtPage k) a e, idtr := Idt0 k, interrupts_enabled := True\<rparr>)"

definition AddHandler :: "u64 \<Rightarrow> u64 \<Rightarrow> 'a interrupts_scheme \<Rightarrow> 'a interrupts_scheme" where
  "AddHandler Handler off k = AddHandler3 Handler off 0x08 k"

subsection \<open>Faults\<close>

definition OnPageFault :: "'a console_scheme \<Rightarrow> (unit, 'a console_scheme) run" where
  "OnPageFault k = Halt (print_message ''PF.'' k)"

definition OnDoubleFault :: "'a console_scheme \<Rightarrow> (unit, 'a console_scheme) run" where
  "OnDoubleFault k = Halt (print_message ''DF.'' k)"

definition OnGeneralProtectionFault :: "'a console_scheme \<Rightarrow> (unit, 'a console_scheme) run" where
  "OnGeneralProtectionFault k = Halt (print_message ''GP.'' k)"

text \<open>The arguments are the addresses of the three compiled handlers.\<close>

definition RegisterFaults :: "u64 \<Rightarrow> u64 \<Rightarrow> u64 \<Rightarrow> 'a interrupts_scheme \<Rightarrow> 'a interrupts_scheme" where
  "RegisterFaults pf df gp k =
     AddHandler gp 0xD (AddHandler df 0x8 (AddHandler pf 0xE k))"

subsection \<open>Reading gates back\<close>

lemma GetInterruptOffset_Set [simp]: "GetInterruptOffset (SetInterruptOffset e off) = off"
proof (rule bit_eqI)
  fix n
  have m: "(0xFFFF :: u64) = mask 16" "(0xFFFF0000 :: u64) = push_bit 16 (mask 16)"
    "(0xFFFFFFFF00000000 :: u64) = push_bit 32 (mask 32)"
    by (simp_all add: mask_eq_exp_minus_1 push_bit_eq_mult)
  show "bit (GetInterruptOffset (SetInterruptOffset e off)) n = bit off n"
    unfolding GetInterruptOffset_def SetInterruptOffset_def m
    by (cases "n < 16"; cases "n < 32") (auto simp: bit_simps dest: bit_imp_le_length)
qed

text \<open>The bytes of an entry: 16 consecutive addresses.\<close>

lemmas entry_fields =
  offs_field [of 2 2, simplified] offs_field [of 6 2, simplified]
  offs_field [of 8 4, simplified] offs_field [of 12 4, simplified]

lemma write_entry_outside:
  assumes "\<not> offs a x < 16"
  shows "write_entry m a e x = m x"
proof -
  have "x \<noteq> a + 4" "x \<noteq> a + 5"
    using assms offs_eq_iff [of 4 x a] offs_eq_iff [of 5 x a] by auto
  then show ?thesis using assms
    by (simp add: write_entry_def Let_def store16_apply store32_apply entry_fields)
qed

lemma read_entry_cong:
  assumes "\<And>x. offs a x < 16 \<Longrightarrow> m x = m' x"
  shows "read_entry m a = read_entry m' a"
proof -
  have "load16 m a = load16 m' a" "load16 m (a + 2) = load16 m' (a + 2)"
    "load16 m (a + 6) = load16 m' (a + 6)" "load32 m (a + 8) = load32 m' (a + 8)"
    "load32 m (a + 12) = load32 m' (a + 12)"
    by (auto intro!: load16_cong load32_cong assms simp: entry_fields)
  moreover have "m (a + 4) = m' (a + 4)" "m (a + 5) = m' (a + 5)"
    using offs_add_right [of 4 a] offs_add_right [of 5 a] by (auto intro!: assms)
  ultimately show ?thesis by (simp add: read_entry_def)
qed

lemma read_write_entry [simp]: "read_entry (write_entry m a e) a = e"
proof -
  have f: "x = a + 4 \<longleftrightarrow> offs a x = 4" "x = a + 5 \<longleftrightarrow> offs a x = 5" for x
    using offs_eq_iff [of 4 x a] offs_eq_iff [of 5 x a] by auto
  note ap = write_entry_def Let_def store16_apply store32_apply entry_fields fun_upd_apply f
  have "load16 (write_entry m a e) a = load16 (store16 m a (Offset0 e)) a"
    by (rule load16_cong) (auto simp: ap)
  moreover have "load16 (write_entry m a e) (a + 2) = load16 (store16 m (a + 2) (Selector e)) (a + 2)"
    by (rule load16_cong) (auto simp: ap)
  moreover have "load16 (write_entry m a e) (a + 6) = load16 (store16 m (a + 6) (Offset1 e)) (a + 6)"
    by (rule load16_cong) (auto simp: ap)
  moreover have "load32 (write_entry m a e) (a + 8) = load32 (store32 m (a + 8) (Offset2 e)) (a + 8)"
    by (rule load32_cong) (auto simp: ap)
  moreover have "load32 (write_entry m a e) (a + 12) = load32 (store32 m (a + 12) (Ignore e)) (a + 12)"
    by (rule load32_cong) (auto simp: ap)
  moreover have "write_entry m a e (a + 4) = StackListOffset e" "write_entry m a e (a + 5) = TypeAttribute e"
    using offs_add_right [of 4 a] offs_add_right [of 5 a] by (auto simp: ap)
  ultimately show ?thesis by (simp add: read_entry_def)
qed

text \<open>What the processor reads for a vector: the gate at \<open>idtr\<close> plus 16 times its number.\<close>

definition gate :: "'a interrupts_scheme \<Rightarrow> nat \<Rightarrow> InterruptEntry" where
  "gate k v = read_entry (IdtPage k) (Idt_Offset (idtr k) + word_of_nat v * 16)"

lemma gates_apart:
  assumes "i < 256" "j < 256" "i \<noteq> j"
  shows "offs (b + word_of_nat i * 16) x < 16 \<Longrightarrow> \<not> offs (b + word_of_nat j * 16) x < 16"
  using assms offs_field [of "i * 16" 16 b x] offs_field [of "j * 16" 16 b x] by auto

lemma AddHandler_step:
  assumes "v < 256"
  shows "idtr (AddHandler h (word_of_nat v) k) = Idt0 k"
    and "interrupts_enabled (AddHandler h (word_of_nat v) k)"
    and "GetInterruptOffset (read_entry (IdtPage (AddHandler h (word_of_nat v) k))
           (Idt_Offset (Idt0 k) + word_of_nat v * 16)) = h"
    and "TypeAttribute (read_entry (IdtPage (AddHandler h (word_of_nat v) k))
           (Idt_Offset (Idt0 k) + word_of_nat v * 16)) = IntTA_Gate"
    and "Selector (read_entry (IdtPage (AddHandler h (word_of_nat v) k))
           (Idt_Offset (Idt0 k) + word_of_nat v * 16)) = 0x08"
    and "w < 256 \<Longrightarrow> w \<noteq> v \<Longrightarrow>
         read_entry (IdtPage (AddHandler h (word_of_nat v) k)) (Idt_Offset (Idt0 k) + word_of_nat w * 16) =
         read_entry (IdtPage k) (Idt_Offset (Idt0 k) + word_of_nat w * 16)"
proof -
  have off: "GetInterruptOffset (e\<lparr>TypeAttribute := t, Selector := s\<rparr>) = GetInterruptOffset e" for e t s
    by (simp add: GetInterruptOffset_def)
  show "GetInterruptOffset (read_entry (IdtPage (AddHandler h (word_of_nat v) k))
           (Idt_Offset (Idt0 k) + word_of_nat v * 16)) = h"
    by (simp add: AddHandler_def AddHandler3_def Let_def off)
  show "read_entry (IdtPage (AddHandler h (word_of_nat v) k)) (Idt_Offset (Idt0 k) + word_of_nat w * 16) =
         read_entry (IdtPage k) (Idt_Offset (Idt0 k) + word_of_nat w * 16)" if "w < 256" "w \<noteq> v"
    using gates_apart [OF that(1) assms that(2)]
    by (auto simp: AddHandler_def AddHandler3_def Let_def intro!: read_entry_cong write_entry_outside)
qed (simp_all add: AddHandler_def AddHandler3_def Let_def)

text \<open>
  Registering a handler: after \<^verbatim>\<open>AddHandler\<close> the table register holds \<^verbatim>\<open>Idt0\<close> and
  interrupts are on; the gate of the vector is a present 64-bit interrupt gate in the code
  segment \<^verbatim>\<open>0x08\<close> whose offset is the handler's address; the gates of all other vectors
  are unchanged.
\<close>

lemma AddHandler_gate:
  assumes "v < 256"
  shows "let k' = AddHandler h (word_of_nat v) k in
           idtr k' = Idt0 k \<and> interrupts_enabled k' \<and>
           GetInterruptOffset (gate k' v) = h \<and> TypeAttribute (gate k' v) = IntTA_Gate \<and>
           Selector (gate k' v) = 0x08 \<and>
           (\<forall>w<256. w \<noteq> v \<longrightarrow> gate k' w = read_entry (IdtPage k) (Idt_Offset (Idt0 k) + word_of_nat w * 16))"
  using AddHandler_step [OF assms, where h = h and k = k] by (simp add: Let_def gate_def)

definition demo_interrupts :: interrupts where
  "demo_interrupts = console.extend demo_console
     \<lparr>Gdt0_address = 0xFFFFFFFF80004000, gdtr = \<lparr>Gdt_Size = 0, Gdt_Offset = 0\<rparr>, code_selector = 0,
      data_selectors = [], Idt0 = \<lparr>Idt_Limit = 0x0FFF, Idt_Offset = 0xFFFFFFFF80005000\<rparr>,
      IdtPage_address = 0xFFFFFFFF80005000, IdtPage = (\<lambda>_. 0),
      idtr = \<lparr>Idt_Limit = 0, Idt_Offset = 0\<rparr>, interrupts_enabled = False\<rparr>"

lemma AddHandler_gate_example:
  "GetInterruptOffset (gate (AddHandler 0xFFFFFFFF80001230 14 demo_interrupts) 14) = 0xFFFFFFFF80001230"
  using AddHandler_gate [of 14 "0xFFFFFFFF80001230" demo_interrupts] by (simp add: Let_def)



end
