(* ===== verification/Pmm.thy ===== *)
theory Pmm
  imports Interrupts
begin

text \<open>
  The physical page allocator of \<^verbatim>\<open>kernel/Memory/Paging/Pmm\<close>. Its state is the globals of
  \<^verbatim>\<open>Pmm.cpp\<close> and physical memory, which this code reaches through the identity mapping.
  A loop over the memory map is a recursion over the entry list; the loop over the pages of
  an entry counts the pages that remain. The main results: pages come in increasing order,
  none is skipped and none is handed out twice while nothing is freed; a freed page is the
  next one handed out; and the page that holds the free list is itself handed out.
\<close>

record pmm = interrupts +
  mem :: memory
  MemoryMap :: limine_memmap_response
  SizeOfMemory :: u64
  FreeList :: u64
  FreeListLength :: u64
  LastAddress :: u64
  LastPageIndex :: u64

subsection \<open>Sizes\<close>

fun GetSizeOfMemory_loop :: "limine_memmap_entry list \<Rightarrow> u64 \<Rightarrow> u64" where
  "GetSizeOfMemory_loop [] sz = sz"
| "GetSizeOfMemory_loop (Entry # es) sz =
     GetSizeOfMemory_loop es
       (if me_type Entry = LIMINE_MEMMAP_USABLE \<or> me_type Entry = LIMINE_MEMMAP_BOOTLOADER_RECLAIMABLE
        then (if EndOfSegment Entry > sz then EndOfSegment Entry else sz)
        else sz)"

definition GetSizeOfMemory :: "'a pmm_scheme \<Rightarrow> u64 \<times> 'a pmm_scheme" where
  "GetSizeOfMemory k =
     (if SizeOfMemory k > 0 then (SizeOfMemory k, k)
      else
        let s = GetSizeOfMemory_loop (entries (MemoryMap k)) (SizeOfMemory k);
            Unit = 1048576;
            s' = (if s mod Unit \<noteq> 0 then (s div Unit + 1) * Unit else s)
        in (s', k\<lparr>SizeOfMemory := s'\<rparr>))"

subsection \<open>memset\<close>

primrec memset_loop :: "memory \<Rightarrow> u64 \<Rightarrow> u8 \<Rightarrow> u64 \<Rightarrow> nat \<Rightarrow> memory" where
  "memset_loop m Base Val Index 0 = m"
| "memset_loop m Base Val Index (Suc n) = memset_loop (m(Base + Index := Val)) Base Val (Index + 1) n"

definition memset :: "memory \<Rightarrow> u64 \<Rightarrow> u8 \<Rightarrow> u64 \<Rightarrow> memory" where
  "memset m Base Val Length = memset_loop m Base Val 0 (unat Length)"

subsection \<open>The allocator\<close>

fun CreatePMM_loop :: "limine_memmap_entry list \<Rightarrow> u64 \<Rightarrow> u64 \<Rightarrow> u64 \<times> u64" where
  "CreatePMM_loop [] MAX_Size fl = (MAX_Size, fl)"
| "CreatePMM_loop (Entry # es) MAX_Size fl =
     (if me_type Entry = LIMINE_MEMMAP_USABLE \<and> me_length Entry > MAX_Size
      then CreatePMM_loop es (me_length Entry) (me_base Entry)
      else CreatePMM_loop es MAX_Size fl)"

definition CreatePMM :: "'a pmm_scheme \<Rightarrow> 'a pmm_scheme" where
  "CreatePMM k = k\<lparr>FreeList := snd (CreatePMM_loop (entries (MemoryMap k)) 0 (FreeList k))\<rparr>"

primrec scan_pages :: "u64 \<Rightarrow> u64 \<Rightarrow> nat \<Rightarrow> u64 \<Rightarrow> u64 option" where
  "scan_pages b PageIndex 0 prev = None"
| "scan_pages b PageIndex (Suc n) prev =
     (let Address = b + PageIndex * 4096 in
      if Address > prev then Some Address else scan_pages b (PageIndex + 1) n prev)"

fun scan_entries :: "limine_memmap_entry list \<Rightarrow> u64 \<Rightarrow> u64 option" where
  "scan_entries [] prev = None"
| "scan_entries (Entry # es) prev =
     (if me_type Entry = LIMINE_MEMMAP_USABLE then
        (case scan_pages (me_base Entry) 0 (unat (me_length Entry div 4096)) prev of
           Some Address \<Rightarrow> Some Address
         | None \<Rightarrow> scan_entries es prev)
      else scan_entries es prev)"

definition AllocatePage :: "'a pmm_scheme \<Rightarrow> (u64, 'a pmm_scheme) run" where
  "AllocatePage k =
     (if FreeListLength k > 0 then
        Ret (load64 (mem k) (FreeList k + (FreeListLength k - 1) * 8))
            (k\<lparr>FreeListLength := FreeListLength k - 1\<rparr>)
      else
        (case scan_entries (entries (MemoryMap k)) (LastAddress k) of
           Some Address \<Rightarrow> Ret Address (k\<lparr>LastAddress := Address\<rparr>)
         | None \<Rightarrow> Halt (print_message ''Out of memory'' k)))"

definition AllocateEmptyPage :: "'a pmm_scheme \<Rightarrow> (u64, 'a pmm_scheme) run" where
  "AllocateEmptyPage k =
     and_then (AllocatePage k) (\<lambda>Address k'. Ret Address (k'\<lparr>mem := memset (mem k') Address 0 4096\<rparr>))"

definition FreePage :: "u64 \<Rightarrow> 'a pmm_scheme \<Rightarrow> 'a pmm_scheme" where
  "FreePage ptr k =
     (let n = FreeListLength k + 1 in
      k\<lparr>FreeListLength := n, mem := store64 (mem k) (FreeList k + (n - 1) * 8) ptr\<rparr>)"

text \<open>A run of \<open>n\<close> allocations, with the addresses they returned.\<close>

fun allocate_run :: "nat \<Rightarrow> 'a pmm_scheme \<Rightarrow> (u64 list, 'a pmm_scheme) run" where
  "allocate_run 0 k = Ret [] k"
| "allocate_run (Suc n) k =
     and_then (AllocatePage k) (\<lambda>a k'. and_then (allocate_run n k') (\<lambda>as k''. Ret (a # as) k''))"

text \<open>The pages of the usable entries, in the order of the map.\<close>

definition entry_pages :: "limine_memmap_entry \<Rightarrow> u64 list" where
  "entry_pages e =
     (if is_usable e
      then map (\<lambda>i. me_base e + word_of_nat i * 4096) [0..<unat (me_length e div 4096)] else [])"

definition usable_pages :: "limine_memmap_entry list \<Rightarrow> u64 list" where
  "usable_pages es = concat (map entry_pages es)"

subsection \<open>memset fills its range and nothing else\<close>

lemma memset_loop_apply:
  "n \<le> 2 ^ 64 \<Longrightarrow>
   memset_loop m Base Val i n x = (if offs (Base + i) x < n then Val else m x)"
proof (induction n arbitrary: m i)
  case 0
  then show ?case by simp
next
  case (Suc n)
  show ?case
  proof (cases "x = Base + i")
    case True
    have "offs (Base + (i + 1)) x = 2 ^ 64 - 1"
      using True by (simp add: offs_def unsigned_minus_1_eq_mask mask_eq_exp_minus_1)
    with Suc True show ?thesis by simp
  next
    case False
    then have "offs (Base + i) x = Suc (offs (Base + (i + 1)) x)"
      using offs_succ [of x "Base + i"] by (simp add: add.assoc)
    with Suc False show ?thesis by simp
  qed
qed

lemma memset_apply: "memset m Base Val Length x = (if offs Base x < unat Length then Val else m x)"
  by (simp add: memset_def memset_loop_apply less_imp_le)

subsection \<open>Scanning the memory map\<close>

lemma scan_pages_find:
  "scan_pages b (word_of_nat i) n prev =
     find (\<lambda>a. a > prev) (map (\<lambda>j. b + word_of_nat j * 4096) [i..<i + n])"
proof (induction n arbitrary: i)
  case 0
  then show ?case by simp
next
  case (Suc n)
  have "[i..<i + Suc n] = i # [Suc i..<Suc i + n]" by (simp add: upt_conv_Cons)
  then show ?case using Suc [of "Suc i"] by (simp add: Let_def add.commute)
qed

lemma find_append: "find P (xs @ ys) = (case find P xs of Some x \<Rightarrow> Some x | None \<Rightarrow> find P ys)"
  by (induction xs) auto

lemma scan_entries_find: "scan_entries es prev = find (\<lambda>a. a > prev) (usable_pages es)"
proof (induction es)
  case Nil
  then show ?case by (simp add: usable_pages_def)
next
  case (Cons e es)
  then show ?case
    using scan_pages_find [of "me_base e" 0 "unat (me_length e div 4096)" prev]
    by (simp add: usable_pages_def entry_pages_def is_usable_def find_append split: option.split)
qed

lemma entry_page_unat:
  assumes "unat (b :: u64) + unat l < 2 ^ 64" and "i < unat (l div 4096 :: u64)"
  shows "unat (b + word_of_nat i * 4096) = unat b + i * 4096"
proof -
  have "i < unat l div 4096" using assms(2) by (simp add: unat_div)
  then have lt: "i * 4096 < unat l" by linarith
  have m: "unat (word_of_nat i * 4096 :: u64) = i * 4096"
  proof -
    have "i * 4096 < 2 ^ 64" by (rule less_trans [OF lt]) simp
    then have "unat (word_of_nat (i * 4096) :: u64) = i * 4096" by (rule unat_word_of_nat64)
    then show ?thesis by simp
  qed
  show ?thesis using lt assms(1) unfolding unat_word_ariths(1) m by simp
qed

lemma entry_pages_range:
  assumes "x \<in> set (entry_pages e)" and "unat (me_base e) + unat (me_length e) < 2 ^ 52"
  shows "unat (me_base e) \<le> unat x \<and> unat x + 4096 \<le> unat (me_base e) + unat (me_length e)
       \<and> (page_aligned (me_base e) \<longrightarrow> page_aligned x) \<and> is_usable e"
proof -
  from assms(1) obtain i where u: "is_usable e" and i: "i < unat (me_length e div 4096)"
    and x: "x = me_base e + word_of_nat i * 4096"
    by (auto simp: entry_pages_def split: if_splits)
  have ux: "unat x = unat (me_base e) + i * 4096"
    unfolding x using assms(2) i by (intro entry_page_unat [of _ "me_length e"]) auto
  have "i < unat (me_length e) div 4096" using i by (simp add: unat_div)
  then have "i * 4096 + 4096 \<le> unat (me_length e)" by linarith
  moreover have "page_aligned x" if "page_aligned (me_base e)"
    using that ux by (simp add: page_aligned_def)
  ultimately show ?thesis using ux u by simp
qed

lemma sorted_entry_pages:
  assumes "unat (me_base e) + unat (me_length e) < 2 ^ 52"
  shows "sorted_wrt (<) (entry_pages e)"
proof (cases "is_usable e")
  case True
  have "me_base e + word_of_nat i * 4096 < me_base e + word_of_nat j * 4096"
    if "i < j" "j < unat (me_length e div 4096)" for i j
    using that assms entry_page_unat [of "me_base e" "me_length e" i]
      entry_page_unat [of "me_base e" "me_length e" j]
    by (simp add: word_less_nat_alt)
  then show ?thesis
    using True by (auto simp: entry_pages_def sorted_wrt_map sorted_wrt_iff_nth_less)
next
  case False
  then show ?thesis by (simp add: entry_pages_def)
qed

lemma usable_pages_source:
  "x \<in> set (usable_pages es) \<Longrightarrow> \<exists>e\<in>set es. is_usable e \<and> x \<in> set (entry_pages e)"
  by (auto simp: usable_pages_def entry_pages_def split: if_splits)

lemma memmap_wf_entry:
  "memmap_wf es \<Longrightarrow> e \<in> set es \<Longrightarrow> is_usable e \<Longrightarrow>
   page_aligned (me_base e) \<and> page_aligned (me_length e) \<and> unat (me_base e) + unat (me_length e) < 2 ^ 52"
  by (induction es) auto

lemma sorted_usable_pages: "memmap_wf es \<Longrightarrow> sorted_wrt (<) (usable_pages es)"
proof (induction es)
  case Nil
  then show ?case by (simp add: usable_pages_def)
next
  case (Cons e es)
  have IH: "sorted_wrt (<) (usable_pages es)" using Cons by simp
  show ?case
  proof (cases "is_usable e")
    case False
    then show ?thesis using IH by (simp add: usable_pages_def entry_pages_def)
  next
    case True
    with Cons.prems have b: "unat (me_base e) + unat (me_length e) < 2 ^ 52"
      and later: "\<And>f. f \<in> set es \<Longrightarrow> is_usable f \<Longrightarrow> unat (me_base e) + unat (me_length e) \<le> unat (me_base f)"
      and wf: "memmap_wf es"
      by (auto simp: list_all_iff)
    have "x < y" if x: "x \<in> set (entry_pages e)" and y: "y \<in> set (usable_pages es)" for x y
    proof -
      obtain f where f: "f \<in> set es" "is_usable f" "y \<in> set (entry_pages f)"
        using usable_pages_source [OF y] by blast
      show ?thesis
        using entry_pages_range [OF x b] later [OF f(1,2)]
          entry_pages_range [OF f(3)] memmap_wf_entry [OF wf f(1,2)]
        by (simp add: word_less_nat_alt)
    qed
    then show ?thesis
      using IH sorted_entry_pages [OF b] by (auto simp: usable_pages_def sorted_wrt_append)
  qed
qed

lemma usable_page_aligned: "memmap_wf es \<Longrightarrow> x \<in> set (usable_pages es) \<Longrightarrow> page_aligned x \<and> unat x + 4096 \<le> 2 ^ 52"
proof -
  assume wf: "memmap_wf es" and x: "x \<in> set (usable_pages es)"
  obtain e where e: "e \<in> set es" "is_usable e" "x \<in> set (entry_pages e)"
    using usable_pages_source [OF x] by blast
  have wfe: "page_aligned (me_base e)" "unat (me_base e) + unat (me_length e) < 2 ^ 52"
    using memmap_wf_entry [OF wf e(1,2)] by auto
  show ?thesis using entry_pages_range [OF e(3) wfe(2)] wfe by simp
qed

text \<open>The pages still to be handed out.\<close>

definition fresh_pages :: "'a pmm_scheme \<Rightarrow> u64 list" where
  "fresh_pages k = filter (\<lambda>a. a > LastAddress k) (usable_pages (entries (MemoryMap k)))"

lemma find_filter: "find P xs = (case filter P xs of [] \<Rightarrow> None | x # _ \<Rightarrow> Some x)"
  by (induction xs) auto

lemma AllocatePage_fresh:
  "FreeListLength k = 0 \<Longrightarrow>
   AllocatePage k = (case fresh_pages k of
       [] \<Rightarrow> Halt (print_message ''Out of memory'' k)
     | a # _ \<Rightarrow> Ret a (k\<lparr>LastAddress := a\<rparr>))"
  by (simp add: AllocatePage_def scan_entries_find find_filter fresh_pages_def split: list.split)

lemma fresh_pages_advance:
  assumes "memmap_wf (entries (MemoryMap k))" and "fresh_pages k = a # as"
  shows "fresh_pages (k\<lparr>LastAddress := a\<rparr>) = as"
proof -
  let ?ps = "usable_pages (entries (MemoryMap k))"
  have srt: "sorted_wrt (<) (a # as)"
    using sorted_usable_pages [OF assms(1)] assms(2) unfolding fresh_pages_def
    by (metis sorted_wrt_filter)
  have "LastAddress k < a" using assms(2) unfolding fresh_pages_def
    by (metis (mono_tags, lifting) filter_eq_Cons_iff)
  then have "filter (\<lambda>b. b > a) ?ps = filter (\<lambda>b. b > a) (filter (\<lambda>b. b > LastAddress k) ?ps)"
    by (auto intro!: filter_cong simp: filter_filter)
  also have "\<dots> = filter (\<lambda>b. b > a) (a # as)" using assms(2) by (simp add: fresh_pages_def)
  also have "\<dots> = as" using srt by (simp add: filter_id_conv)
  finally show ?thesis by (simp add: fresh_pages_def)
qed

subsection \<open>What the allocator guarantees\<close>

lemma fresh_pages_sorted:
  "memmap_wf (entries (MemoryMap k)) \<Longrightarrow> sorted_wrt (<) (fresh_pages k)"
  unfolding fresh_pages_def by (intro sorted_wrt_filter sorted_usable_pages)

lemma fresh_pages_update [simp]:
  "fresh_pages (k\<lparr>mem := m\<rparr>) = fresh_pages k"
  by (simp add: fresh_pages_def)

lemma allocate_run_fresh:
  assumes "memmap_wf (entries (MemoryMap k))" and "FreeListLength k = 0"
    and "n \<le> length (fresh_pages k)"
  shows "allocate_run n k =
           Ret (take n (fresh_pages k))
               (k\<lparr>LastAddress := last (LastAddress k # take n (fresh_pages k))\<rparr>)"
  using assms
proof (induction n arbitrary: k)
  case 0
  then show ?case by simp
next
  case (Suc n)
  then obtain a as where f: "fresh_pages k = a # as" by (cases "fresh_pages k") auto
  let ?k = "k\<lparr>LastAddress := a\<rparr>"
  have adv: "fresh_pages ?k = as" using fresh_pages_advance [OF Suc.prems(1) f] .
  have "allocate_run n ?k =
          Ret (take n as) (?k\<lparr>LastAddress := last (a # take n as)\<rparr>)"
    using Suc.IH [of ?k] Suc.prems f adv by simp
  then show ?case using Suc.prems f by (simp add: AllocatePage_fresh)
qed

lemma allocate_run_exhausted:
  assumes "memmap_wf (entries (MemoryMap k))" and "FreeListLength k = 0"
    and "length (fresh_pages k) < n"
  shows "allocate_run n k =
           Halt (print_message ''Out of memory''
                  (k\<lparr>LastAddress := last (LastAddress k # fresh_pages k)\<rparr>))"
  using assms
proof (induction n arbitrary: k)
  case 0
  then show ?case by simp
next
  case (Suc n)
  show ?case
  proof (cases "fresh_pages k")
    case Nil
    then show ?thesis using Suc.prems by (simp add: AllocatePage_fresh)
  next
    case (Cons a as)
    let ?k = "k\<lparr>LastAddress := a\<rparr>"
    have adv: "fresh_pages ?k = as" using fresh_pages_advance [OF Suc.prems(1) Cons] .
    show ?thesis using Suc.IH [of ?k] Suc.prems Cons adv by (simp add: AllocatePage_fresh)
  qed
qed

lemma CreatePMM_loop_max:
  "CreatePMM_loop es M fl = (M', fl') \<Longrightarrow>
   (\<forall>e\<in>set es. is_usable e \<longrightarrow> me_length e \<le> M') \<and> M \<le> M' \<and>
   ((M', fl') = (M, fl) \<or> (\<exists>e\<in>set es. is_usable e \<and> me_length e = M' \<and> me_base e = fl'))"
proof (induction es arbitrary: M fl)
  case Nil
  then show ?case by simp
next
  case (Cons e es)
  show ?case
  proof (cases "me_type e = LIMINE_MEMMAP_USABLE \<and> me_length e > M")
    case True
    then show ?thesis using Cons.IH [of "me_length e" "me_base e"] Cons.prems
      by (auto simp: is_usable_def)
  next
    case False
    then show ?thesis using Cons.IH [of M fl] Cons.prems by (auto simp: is_usable_def)
  qed
qed

lemma CreatePMM_largest:
  assumes "e \<in> set (entries (MemoryMap k))" and "is_usable e" and "me_length e > 0"
  shows "\<exists>g\<in>set (entries (MemoryMap k)). is_usable g \<and> me_base g = FreeList (CreatePMM k) \<and>
           me_length e \<le> me_length g"
proof -
  obtain M fl where r: "CreatePMM_loop (entries (MemoryMap k)) 0 (FreeList k) = (M, fl)"
    by fastforce
  from CreatePMM_loop_max [OF r] assms have le: "me_length e \<le> M" by blast
  with assms(3) have "M \<noteq> 0" by (auto simp: word_le_nat_alt word_less_nat_alt)
  with CreatePMM_loop_max [OF r] obtain g where
    "g \<in> set (entries (MemoryMap k))" "is_usable g" "me_length g = M" "me_base g = fl" by auto
  with r le show ?thesis by (auto simp: CreatePMM_def)
qed

lemma entry_first_page:
  "is_usable e \<Longrightarrow> 4096 \<le> unat (me_length e) \<Longrightarrow> me_base e \<in> set (entry_pages e)"
  by (auto simp: entry_pages_def unat_div intro!: image_eqI [of _ _ 0])

lemma fresh_pages_run:
  assumes "memmap_wf (entries (MemoryMap k))" and "n \<le> length (fresh_pages k)"
  shows "fresh_pages (k\<lparr>LastAddress := last (LastAddress k # take n (fresh_pages k))\<rparr>) = drop n (fresh_pages k)"
  using assms
proof (induction n arbitrary: k)
  case 0
  then show ?case by simp
next
  case (Suc n)
  then obtain a as where f: "fresh_pages k = a # as" by (cases "fresh_pages k") auto
  have adv: "fresh_pages (k\<lparr>LastAddress := a\<rparr>) = as" using fresh_pages_advance [OF Suc.prems(1) f] .
  show ?case using Suc.IH [of "k\<lparr>LastAddress := a\<rparr>"] Suc.prems f adv by simp
qed

lemma usable_page_inside:
  assumes "memmap_wf es" "x \<in> set (usable_pages es)"
  shows "page_aligned x \<and> (\<exists>e\<in>set es. is_usable e \<and> unat (me_base e) \<le> unat x \<and>
           unat x + 4096 \<le> unat (me_base e) + unat (me_length e))"
proof -
  obtain e where e: "e \<in> set es" "is_usable e" "x \<in> set (entry_pages e)"
    using usable_pages_source [OF assms(2)] by blast
  show ?thesis
    using entry_pages_range [OF e(3)] memmap_wf_entry [OF assms(1) e(1,2)] e(1,2) by blast
qed

definition counted_entry :: "limine_memmap_entry \<Rightarrow> bool" where
  "counted_entry e \<longleftrightarrow> me_type e = LIMINE_MEMMAP_USABLE \<or> me_type e = LIMINE_MEMMAP_BOOTLOADER_RECLAIMABLE"

lemma GetSizeOfMemory_loop_max:
  "GetSizeOfMemory_loop es s = t \<Longrightarrow>
   s \<le> t \<and> (\<forall>e\<in>set es. counted_entry e \<longrightarrow> EndOfSegment e \<le> t) \<and>
   (t = s \<or> (\<exists>e\<in>set es. counted_entry e \<and> EndOfSegment e = t))"
proof (induction es arbitrary: s)
  case Nil
  then show ?case by simp
next
  case (Cons e es)
  let ?s = "if counted_entry e \<and> EndOfSegment e > s then EndOfSegment e else s"
  have "GetSizeOfMemory_loop es ?s = t"
    using Cons.prems by (auto simp: counted_entry_def split: if_splits)
  from Cons.IH [OF this] show ?case by (auto split: if_splits)
qed

lemma round_up_mib:
  fixes t :: u64
  assumes "unat t + 1048576 \<le> 2 ^ 64"
    and "s = (if t mod 1048576 \<noteq> 0 then (t div 1048576 + 1) * 1048576 else t)"
  shows "unat s mod 1048576 = 0 \<and> unat t \<le> unat s \<and> unat s < unat t + 1048576"
proof (cases "t mod 1048576 = 0")
  case True
  then have "unat (t mod 1048576) = 0" by (simp only: unsigned_0)
  then have "unat t mod 1048576 = 0" by (simp add: unat_mod del: unat_eq_0)
  then show ?thesis using True assms(2) by simp
next
  case False
  then have "unat (t mod 1048576) \<noteq> 0" by (simp add: unat_eq_0)
  then have m: "unat t mod 1048576 \<noteq> 0" by (simp add: unat_mod del: unat_eq_0)
  obtain q r where q: "q = unat t div 1048576" and r: "r = unat t mod 1048576" by simp
  have "unat t = 1048576 * q + r" unfolding q r by (rule mult_div_mod_eq [symmetric])
  moreover have "r < 1048576" "0 < r" using m r by simp_all
  ultimately have "unat t \<le> (q + 1) * 1048576" "(q + 1) * 1048576 < unat t + 1048576" by simp_all
  then have up: "unat t \<le> (unat t div 1048576 + 1) * 1048576"
    "(unat t div 1048576 + 1) * 1048576 < unat t + 1048576" unfolding q .
  then have lt: "(unat t div 1048576 + 1) * 1048576 < 2 ^ 64" using assms(1) by linarith
  have td: "t div 1048576 = word_of_nat (unat t div 1048576)"
    using word_arith_nat_div [of t 1048576] by simp
  have "s = word_of_nat ((unat t div 1048576 + 1) * 1048576)"
    using False assms(2) td by simp
  then have "unat s = (unat t div 1048576 + 1) * 1048576"
    using unat_word_of_nat64 [OF lt] by simp
  then show ?thesis using up by simp
qed

subsection \<open>Freeing\<close>

text \<open>Freeing a list of pages, first to last.\<close>

fun free_run :: "u64 list \<Rightarrow> 'a pmm_scheme \<Rightarrow> 'a pmm_scheme" where
  "free_run [] k = k"
| "free_run (p # ps) k = free_run ps (FreePage p k)"

lemma free_run_append: "free_run (ps @ qs) k = free_run qs (free_run ps k)"
  by (induction ps arbitrary: k) auto

lemma free_list_slots_disjoint:
  assumes "i < j" "j < 2 ^ 61"
  shows "disjoint_ranges (b + word_of_nat i * 8) 8 (b + word_of_nat j * 8) 8"
proof (rule disjoint_rangesI)
  fix x
  assume "offs (b + word_of_nat i * 8) x < 8" and "offs (b + word_of_nat j * 8) x < 8"
  then obtain c d where c: "c < 8" "x = b + word_of_nat i * 8 + word_of_nat c"
    and d: "d < 8" "x = b + word_of_nat j * 8 + word_of_nat d"
    by (metis offs_back)
  have "(word_of_nat (i * 8 + c) :: u64) = word_of_nat (j * 8 + d)"
    using c(2) d(2) by (simp add: add.assoc)
  moreover have "i * 8 + c < 2 ^ 64" "j * 8 + d < 2 ^ 64" using assms c(1) d(1) by auto
  ultimately have "i * 8 + c = j * 8 + d" by (metis unat_word_of_nat64)
  then show False using assms(1) c(1) d(1) by linarith
qed

lemma FreePage_fields [simp]:
  "FreeList (FreePage p k) = FreeList k" "FreeListLength (FreePage p k) = FreeListLength k + 1"
  "LastAddress (FreePage p k) = LastAddress k" "MemoryMap (FreePage p k) = MemoryMap k"
  by (simp_all add: FreePage_def Let_def)

lemma free_run_fields [simp]:
  "FreeList (free_run ps k) = FreeList k"
  "FreeListLength (free_run ps k) = FreeListLength k + word_of_nat (length ps)"
  by (induction ps arbitrary: k) (simp_all add: add.assoc)

text \<open>The free list is a stack: the top \<open>length ps\<close> slots hold the pages just freed.\<close>

lemma free_run_slot:
  assumes "FreeListLength k = word_of_nat n" "n + length ps < 2 ^ 61" "i < length ps"
  shows "load64 (mem (free_run ps k)) (FreeList k + word_of_nat (n + i) * 8) = ps ! i"
  using assms(2,3)
proof (induction ps rule: rev_induct)
  case Nil
  then show ?case by simp
next
  case (snoc p ps)
  have len: "FreeListLength (free_run ps k) = word_of_nat (n + length ps)"
    using assms(1) by simp
  have m: "mem (free_run (ps @ [p]) k) =
      store64 (mem (free_run ps k)) (FreeList k + word_of_nat (n + length ps) * 8) p"
    unfolding free_run_append using len by (simp add: FreePage_def Let_def)
  show ?case
  proof (cases "i = length ps")
    case True
    then show ?thesis unfolding m by (simp add: nth_append)
  next
    case False
    then have "i < length ps" using snoc.prems by simp
    then show ?thesis unfolding m
      using snoc free_list_slots_disjoint [of "n + i" "n + length ps" "FreeList k"]
      by (simp add: load64_store64_disjoint nth_append)
  qed
qed

lemma AllocatePage_pop:
  assumes "FreeListLength k = word_of_nat (Suc n)" "Suc n < 2 ^ 61"
  shows "AllocatePage k = Ret (load64 (mem k) (FreeList k + word_of_nat n * 8))
           (k\<lparr>FreeListLength := word_of_nat n\<rparr>)"
proof -
  have "FreeListLength k \<noteq> 0"
  proof
    assume "FreeListLength k = 0"
    then have "unat (word_of_nat (Suc n) :: u64) = 0" using assms(1) by simp
    then show False using unat_word_of_nat64 [of "Suc n"] assms(2) by simp
  qed
  then have "FreeListLength k > 0" by (simp add: word_gt_0)
  then show ?thesis using assms(1) by (simp add: AllocatePage_def)
qed

lemma allocate_run_pop:
  assumes "FreeListLength k = word_of_nat (n + m)" "n + m < 2 ^ 61"
    "\<And>i. i < m \<Longrightarrow> load64 (mem k) (FreeList k + word_of_nat (n + i) * 8) = ps ! i" "length ps = m"
  shows "allocate_run m k = Ret (rev ps) (k\<lparr>FreeListLength := word_of_nat n\<rparr>)"
  using assms
proof (induction m arbitrary: k ps)
  case 0
  then have "k = k\<lparr>FreeListLength := word_of_nat n\<rparr>" by simp
  then show ?case using 0 by simp
next
  case (Suc m)
  obtain qs q where ps: "ps = qs @ [q]" "length qs = m"
    using Suc.prems(4) by (metis length_Suc_conv_rev)
  let ?k = "k\<lparr>FreeListLength := word_of_nat (n + m)\<rparr>"
  have "AllocatePage k = Ret q ?k"
    using AllocatePage_pop [of k "n + m"] Suc.prems(1,2) Suc.prems(3) [of m] ps by (simp add: nth_append)
  moreover have "load64 (mem ?k) (FreeList ?k + word_of_nat (n + i) * 8) = qs ! i" if "i < m" for i
    using Suc.prems(3) [of i] that ps by (simp add: nth_append)
  then have "allocate_run m ?k = Ret (rev qs) (?k\<lparr>FreeListLength := word_of_nat n\<rparr>)"
    using Suc.IH [of ?k qs] Suc.prems(2) ps by simp
  ultimately show ?case using ps by simp
qed

subsection \<open>A concrete machine\<close>

text \<open>
  A small machine that the witnesses run: one terminal, and a memory map with a reserved
  entry, a usable entry of sixteen pages and one of two.
\<close>

definition demo_map :: limine_memmap_response where
  "demo_map =
     \<lparr>mm_revision = 0,
      entries = [\<lparr>me_base = 0, me_length = 0x1000, me_type = 1\<rparr>,
                 \<lparr>me_base = 0x1000, me_length = 0x10000, me_type = 0\<rparr>,
                 \<lparr>me_base = 0x20000, me_length = 0x2000, me_type = 0\<rparr>]\<rparr>"

definition demo_pmm :: pmm where
  "demo_pmm = interrupts.extend demo_interrupts
     \<lparr>mem = (\<lambda>_. 0), MemoryMap = demo_map, SizeOfMemory = 0, FreeList = 0, FreeListLength = 0,
      LastAddress = 0, LastPageIndex = 0\<rparr>"

lemma demo_map_wf: "memmap_wf (entries demo_map)"
  by (simp add: demo_map_def is_usable_def limine_memmap_types page_aligned_def)

lemma demo_usable_pages:
  "usable_pages (entries demo_map) =
     [0x1000, 0x2000, 0x3000, 0x4000, 0x5000, 0x6000, 0x7000, 0x8000, 0x9000, 0xA000, 0xB000,
      0xC000, 0xD000, 0xE000, 0xF000, 0x10000, 0x20000, 0x21000]"
  by (simp add: demo_map_def usable_pages_def entry_pages_def is_usable_def limine_memmap_types
      unat_div upt_rec)

lemma demo_pmm_fields:
  "MemoryMap demo_pmm = demo_map" "FreeListLength demo_pmm = 0" "LastAddress demo_pmm = 0"
  "FreeList demo_pmm = 0" "SizeOfMemory demo_pmm = 0"
  by (simp_all add: demo_pmm_def interrupts.extend_def)

lemma demo_fresh_pages: "fresh_pages demo_pmm = usable_pages (entries demo_map)"
  by (simp add: fresh_pages_def demo_pmm_fields demo_usable_pages)

subsection \<open>Properties\<close>

text \<open>
  C16. While nothing has been freed, \<open>n\<close> calls of \<^verbatim>\<open>AllocatePage\<close> return exactly the next
  \<open>n\<close> pages of the usable entries above \<^verbatim>\<open>LastAddress\<close>: in strictly increasing order (so
  no page twice and none skipped), each page aligned and inside a usable entry; when fewer
  than \<open>n\<close> remain, the run stops the machine after writing the out-of-memory message.
\<close>

theorem allocate_run_spec:
  assumes "memmap_wf (entries (MemoryMap k))" and "FreeListLength k = 0"
  shows "if n \<le> length (fresh_pages k) then
           \<exists>k'. allocate_run n k = Ret (take n (fresh_pages k)) k' \<and>
             fresh_pages k' = drop n (fresh_pages k) \<and>
             sorted_wrt (<) (take n (fresh_pages k)) \<and>
             (\<forall>a\<in>set (take n (fresh_pages k)). page_aligned a \<and>
                (\<exists>e\<in>set (entries (MemoryMap k)). is_usable e \<and> unat (me_base e) \<le> unat a \<and>
                   unat a + 4096 \<le> unat (me_base e) + unat (me_length e)))
         else \<exists>k'. allocate_run n k = Halt (print_message ''Out of memory'' k')"
proof (cases "n \<le> length (fresh_pages k)")
  case False
  then show ?thesis using allocate_run_exhausted [OF assms] by auto
next
  case True
  have "page_aligned a \<and> (\<exists>e\<in>set (entries (MemoryMap k)). is_usable e \<and> unat (me_base e) \<le> unat a \<and>
      unat a + 4096 \<le> unat (me_base e) + unat (me_length e))" if "a \<in> set (take n (fresh_pages k))" for a
    using that usable_page_inside [OF assms(1)] by (auto simp: fresh_pages_def dest: in_set_takeD)
  then show ?thesis
    using True allocate_run_fresh [OF assms True] fresh_pages_run [OF assms(1) True]
      sorted_wrt_take [OF fresh_pages_sorted [OF assms(1)]] by auto
qed

theorem allocate_run_spec_witness:
  "(\<exists>k'. allocate_run 3 demo_pmm = Ret [0x1000, 0x2000, 0x3000] k') \<and>
   (\<exists>k'. allocate_run 19 demo_pmm = Halt (print_message ''Out of memory'' k'))"
  using allocate_run_spec [of demo_pmm 3] allocate_run_spec [of demo_pmm 19]
  by (auto simp: demo_pmm_fields demo_map_wf demo_fresh_pages demo_usable_pages numeral_3_eq_3)

text \<open>
  C17. The free list is a stack. Freeing the pages \<open>ps\<close> and then allocating as many pages
  returns them last freed first, and leaves the list as long as it was before.
\<close>

theorem free_then_allocate:
  assumes "unat (FreeListLength k) + length ps < 2 ^ 61"
  shows "\<exists>k'. allocate_run (length ps) (free_run ps k) = Ret (rev ps) k' \<and>
           FreeListLength k' = FreeListLength k \<and> FreeList k' = FreeList k"
proof -
  have n: "FreeListLength k = word_of_nat (unat (FreeListLength k))" by simp
  show ?thesis
    using allocate_run_pop [of "free_run ps k" "unat (FreeListLength k)" "length ps" ps]
      free_run_slot [OF n assms] assms by simp
qed

theorem free_then_allocate_witness:
  "\<exists>k'. allocate_run 2 (free_run [0x3000, 0x2000] demo_pmm) = Ret [0x2000, 0x3000] k' \<and>
     FreeListLength k' = 0"
  using free_then_allocate [of demo_pmm "[0x3000, 0x2000]"]
  by (auto simp: demo_pmm_fields simp flip: numeral_2_eq_2)

text \<open>
  C28. The page that holds the free list is not kept out of the allocator: \<^verbatim>\<open>CreatePMM\<close>
  places the list at the start of the largest usable entry, \<^verbatim>\<open>AllocatePage\<close> hands out that
  very page to a caller, and the next \<^verbatim>\<open>FreePage\<close> then overwrites its first eight bytes.
\<close>

theorem free_list_page_is_allocated:
  assumes "memmap_wf (entries (MemoryMap k))" "FreeListLength k = 0" "LastAddress k = 0"
    and "e \<in> set (entries (MemoryMap k))" "is_usable e" "me_length e > 0"
    and "\<forall>e\<in>set (entries (MemoryMap k)). is_usable e \<longrightarrow> me_base e > 0"
  shows "\<exists>n as k'. allocate_run n (CreatePMM k) = Ret as k' \<and> FreeList k' \<in> set as \<and>
           (\<forall>ptr. load64 (mem (FreePage ptr k')) (FreeList k') = ptr)"
proof -
  let ?c = "CreatePMM k"
  obtain g where g: "g \<in> set (entries (MemoryMap k))" "is_usable g" "me_base g = FreeList ?c"
    "me_length e \<le> me_length g"
    using CreatePMM_largest [OF assms(4-6)] by blast
  have fields: "MemoryMap ?c = MemoryMap k" "FreeListLength ?c = 0" "LastAddress ?c = 0"
    using assms(2,3) by (simp_all add: CreatePMM_def)
  have "0 < unat (me_length g)" using g(4) assms(6) by (simp add: word_le_nat_alt word_less_nat_alt)
  moreover have "unat (me_length g) mod 4096 = 0"
    using memmap_wf_entry [OF assms(1) g(1,2)] by (simp add: page_aligned_def)
  ultimately have "4096 \<le> unat (me_length g)" by (metis dvd_imp_le mod_eq_0_iff_dvd)
  then have "FreeList ?c \<in> set (entry_pages g)" using entry_first_page [OF g(2)] g(3) by simp
  then have "FreeList ?c \<in> set (usable_pages (entries (MemoryMap k)))"
    using g(1) by (auto simp: usable_pages_def)
  moreover have "FreeList ?c > 0" using g assms(7) by metis
  ultimately have fresh: "FreeList ?c \<in> set (fresh_pages ?c)" by (simp add: fresh_pages_def fields)
  have run: "allocate_run (length (fresh_pages ?c)) ?c = Ret (fresh_pages ?c)
      (?c\<lparr>LastAddress := last (LastAddress ?c # fresh_pages ?c)\<rparr>)"
    using allocate_run_fresh [of ?c "length (fresh_pages ?c)"] assms(1) fields by simp
  show ?thesis
    by (intro exI conjI) (rule run, use fresh in simp, simp add: FreePage_def Let_def fields)
qed

theorem free_list_page_is_allocated_witness:
  "\<exists>n as k'. allocate_run n (CreatePMM demo_pmm) = Ret as k' \<and> FreeList k' \<in> set as \<and>
     (\<forall>ptr. load64 (mem (FreePage ptr k')) (FreeList k') = ptr)"
  by (rule free_list_page_is_allocated [of demo_pmm "\<lparr>me_base = 0x1000, me_length = 0x10000, me_type = 0\<rparr>"])
     (simp_all add: demo_pmm_fields demo_map_wf, simp_all add: demo_map_def is_usable_def limine_memmap_types)



end
