(* ===== verification/Ptm.thy ===== *)
theory Ptm
  imports Pmm
begin

text \<open>
  The page-table manager of \<^verbatim>\<open>kernel/Memory/Paging/Ptm\<close>. A \<^verbatim>\<open>PageTableEntry\<close> is a record
  with one field per bit-field of the C struct; in memory it is the 64-bit word the x86-64
  ABI packs it into, low bits first. Page tables live in physical memory, which the manager
  reaches through the identity mapping. \<^verbatim>\<open>MapMemory\<close>'s loop is a partial function: with a
  range that ends in the last page of the address space its condition never fails, so not
  returning is a possible behaviour and is the value \<open>None\<close>.

  The hardware side is \<open>translate\<close>, the four-level walk of the x86-64 architecture over
  4 KiB pages. The main result is that \<^verbatim>\<open>MapMemory\<close> makes that walk deliver exactly the
  requested mapping and keeps every other translation.
\<close>

record PageTableEntry =
  Present :: bool
  Writable :: bool
  UserAccessible :: bool
  WriteThroughCaching :: bool
  DisableCache :: bool
  Accessed :: bool
  Reserved :: bool
  HugePage :: bool
  Global :: bool
  Available0 :: "3 word"
  PhysicalAddress :: "40 word"
  Available1 :: "11 word"
  NoExecute :: bool

definition encode_pte :: "PageTableEntry \<Rightarrow> u64" where
  "encode_pte e =
     of_bool (Present e) OR push_bit 1 (of_bool (Writable e)) OR
     push_bit 2 (of_bool (UserAccessible e)) OR push_bit 3 (of_bool (WriteThroughCaching e)) OR
     push_bit 4 (of_bool (DisableCache e)) OR push_bit 5 (of_bool (Accessed e)) OR
     push_bit 6 (of_bool (Reserved e)) OR push_bit 7 (of_bool (HugePage e)) OR
     push_bit 8 (of_bool (Global e)) OR push_bit 9 (ucast (Available0 e)) OR
     push_bit 12 (ucast (PhysicalAddress e)) OR push_bit 52 (ucast (Available1 e)) OR
     push_bit 63 (of_bool (NoExecute e))"

definition decode_pte :: "u64 \<Rightarrow> PageTableEntry" where
  "decode_pte w =
     \<lparr>Present = bit w 0, Writable = bit w 1, UserAccessible = bit w 2,
      WriteThroughCaching = bit w 3, DisableCache = bit w 4, Accessed = bit w 5,
      Reserved = bit w 6, HugePage = bit w 7, Global = bit w 8,
      Available0 = ucast (drop_bit 9 w), PhysicalAddress = ucast (drop_bit 12 w),
      Available1 = ucast (drop_bit 52 w), NoExecute = bit w 63\<rparr>"

record ptm = pmm +
  HHDM_Request_response :: "limine_hhdm_response option"
  KernelAddressRequest_response :: "limine_kernel_address_response option"
  HHDM_Offset :: u64
  PhysicalKernelStart :: u64
  VirtualKernelStart :: u64
  KernelStart :: u64
  KernelEnd :: u64
  Pml4 :: u64
  CurrentPageTableEntry :: PageTableEntry
  FullSizeOfMemory :: u64
  cr3 :: u64

definition read_pte :: "memory \<Rightarrow> u64 \<Rightarrow> u64 \<Rightarrow> PageTableEntry" where
  "read_pte m table i = decode_pte (load64 m (table + i * 8))"

definition write_pte :: "memory \<Rightarrow> u64 \<Rightarrow> u64 \<Rightarrow> PageTableEntry \<Rightarrow> memory" where
  "write_pte m table i e = store64 m (table + i * 8) (encode_pte e)"

fun GetFullSizeOfMemory_loop :: "limine_memmap_entry list \<Rightarrow> u64 \<Rightarrow> u64" where
  "GetFullSizeOfMemory_loop [] sz = sz"
| "GetFullSizeOfMemory_loop (Entry # es) sz =
     GetFullSizeOfMemory_loop es (if EndOfSegment Entry > sz then EndOfSegment Entry else sz)"

definition GetFullSizeOfMemory :: "'a ptm_scheme \<Rightarrow> u64 \<times> 'a ptm_scheme" where
  "GetFullSizeOfMemory k =
     (if FullSizeOfMemory k > 0 then (FullSizeOfMemory k, k)
      else let s = GetFullSizeOfMemory_loop (entries (MemoryMap k)) (FullSizeOfMemory k)
           in (s, k\<lparr>FullSizeOfMemory := s\<rparr>))"

definition SetupPageTableEntry :: "PageTableEntry \<Rightarrow> PageTableEntry" where
  "SetupPageTableEntry e = e\<lparr>Writable := True, UserAccessible := True\<rparr>"

definition GetPageTableIndex :: "u64 \<Rightarrow> u64 \<Rightarrow> u64" where
  "GetPageTableIndex VirtualAddress Level = drop_bit (unat (3 + 9 * Level)) VirtualAddress AND 0x1FF"

definition GetNextPageLevel :: "u64 \<Rightarrow> u64 \<Rightarrow> 'a ptm_scheme \<Rightarrow> (u64, 'a ptm_scheme) run" where
  "GetNextPageLevel CurrentLevelPageTable NextLevelIndex k =
     (let e = read_pte (mem k) CurrentLevelPageTable NextLevelIndex;
          k1 = k\<lparr>CurrentPageTableEntry := e\<rparr>
      in if \<not> Present e then
           and_then (AllocateEmptyPage k1) (\<lambda>next k2.
             let e2 = SetupPageTableEntry
                        (CurrentPageTableEntry k2\<lparr>PhysicalAddress := ucast (drop_bit 12 next), Present := True\<rparr>)
             in Ret next (k2\<lparr>CurrentPageTableEntry := e2,
                             mem := write_pte (mem k2) CurrentLevelPageTable NextLevelIndex e2\<rparr>))
         else Ret (push_bit 12 (ucast (PhysicalAddress e))) k1)"

text \<open>The body of \<^verbatim>\<open>MapMemory\<close>'s loop: one page.\<close>

definition MapMemory_page :: "u64 \<Rightarrow> u64 \<Rightarrow> u64 \<Rightarrow> 'a ptm_scheme \<Rightarrow> (unit, 'a ptm_scheme) run" where
  "MapMemory_page Pml4' v p k =
     and_then (GetNextPageLevel Pml4' (GetPageTableIndex v 4) k) (\<lambda>t3 k.
     and_then (GetNextPageLevel t3 (GetPageTableIndex v 3) k) (\<lambda>t2 k.
     and_then (GetNextPageLevel t2 (GetPageTableIndex v 2) k) (\<lambda>t1 k.
       let e = read_pte (mem k) t1 (GetPageTableIndex v 1);
           e = e\<lparr>PhysicalAddress := ucast (drop_bit 12 p), Present := True\<rparr>;
           e = SetupPageTableEntry e
       in Ret () (k\<lparr>CurrentPageTableEntry := e,
                    mem := write_pte (mem k) t1 (GetPageTableIndex v 1) e\<rparr>))))"

partial_function (option) MapMemory_loop ::
  "u64 \<Rightarrow> u64 \<Rightarrow> u64 \<Rightarrow> u64 \<Rightarrow> 'a ptm_scheme \<Rightarrow> (unit, 'a ptm_scheme) run option" where
  "MapMemory_loop Pml4' v p limit k =
     (if p < limit then
        (case MapMemory_page Pml4' v p k of
           Ret _ k' \<Rightarrow> MapMemory_loop Pml4' (v + 4096) (p + 4096) limit k'
         | Halt k' \<Rightarrow> Some (Halt k'))
      else Some (Ret () k))"

definition MapMemory :: "u64 \<Rightarrow> u64 \<Rightarrow> u64 \<Rightarrow> u64 \<Rightarrow> 'a ptm_scheme \<Rightarrow> (unit, 'a ptm_scheme) run option" where
  "MapMemory Pml4' VirtualBasePage PhysicalBasePage Size k =
     MapMemory_loop Pml4' VirtualBasePage PhysicalBasePage (PhysicalBasePage + Size) k"

text \<open>Sequencing after a call that may not return.\<close>

definition then_run :: "('a, 's) run option \<Rightarrow> ('a \<Rightarrow> 's \<Rightarrow> ('b, 's) run option) \<Rightarrow> ('b, 's) run option" where
  "then_run r f = (case r of None \<Rightarrow> None | Some (Halt s) \<Rightarrow> Some (Halt s) | Some (Ret x s) \<Rightarrow> f x s)"

definition CreatePTM :: "'a ptm_scheme \<Rightarrow> (unit, 'a ptm_scheme) run option" where
  "CreatePTM k =
     (case HHDM_Request_response k of
        None \<Rightarrow> Some (Halt k)
      | Some hhdm \<Rightarrow>
          let k = k\<lparr>HHDM_Offset := hhdm_offset hhdm\<rparr> in
          (case KernelAddressRequest_response k of
             None \<Rightarrow> Some (Halt k)
           | Some ka \<Rightarrow>
               let k = k\<lparr>PhysicalKernelStart := physical_base ka, VirtualKernelStart := virtual_base ka\<rparr> in
               then_run (Some (AllocateEmptyPage k)) (\<lambda>root k.
               let k = k\<lparr>Pml4 := root\<rparr>;
                   KernelSize = KernelEnd k - KernelStart k;
                   (full, k) = GetFullSizeOfMemory k
               in then_run (MapMemory (Pml4 k) 0 0 full k) (\<lambda>_ k.
                  then_run (MapMemory (Pml4 k) (VirtualKernelStart k) (PhysicalKernelStart k) KernelSize k) (\<lambda>_ k.
                  let (full, k) = GetFullSizeOfMemory k
                  in then_run (MapMemory (Pml4 k) (HHDM_Offset k) 0 full k) (\<lambda>_ k.
                     Some (Ret () (k\<lparr>cr3 := Pml4 k\<rparr>))))))))"

subsection \<open>The hardware walk\<close>

definition table_of :: "PageTableEntry \<Rightarrow> u64" where
  "table_of e = push_bit 12 (ucast (PhysicalAddress e))"

definition walk_step :: "memory \<Rightarrow> u64 \<Rightarrow> u64 \<Rightarrow> u64 option" where
  "walk_step m t i =
     (let e = read_pte m t i in if Present e \<and> \<not> HugePage e then Some (table_of e) else None)"

fun walk :: "memory \<Rightarrow> u64 \<Rightarrow> u64 list \<Rightarrow> u64 option" where
  "walk m t [] = Some t"
| "walk m t (i # ixs) = (case walk_step m t i of None \<Rightarrow> None | Some t' \<Rightarrow> walk m t' ixs)"

definition table_path :: "u64 \<Rightarrow> u64 list" where
  "table_path v = [GetPageTableIndex v 4, GetPageTableIndex v 3, GetPageTableIndex v 2]"

definition translate :: "memory \<Rightarrow> u64 \<Rightarrow> u64 \<Rightarrow> u64 option" where
  "translate m root v =
     (case walk m root (table_path v) of
        None \<Rightarrow> None
      | Some t1 \<Rightarrow>
          let e = read_pte m t1 (GetPageTableIndex v 1) in
          if Present e then Some (table_of e + (v AND 0xFFF)) else None)"

subsection \<open>Entries\<close>

lemma decode_encode_pte [simp]: "decode_pte (encode_pte e) = e"
proof (rule PageTableEntry.equality)
  show "Available0 (decode_pte (encode_pte e)) = Available0 e"
    by (rule bit_eqI) (auto simp: decode_pte_def encode_pte_def bit_simps dest: bit_imp_le_length)
  show "PhysicalAddress (decode_pte (encode_pte e)) = PhysicalAddress e"
    by (rule bit_eqI) (auto simp: decode_pte_def encode_pte_def bit_simps dest: bit_imp_le_length)
  show "Available1 (decode_pte (encode_pte e)) = Available1 e"
    by (rule bit_eqI) (auto simp: decode_pte_def encode_pte_def bit_simps dest: bit_imp_le_length)
qed (auto simp: decode_pte_def encode_pte_def bit_simps dest: bit_imp_le_length)

lemma encode_decode_pte: "encode_pte (decode_pte w) = w"
proof (rule bit_eqI)
  fix n :: nat
  have "n = 0 \<or> n = 1 \<or> n = 2 \<or> n = 3 \<or> n = 4 \<or> n = 5 \<or> n = 6 \<or> n = 7 \<or> n = 8 \<or>
      (9 \<le> n \<and> n < 12) \<or> (12 \<le> n \<and> n < 52) \<or> (52 \<le> n \<and> n < 63) \<or> n = 63 \<or> 64 \<le> n"
    by arith
  then show "bit (encode_pte (decode_pte w)) n = bit w n"
    by (elim disjE conjE) (auto simp: decode_pte_def encode_pte_def bit_simps dest: bit_imp_le_length)
qed

lemma bit_unat_exp_le: "bit (p :: u64) m \<Longrightarrow> 2 ^ m \<le> unat p"
proof (rule ccontr)
  assume b: "bit p m" and "\<not> 2 ^ m \<le> unat p"
  then have "unat p div 2 ^ m = 0" by simp
  moreover have "bit (unat p) m" using b by (simp add: bit_unsigned_iff)
  ultimately show False by (simp add: bit_iff_odd)
qed

lemma table_of_frame:
  assumes "page_aligned p" and "unat p < 2 ^ 52"
  shows "push_bit 12 (ucast (ucast (drop_bit 12 p) :: 40 word)) = p"
proof (rule bit_eqI)
  fix n
  have hi: "bit p m \<Longrightarrow> m < 52" for m
  proof (rule ccontr)
    assume b: "bit p m" and "\<not> m < 52"
    then have "2 ^ 52 \<le> (2::nat) ^ m" by (intro power_increasing) simp_all
    moreover have "2 ^ m \<le> unat p"
      using b by (rule bit_unat_exp_le)
    ultimately show False using assms(2) by simp
  qed
  have lo: "bit p m \<Longrightarrow> 12 \<le> m" for m
  proof (rule ccontr)
    assume b: "bit p m" and m: "\<not> 12 \<le> m"
    have "take_bit 12 (unat p) = 0" using assms(1) by (simp add: page_aligned_def take_bit_eq_mod)
    then have "\<not> bit (take_bit 12 (unat p)) m" by simp
    then have "\<not> bit (unat p) m" using m by (simp add: bit_take_bit_iff)
    then show False using b by (simp add: bit_unsigned_iff)
  qed
  show "bit (push_bit 12 (ucast (ucast (drop_bit 12 p) :: 40 word)) :: u64) n = bit p n"
    using hi [of n] lo [of n] by (auto simp: bit_simps dest: bit_imp_le_length)
qed

lemma GetPageTableIndex_less: "unat (GetPageTableIndex v l) < 512"
proof -
  have "GetPageTableIndex v l \<le> 0x1FF" unfolding GetPageTableIndex_def by (rule word_and_le1)
  then show ?thesis by (simp add: word_le_nat_alt)
qed

subsection \<open>Where entries lie\<close>

text \<open>A frame that can hold a page table: page aligned and within the 52-bit physical space.\<close>

definition is_frame :: "u64 \<Rightarrow> bool" where
  "is_frame t \<longleftrightarrow> page_aligned t \<and> unat t + 4096 \<le> 2 ^ 52"

lemma pte_address:
  assumes "is_frame t" and "unat i < 512"
  shows "unat (t + i * 8) = unat t + unat i * 8"
proof -
  have m: "unat (i * 8) = unat i * 8" using assms(2) by (simp add: unat_word_ariths)
  show ?thesis using assms unfolding is_frame_def unat_word_ariths(1) m by simp
qed

lemma pte_disjoint:
  assumes "is_frame t" "unat i < 512" "is_frame t'" "unat j < 512" and "t \<noteq> t' \<or> i \<noteq> j"
  shows "disjoint_ranges (t + i * 8) 8 (t' + j * 8) 8"
proof (rule disjoint_ranges_unat)
  note a = pte_address [OF assms(1,2)] pte_address [OF assms(3,4)]
  show "unat (t + i * 8) + 8 \<le> 2 ^ 64" "unat (t' + j * 8) + 8 \<le> 2 ^ 64"
    using assms a by (auto simp: is_frame_def)
  show "unat (t + i * 8) + 8 \<le> unat (t' + j * 8) \<or> unat (t' + j * 8) + 8 \<le> unat (t + i * 8)"
  proof (cases "t = t'")
    case True
    then have "unat i < unat j \<or> unat j < unat i" using assms(5) by (simp add: word_unat_eq_iff nat_neq_iff)
    then show ?thesis unfolding a using True by auto
  next
    case False
    then show ?thesis unfolding a
      using aligned_frames_apart [of t t'] assms(1-4) by (auto simp: is_frame_def)
  qed
qed

lemma pte_in_frame:
  assumes "is_frame t" "unat i < 512" and "offs (t + i * 8) x < 8"
  shows "offs t x < 4096"
  using assms pte_address [OF assms(1,2)] unfolding is_frame_def
  by (subst (asm) offs_range) (auto simp: offs_range)

lemma frames_apart:
  assumes "is_frame t" "is_frame a" "t \<noteq> a" and "offs t x < 4096"
  shows "\<not> offs a x < 4096"
  using assms aligned_frames_apart [of t a] unfolding is_frame_def
  by (auto simp: offs_range)

lemma read_write_pte [simp]: "read_pte (write_pte m t i e) t i = e"
  by (simp add: read_pte_def write_pte_def)

lemma read_write_pte_other:
  "is_frame t \<Longrightarrow> unat i < 512 \<Longrightarrow> is_frame t' \<Longrightarrow> unat j < 512 \<Longrightarrow> t \<noteq> t' \<or> i \<noteq> j \<Longrightarrow>
   read_pte (write_pte m t' j e) t i = read_pte m t i"
  by (simp add: read_pte_def write_pte_def load64_store64_disjoint pte_disjoint)

lemma read_pte_cong:
  assumes "is_frame t" "unat i < 512" and "\<And>x. offs t x < 4096 \<Longrightarrow> m x = m' x"
  shows "read_pte m t i = read_pte m' t i"
  unfolding read_pte_def using assms pte_in_frame [OF assms(1,2)]
  by (metis load64_cong)

lemma write_pte_frame:
  assumes "is_frame t" "unat i < 512" and "\<not> offs t x < 4096"
  shows "write_pte m t i e x = m x"
  using assms pte_in_frame [OF assms(1,2), of x] by (auto simp: write_pte_def store64_apply)

lemma decode_pte_zero: "\<not> Present (decode_pte 0)"
  by (simp add: decode_pte_def)

lemma read_pte_zero_page:
  assumes "is_frame t" "unat i < 512" and "\<And>x. offs t x < 4096 \<Longrightarrow> m x = 0"
  shows "read_pte m t i = decode_pte 0"
  using assms pte_in_frame [OF assms(1,2)] by (simp add: read_pte_def load64_zero)

subsection \<open>The page-table tree\<close>

text \<open>
  \<open>pos\<close> gives each table frame its place in the tree: the list of the indices that lead to
  it from the root. It is a function, so no frame is reached on two paths; that is what makes
  writing one entry a change of one translation. Tables on paths of length 3 hold the leaf
  entries.
\<close>

definition pt_tree :: "(u64 \<rightharpoonup> u64 list) \<Rightarrow> u64 \<Rightarrow> memory \<Rightarrow> bool" where
  "pt_tree pos root m \<longleftrightarrow>
     pos root = Some [] \<and>
     (\<forall>t p. pos t = Some p \<longrightarrow>
        is_frame t \<and> length p \<le> 3 \<and> (\<forall>i\<in>set p. unat i < 512) \<and> walk m root p = Some t \<and>
        (length p < 3 \<longrightarrow>
          (\<forall>i. unat i < 512 \<longrightarrow> \<not> HugePage (read_pte m t i) \<and>
             (Present (read_pte m t i) \<longrightarrow> pos (table_of (read_pte m t i)) = Some (p @ [i])))))"

lemma pt_tree_root: "pt_tree pos root m \<Longrightarrow> pos root = Some []"
  by (simp add: pt_tree_def)

lemma pt_tree_frame: "pt_tree pos root m \<Longrightarrow> pos t = Some p \<Longrightarrow> is_frame t"
  by (auto simp: pt_tree_def)

lemma pt_tree_path:
  "pt_tree pos root m \<Longrightarrow> pos t = Some p \<Longrightarrow>
   length p \<le> 3 \<and> (\<forall>i\<in>set p. unat i < 512) \<and> walk m root p = Some t"
  by (auto simp: pt_tree_def)

lemma pt_tree_entry:
  assumes "pt_tree pos root m" "pos t = Some p" "length p < 3" "unat i < 512"
  shows "\<not> HugePage (read_pte m t i)"
    and "Present (read_pte m t i) \<Longrightarrow> pos (table_of (read_pte m t i)) = Some (p @ [i])"
  using assms unfolding pt_tree_def by blast+

lemma walk_append:
  "walk m t (xs @ ys) = (case walk m t xs of None \<Rightarrow> None | Some u \<Rightarrow> walk m u ys)"
  by (induction xs arbitrary: t) (auto split: option.splits)

lemma pt_tree_step:
  assumes "pt_tree pos root m" "pos t = Some p" "length p < 3" "unat i < 512"
    "walk_step m t i = Some t'"
  shows "pos t' = Some (p @ [i])"
  using assms(5) pt_tree_entry [OF assms(1-4)] by (auto simp: walk_step_def Let_def split: if_splits)

lemma pt_tree_walk:
  assumes "pt_tree pos root m" "pos t = Some p" "length p + length ixs \<le> 3"
    "\<And>i. i \<in> set ixs \<Longrightarrow> unat i < 512" "walk m t ixs = Some t'"
  shows "pos t' = Some (p @ ixs)"
  using assms(2-5)
proof (induction ixs arbitrary: t p)
  case Nil
  then show ?case by simp
next
  case (Cons i ixs)
  from Cons.prems(4) obtain u where u: "walk_step m t i = Some u" "walk m u ixs = Some t'"
    by (auto split: option.splits)
  have "pos u = Some (p @ [i])"
    using pt_tree_step [OF assms(1) Cons.prems(1) _ _ u(1)] Cons.prems by simp
  then show ?case using Cons.IH [of u "p @ [i]"] Cons.prems u(2) by simp
qed

lemma walk_cong:
  assumes "pt_tree pos root m" "pos t = Some p" "length p + length ixs \<le> 3"
    "\<And>i. i \<in> set ixs \<Longrightarrow> unat i < 512"
    "\<And>u q i. pos u = Some q \<Longrightarrow> length q < 3 \<Longrightarrow> unat i < 512 \<Longrightarrow> read_pte m' u i = read_pte m u i"
  shows "walk m' t ixs = walk m t ixs"
  using assms(2-4)
proof (induction ixs arbitrary: t p)
  case Nil
  then show ?case by simp
next
  case (Cons i ixs)
  have i: "unat i < 512" using Cons.prems by simp
  have eq: "walk_step m' t i = walk_step m t i"
    using assms(5) [OF Cons.prems(1) _ i] Cons.prems by (simp add: walk_step_def)
  show ?case
  proof (cases "walk_step m t i")
    case None
    then show ?thesis using eq by simp
  next
    case (Some u)
    then have "pos u = Some (p @ [i])"
      using pt_tree_step [OF assms(1) Cons.prems(1) _ i] Cons.prems by simp
    then show ?thesis using Cons.IH [of u "p @ [i]"] Cons.prems eq Some by simp
  qed
qed

lemma table_path_less: "i \<in> set (table_path v) \<Longrightarrow> unat i < 512"
  using GetPageTableIndex_less by (auto simp: table_path_def)

lemma length_table_path [simp]: "length (table_path v) = 3"
  by (simp add: table_path_def)

text \<open>Adding an empty table below an entry that was not present changes no translation.\<close>

lemma walk_new_table:
  assumes tree: "pt_tree pos root m" and t: "pos t = Some p" "length p < 3" and i: "unat i < 512"
    and np: "\<not> Present (read_pte m t i)"
    and frame: "\<And>u j. pos u \<noteq> None \<Longrightarrow> unat j < 512 \<Longrightarrow> u \<noteq> t \<or> j \<noteq> i \<Longrightarrow> read_pte m' u j = read_pte m u j"
    and new: "\<not> HugePage (read_pte m' t i)" "table_of (read_pte m' t i) = a" "Present (read_pte m' t i)"
    and empty: "\<And>j. unat j < 512 \<Longrightarrow> \<not> Present (read_pte m' a j)"
    and w: "pos u = Some q" "length q + length ixs \<le> 3" "\<And>j. j \<in> set ixs \<Longrightarrow> unat j < 512"
  shows "walk m' u ixs = (if walk m u ixs = None \<and> q @ ixs = p @ [i] then Some a else walk m u ixs)"
  using w
proof (induction ixs arbitrary: u q)
  case Nil
  then show ?case by simp
next
  case (Cons j ixs)
  have j: "unat j < 512" using Cons.prems by simp
  show ?case
  proof (cases "u = t \<and> j = i")
    case True
    then have q: "q = p" using Cons.prems t by simp
    have s': "walk_step m' u j = Some a" using True new by (simp add: walk_step_def)
    have s: "walk_step m u j = None" using True np by (simp add: walk_step_def)
    show ?thesis
    proof (cases ixs)
      case Nil
      then show ?thesis using s s' q True by simp
    next
      case (Cons j' js)
      then have "walk_step m' a j' = None" using Cons.prems empty by (simp add: walk_step_def)
      then show ?thesis using s s' q True Cons by simp
    qed
  next
    case False
    then have eq: "walk_step m' u j = walk_step m u j"
      using frame [of u j] Cons.prems(1) j by (auto simp: walk_step_def)
    show ?thesis
    proof (cases "walk_step m u j")
      case None
      have rq: "walk m root q = Some u" and rp: "walk m root p = Some t"
        using pt_tree_path [OF tree] Cons.prems(1) t(1) by auto
      have "q @ j # ixs \<noteq> p @ [i]"
      proof
        assume e: "q @ j # ixs = p @ [i]"
        show False
        proof (cases ixs rule: rev_cases)
          case Nil
          then have "q = p" "j = i" using e by auto
          then show False using rq rp False by simp
        next
          case (snoc js x)
          then have "p = q @ j # js" using e by simp
          then show False using rp rq None by (simp add: walk_append)
        qed
      qed
      then show ?thesis using eq None by simp
    next
      case (Some u')
      then have "pos u' = Some (q @ [j])"
        using pt_tree_step [OF tree Cons.prems(1) _ j] Cons.prems by simp
      then show ?thesis using Cons.IH [of u' "q @ [j]"] Cons.prems eq Some by simp
    qed
  qed
qed

lemma translate_new_table:
  assumes tree: "pt_tree pos root m" and t: "pos t = Some p" "length p < 3" and i: "unat i < 512"
    and np: "\<not> Present (read_pte m t i)"
    and frame: "\<And>u j. pos u \<noteq> None \<Longrightarrow> unat j < 512 \<Longrightarrow> u \<noteq> t \<or> j \<noteq> i \<Longrightarrow> read_pte m' u j = read_pte m u j"
    and new: "\<not> HugePage (read_pte m' t i)" "table_of (read_pte m' t i) = a" "Present (read_pte m' t i)"
    and empty: "\<And>j. unat j < 512 \<Longrightarrow> \<not> Present (read_pte m' a j)"
  shows "translate m' root v = translate m root v"
proof -
  have w: "walk m' root (table_path v) =
      (if walk m root (table_path v) = None \<and> table_path v = p @ [i] then Some a else walk m root (table_path v))"
    using walk_new_table [OF tree t i np frame new empty pt_tree_root [OF tree], where ixs = "table_path v"]
      table_path_less by simp
  show ?thesis
  proof (cases "walk m root (table_path v)")
    case None
    then show ?thesis using w empty GetPageTableIndex_less [of v 1]
      by (auto simp: translate_def Let_def)
  next
    case (Some t1)
    then have p1: "pos t1 = Some (table_path v)"
      using pt_tree_walk [OF tree pt_tree_root [OF tree] _ _ Some] table_path_less by simp
    then have "t1 \<noteq> t" using t by auto
    then have "read_pte m' t1 (GetPageTableIndex v 1) = read_pte m t1 (GetPageTableIndex v 1)"
      using frame [of t1 "GetPageTableIndex v 1"] p1 GetPageTableIndex_less [of v 1] by auto
    then show ?thesis using w Some by (simp add: translate_def)
  qed
qed

lemma pt_tree_new_table:
  assumes tree: "pt_tree pos root m" and t: "pos t = Some p" "length p < 3" and i: "unat i < 512"
    and np: "\<not> Present (read_pte m t i)"
    and frame: "\<And>u j. pos u \<noteq> None \<Longrightarrow> unat j < 512 \<Longrightarrow> u \<noteq> t \<or> j \<noteq> i \<Longrightarrow> read_pte m' u j = read_pte m u j"
    and new: "\<not> HugePage (read_pte m' t i)" "table_of (read_pte m' t i) = a" "Present (read_pte m' t i)"
    and empty: "\<And>j. unat j < 512 \<Longrightarrow> read_pte m' a j = decode_pte 0"
    and a: "pos a = None" "is_frame a"
  shows "pt_tree (pos(a \<mapsto> p @ [i])) root m'"
proof -
  have empty': "\<And>j. unat j < 512 \<Longrightarrow> \<not> Present (read_pte m' a j)"
    using empty decode_pte_zero by simp
  note W = walk_new_table [OF tree t i np frame new empty' pt_tree_root [OF tree]]
  have pp: "\<forall>j\<in>set p. unat j < 512" using pt_tree_path [OF tree t(1)] by blast
  have root: "(pos(a \<mapsto> p @ [i])) root = Some []"
    using pt_tree_root [OF tree] a by auto
  have "walk m root (p @ [i]) = None"
    using pt_tree_path [OF tree t(1)] np by (simp add: walk_append walk_step_def)
  then have wa: "walk m' root (p @ [i]) = Some a"
    using W [where ixs = "p @ [i]"] t(2) i pp by auto
  have old: "walk m' root q = Some u" if "pos u = Some q" for u q
    using W [where ixs = q] pt_tree_path [OF tree that] by simp
  show ?thesis
    unfolding pt_tree_def
  proof (intro conjI allI impI root)
    fix u q
    assume "(pos(a \<mapsto> p @ [i])) u = Some q"
    then consider (new) "u = a" "q = p @ [i]" | (old) "u \<noteq> a" "pos u = Some q"
      by (auto split: if_splits)
    note cases = this
    from cases show "is_frame u" using a(2) pt_tree_frame [OF tree] by cases auto
    from cases show "length q \<le> 3" using t(2) pt_tree_path [OF tree] by cases auto
    from cases show "\<forall>j\<in>set q. unat j < 512" using i pp pt_tree_path [OF tree] by cases auto
    from cases show "walk m' root q = Some u" using wa old by cases auto
    fix j :: u64
    assume q: "length q < 3" and j: "unat j < 512"
    from cases show "\<not> HugePage (read_pte m' u j)"
    proof cases
      case new
      then show ?thesis using empty [OF j] by (simp add: decode_pte_def)
    next
      case old
      then show ?thesis using frame [of u j] assms(7) pt_tree_entry(1) [OF tree old(2) q j] j
        by (cases "u = t \<and> j = i") auto
    qed
    assume pr: "Present (read_pte m' u j)"
    from cases show "(pos(a \<mapsto> p @ [i])) (table_of (read_pte m' u j)) = Some (q @ [j])"
    proof cases
      case new
      then show ?thesis using empty' [OF j] pr by simp
    next
      case old
      show ?thesis
      proof (cases "u = t \<and> j = i")
        case True
        then show ?thesis using assms(8) old t by simp
      next
        case False
        then have eq: "read_pte m' u j = read_pte m u j" using frame [of u j] old(2) j by auto
        then have "pos (table_of (read_pte m u j)) = Some (q @ [j])"
          using pt_tree_entry(2) [OF tree old(2) q j] pr by simp
        then show ?thesis using eq a(1) by auto
      qed
    qed
  qed
qed

subsection \<open>One level of the walk, with allocation\<close>

text \<open>
  The state the manager works in: a page-table tree below \<open>root\<close>, a memory map as the
  protocol promises it, nothing freed, and every table frame already handed out, so that the
  frames the allocator returns next are not tables.
\<close>

definition vm_inv :: "(u64 \<rightharpoonup> u64 list) \<Rightarrow> u64 \<Rightarrow> 'a ptm_scheme \<Rightarrow> bool" where
  "vm_inv pos root k \<longleftrightarrow>
     pt_tree pos root (mem k) \<and> memmap_wf (entries (MemoryMap k)) \<and> FreeListLength k = 0 \<and>
     (\<forall>t\<in>dom pos. t \<le> LastAddress k)"

text \<open>
  What an operation of the manager leaves alone: it only adds tables, in frames handed out
  since, and memory outside the table frames, and all other fields, stay as they were.
\<close>

definition vm_ext ::
  "(u64 \<rightharpoonup> u64 list) \<Rightarrow> 'a ptm_scheme \<Rightarrow> (u64 \<rightharpoonup> u64 list) \<Rightarrow> 'a ptm_scheme \<Rightarrow> bool" where
  "vm_ext pos k pos' k' \<longleftrightarrow>
     pos \<subseteq>\<^sub>m pos' \<and> (\<forall>t. t \<in> dom pos' \<longrightarrow> t \<notin> dom pos \<longrightarrow> LastAddress k < t) \<and>
     (\<forall>x. (\<forall>t\<in>dom pos'. \<not> offs t x < 4096) \<longrightarrow> mem k' x = mem k x) \<and>
     (\<exists>m l e. k' = k\<lparr>mem := m, LastAddress := l, CurrentPageTableEntry := e\<rparr>) \<and>
     LastAddress k \<le> LastAddress k'"

lemma vm_ext_mem:
  "vm_ext pos k pos' k' \<Longrightarrow> \<forall>t\<in>dom pos'. \<not> offs t x < 4096 \<Longrightarrow> mem k' x = mem k x"
  by (simp add: vm_ext_def)

lemma vm_ext_refl: "vm_ext pos k pos (k\<lparr>CurrentPageTableEntry := e\<rparr>)"
proof -
  have "k\<lparr>CurrentPageTableEntry := e\<rparr> =
      k\<lparr>mem := mem k, LastAddress := LastAddress k, CurrentPageTableEntry := e\<rparr>" by simp
  then have "\<exists>m l e'. k\<lparr>CurrentPageTableEntry := e\<rparr> =
      k\<lparr>mem := m, LastAddress := l, CurrentPageTableEntry := e'\<rparr>" by metis
  then show ?thesis unfolding vm_ext_def by simp
qed

lemma vm_ext_trans:
  assumes "vm_ext pos k pos1 k1" and "vm_ext pos1 k1 pos2 k2"
  shows "vm_ext pos k pos2 k2"
proof -
  have sub: "pos \<subseteq>\<^sub>m pos1" "pos1 \<subseteq>\<^sub>m pos2" using assms by (auto simp: vm_ext_def)
  then have d: "dom pos1 \<subseteq> dom pos2" using map_le_implies_dom_le by blast
  obtain m l e m2 l2 e2 where "k1 = k\<lparr>mem := m, LastAddress := l, CurrentPageTableEntry := e\<rparr>"
    and "k2 = k1\<lparr>mem := m2, LastAddress := l2, CurrentPageTableEntry := e2\<rparr>"
    using assms by (auto simp: vm_ext_def)
  then have "k2 = k\<lparr>mem := m2, LastAddress := l2, CurrentPageTableEntry := e2\<rparr>" by simp
  moreover have "pos \<subseteq>\<^sub>m pos2" using sub map_le_trans by blast
  moreover have "LastAddress k < t" if "t \<in> dom pos2" "t \<notin> dom pos" for t
    using assms that unfolding vm_ext_def by (metis order.strict_trans1)
  moreover have "mem k2 x = mem k x" if x: "\<forall>t\<in>dom pos2. \<not> offs t x < 4096" for x
  proof -
    have "\<forall>t\<in>dom pos1. \<not> offs t x < 4096" using x d by blast
    then show ?thesis using vm_ext_mem [OF assms(1)] vm_ext_mem [OF assms(2) x] by simp
  qed
  moreover have "LastAddress k \<le> LastAddress k2" using assms by (auto simp: vm_ext_def)
  ultimately show ?thesis unfolding vm_ext_def by blast
qed

lemma AllocateEmptyPage_fresh:
  assumes "FreeListLength k = 0" and "fresh_pages k = a # as"
  shows "AllocateEmptyPage k = Ret a (k\<lparr>LastAddress := a, mem := memset (mem k) a 0 4096\<rparr>)"
  using assms by (simp add: AllocateEmptyPage_def AllocatePage_fresh)

lemma fresh_page_frame:
  assumes "memmap_wf (entries (MemoryMap k))" and "fresh_pages k = a # as"
  shows "is_frame a \<and> LastAddress k < a"
proof -
  have "a \<in> set (fresh_pages k)" using assms(2) by simp
  then show ?thesis
    using usable_page_aligned [OF assms(1)] by (auto simp: fresh_pages_def is_frame_def)
qed

lemma GetNextPageLevel_present:
  assumes inv: "vm_inv pos root k" and t: "pos t = Some p" "length p < 3" and i: "unat i < 512"
    and pr: "Present (read_pte (mem k) t i)"
  shows "\<exists>u. GetNextPageLevel t i k = Ret u (k\<lparr>CurrentPageTableEntry := read_pte (mem k) t i\<rparr>) \<and>
             pos u = Some (p @ [i])"
  using pr pt_tree_entry(2) [of pos root "mem k" t p i] inv t i
  by (auto simp: GetNextPageLevel_def vm_inv_def table_of_def Let_def)

lemma GetNextPageLevel_absent:
  assumes inv: "vm_inv pos root k" and t: "pos t = Some p" "length p < 3" and i: "unat i < 512"
    and np: "\<not> Present (read_pte (mem k) t i)" and f: "fresh_pages k = a # as"
  defines "e \<equiv> SetupPageTableEntry (read_pte (mem k) t i\<lparr>PhysicalAddress := ucast (drop_bit 12 a), Present := True\<rparr>)"
  defines "k' \<equiv> k\<lparr>CurrentPageTableEntry := e, LastAddress := a,
                  mem := write_pte (memset (mem k) a 0 4096) t i e\<rparr>"
  shows "GetNextPageLevel t i k = Ret a k'"
    and "vm_inv (pos(a \<mapsto> p @ [i])) root k'"
    and "vm_ext pos k (pos(a \<mapsto> p @ [i])) k'"
    and "translate (mem k') root v = translate (mem k) root v"
    and "fresh_pages k' = as"
proof -
  let ?m' = "mem k'"
  have tree: "pt_tree pos root (mem k)" and wf: "memmap_wf (entries (MemoryMap k))"
    and fl: "FreeListLength k = 0" and below: "\<forall>t\<in>dom pos. t \<le> LastAddress k"
    using inv by (auto simp: vm_inv_def)
  have a: "is_frame a" "LastAddress k < a" using fresh_page_frame [OF wf f] by auto
  then have an: "pos a = None" using below by (auto simp: not_le [symmetric])
  have tf: "is_frame t" using pt_tree_frame [OF tree t(1)] .
  have ta: "t \<noteq> a" using an t by auto
  have fr: "read_pte ?m' u j = read_pte (mem k) u j" if u: "pos u \<noteq> None" and j: "unat j < 512" and n: "u \<noteq> t \<or> j \<noteq> i" for u j
  proof -
    obtain q where q: "pos u = Some q" using u by auto
    have uf: "is_frame u" using pt_tree_frame [OF tree q] .
    have ua: "u \<noteq> a" using an q by auto
    have "read_pte ?m' u j = read_pte (memset (mem k) a 0 4096) u j"
      using n j uf tf i by (simp add: k'_def read_write_pte_other)
    also have "\<dots> = read_pte (mem k) u j"
      using frames_apart [OF uf a(1) ua] by (intro read_pte_cong [OF uf j]) (simp add: memset_apply)
    finally show ?thesis .
  qed
  have ne: "read_pte ?m' t i = e" by (simp add: k'_def)
  have new: "\<not> HugePage (read_pte ?m' t i)" "Present (read_pte ?m' t i)"
    using pt_tree_entry(1) [OF tree t i] unfolding ne e_def by (auto simp: SetupPageTableEntry_def)
  have tab: "table_of (read_pte ?m' t i) = a"
    unfolding ne e_def using a(1) by (simp add: table_of_def SetupPageTableEntry_def is_frame_def table_of_frame)
  have empty: "read_pte ?m' a j = decode_pte 0" if "unat j < 512" for j
  proof (rule read_pte_zero_page [OF a(1) that])
    fix x assume x: "offs a x < 4096"
    then show "mem k' x = 0"
      using write_pte_frame [OF tf i] frames_apart [OF a(1) tf _ x] ta by (auto simp: k'_def memset_apply)
  qed
  then have empty': "\<And>j. unat j < 512 \<Longrightarrow> \<not> Present (read_pte ?m' a j)" using decode_pte_zero by simp
  show "GetNextPageLevel t i k = Ret a k'"
    using np AllocateEmptyPage_fresh [of "k\<lparr>CurrentPageTableEntry := read_pte (mem k) t i\<rparr>" a as] fl f
    by (simp add: GetNextPageLevel_def Let_def k'_def e_def fresh_pages_def)
  show "translate (mem k') root v = translate (mem k) root v"
    by (rule translate_new_table [OF tree t i np fr new(1) tab new(2) empty'])
  have le: "\<forall>t\<in>dom pos. t \<le> a" using below a(2) by (meson less_imp_le order_trans)
  have "pt_tree (pos(a \<mapsto> p @ [i])) root ?m'"
    by (rule pt_tree_new_table [OF tree t i np fr new(1) tab new(2) empty an a(1)])
  then show "vm_inv (pos(a \<mapsto> p @ [i])) root k'"
    using wf fl le by (auto simp: vm_inv_def k'_def)
  have same: "mem k' x = mem k x" if x: "\<forall>u\<in>dom (pos(a \<mapsto> p @ [i])). \<not> offs u x < 4096" for x
  proof -
    have "t \<in> dom pos" using t by auto
    then have "\<not> offs t x < 4096" "\<not> offs a x < 4096" using x by auto
    then show ?thesis using write_pte_frame [OF tf i, of x] by (simp add: k'_def memset_apply)
  qed
  have kk: "k' = k\<lparr>mem := ?m', LastAddress := a, CurrentPageTableEntry := e\<rparr>" by (simp add: k'_def)
  have ex: "\<exists>m l e. k' = k\<lparr>mem := m, LastAddress := l, CurrentPageTableEntry := e\<rparr>"
    using kk by blast
  have la: "LastAddress k' = a" by (simp add: k'_def)
  have ms: "pos \<subseteq>\<^sub>m pos(a \<mapsto> p @ [i])" using an by (auto simp: map_le_def)
  show "vm_ext pos k (pos(a \<mapsto> p @ [i])) k'"
    unfolding vm_ext_def la
  proof (intro conjI ms ex allI impI same)
    show "LastAddress k \<le> a" using a(2) by simp
    fix u assume "u \<in> dom (pos(a \<mapsto> p @ [i]))" "u \<notin> dom pos"
    then have "u = a" by auto
    then show "LastAddress k < u" using a(2) by simp
  qed
  show "fresh_pages k' = as"
    using fresh_pages_advance [OF wf f] by (simp add: k'_def fresh_pages_def)
qed

lemma present_iff_path:
  assumes tree: "pt_tree pos root m" and t: "pos t = Some p" "length p < 3" and i: "unat i < 512"
  shows "Present (read_pte m t i) \<longleftrightarrow> p @ [i] \<in> ran pos"
proof
  assume "Present (read_pte m t i)"
  then show "p @ [i] \<in> ran pos" using pt_tree_entry(2) [OF tree t i] by (auto simp: ran_def)
next
  assume "p @ [i] \<in> ran pos"
  then obtain u where "pos u = Some (p @ [i])" by (auto simp: ran_def)
  then have "walk m root (p @ [i]) = Some u" using pt_tree_path [OF tree] by blast
  then show "Present (read_pte m t i)"
    using pt_tree_path [OF tree t(1)] by (auto simp: walk_append walk_step_def Let_def split: if_splits option.splits)
qed

text \<open>
  The cost of a walk: \<open>N\<close> is a set of table paths that contains those the walk needs. As
  long as the fresh pages cover the paths of \<open>N\<close> that have no table yet, the walk succeeds
  and they still cover the rest afterwards.
\<close>

definition affords :: "u64 list set \<Rightarrow> (u64 \<rightharpoonup> u64 list) \<Rightarrow> 'a pmm_scheme \<Rightarrow> bool" where
  "affords N pos k \<longleftrightarrow> finite N \<and> card (N - ran pos) \<le> length (fresh_pages k)"

lemma GetNextPageLevel_ok:
  assumes inv: "vm_inv pos root k" and t: "pos t = Some p" "length p < 3" and i: "unat i < 512"
    and N: "affords N pos k" "p @ [i] \<in> N"
  obtains u k' pos' where "GetNextPageLevel t i k = Ret u k'" and "vm_inv pos' root k'"
    and "vm_ext pos k pos' k'" and "pos' u = Some (p @ [i])"
    and "\<And>v. translate (mem k') root v = translate (mem k) root v"
    and "affords N pos' k'"
proof (cases "Present (read_pte (mem k) t i)")
  case True
  let ?k = "k\<lparr>CurrentPageTableEntry := read_pte (mem k) t i\<rparr>"
  have "vm_inv pos root ?k" "affords N pos ?k"
    using inv N by (simp_all add: vm_inv_def affords_def fresh_pages_def)
  then show ?thesis
    using GetNextPageLevel_present [OF inv t i True] vm_ext_refl [of pos k] that [of _ ?k pos] by auto
next
  case False
  have tree: "pt_tree pos root (mem k)" and wf: "memmap_wf (entries (MemoryMap k))"
    and below: "\<forall>t\<in>dom pos. t \<le> LastAddress k" using inv by (auto simp: vm_inv_def)
  have new: "p @ [i] \<in> N - ran pos" using False present_iff_path [OF tree t i] N by blast
  then have "card (N - ran pos) \<noteq> 0" using N by (auto simp: affords_def)
  then obtain a as where f: "fresh_pages k = a # as"
    using N by (cases "fresh_pages k") (auto simp: affords_def)
  have "pos a = None"
    using below fresh_page_frame [OF wf f] by (auto simp: not_le [symmetric])
  then have "N - ran (pos(a \<mapsto> p @ [i])) = (N - ran pos) - {p @ [i]}" by (auto simp: ran_map_upd)
  moreover have "card ((N - ran pos) - {p @ [i]}) = card (N - ran pos) - 1"
    using new by (rule card_Diff_singleton)
  moreover have "card (N - ran pos) \<le> Suc (length as)" using N(1) f by (simp add: affords_def)
  ultimately have "card (N - ran (pos(a \<mapsto> p @ [i]))) \<le> length as" by simp
  note A = GetNextPageLevel_absent [OF inv t i False f] and fin = this
  show ?thesis
  proof (rule that [OF A(1,2,3) _ A(4)])
    show "affords N (pos(a \<mapsto> p @ [i])) (k\<lparr>CurrentPageTableEntry :=
        SetupPageTableEntry (read_pte (mem k) t i\<lparr>PhysicalAddress := ucast (drop_bit 12 a), Present := True\<rparr>),
        LastAddress := a, mem := write_pte (memset (mem k) a 0 4096) t i
          (SetupPageTableEntry (read_pte (mem k) t i\<lparr>PhysicalAddress := ucast (drop_bit 12 a), Present := True\<rparr>))\<rparr>)"
      using fin N unfolding affords_def A(5) by simp
  qed simp
qed

subsection \<open>Mapping one page\<close>

definition same_page :: "u64 \<Rightarrow> u64 \<Rightarrow> bool" where
  "same_page v v' \<longleftrightarrow>
     table_path v = table_path v' \<and> GetPageTableIndex v 1 = GetPageTableIndex v' 1"

lemma leaf_write:
  fixes e :: PageTableEntry
  assumes tree: "pt_tree pos root m" and t1: "pos t1 = Some (table_path v)"
  defines "m' \<equiv> write_pte m t1 (GetPageTableIndex v 1) e"
  shows "pt_tree pos root m'"
    and "translate m' root v' =
           (if same_page v' v then (if Present e then Some (table_of e + (v' AND 0xFFF)) else None)
            else translate m root v')"
proof -
  have i: "unat (GetPageTableIndex v 1) < 512" by (rule GetPageTableIndex_less)
  have f1: "is_frame t1" using pt_tree_frame [OF tree t1] .
  have same: "read_pte m' u j = read_pte m u j"
    if "pos u = Some q" "length q < 3" "unat j < 512" for u q j
    using that t1 f1 i pt_tree_frame [OF tree that(1)]
    by (auto simp: m'_def intro!: read_write_pte_other)
  have w: "walk m' root ixs = walk m root ixs"
    if "length ixs \<le> 3" "\<And>i. i \<in> set ixs \<Longrightarrow> unat i < 512" for ixs
    using walk_cong [OF tree pt_tree_root [OF tree] _ _ same] that by simp
  show "pt_tree pos root m'"
    unfolding pt_tree_def
  proof (intro conjI allI impI pt_tree_root [OF tree])
    fix u q
    assume q: "pos u = Some q"
    show "is_frame u" using pt_tree_frame [OF tree q] .
    show "length q \<le> 3" "\<forall>i\<in>set q. unat i < 512" using pt_tree_path [OF tree q] by auto
    then show "walk m' root q = Some u" using w [of q] pt_tree_path [OF tree q] by simp
    fix j :: u64
    assume q3: "length q < 3" and j: "unat j < 512"
    show "\<not> HugePage (read_pte m' u j)" using same [OF q q3 j] pt_tree_entry(1) [OF tree q q3 j] by simp
    assume "Present (read_pte m' u j)"
    then show "pos (table_of (read_pte m' u j)) = Some (q @ [j])"
      using same [OF q q3 j] pt_tree_entry(2) [OF tree q q3 j] by simp
  qed
  have wv: "walk m' root (table_path v') = walk m root (table_path v')"
    using w [of "table_path v'"] table_path_less by simp
  show "translate m' root v' =
           (if same_page v' v then (if Present e then Some (table_of e + (v' AND 0xFFF)) else None)
            else translate m root v')"
  proof (cases "walk m root (table_path v')")
    case None
    have "\<not> same_page v' v"
      using None pt_tree_path [OF tree t1] by (auto simp: same_page_def)
    then show ?thesis using None wv by (simp add: translate_def)
  next
    case (Some u)
    then have u: "pos u = Some (table_path v')"
      using pt_tree_walk [OF tree pt_tree_root [OF tree] _ _ Some] table_path_less by simp
    show ?thesis
    proof (cases "same_page v' v")
      case True
      then have "u = t1" using Some pt_tree_path [OF tree t1] by (simp add: same_page_def)
      then show ?thesis using True Some wv by (simp add: translate_def m'_def same_page_def Let_def)
    next
      case False
      then have "u \<noteq> t1 \<or> GetPageTableIndex v' 1 \<noteq> GetPageTableIndex v 1"
        using u t1 by (auto simp: same_page_def)
      then have "read_pte m' u (GetPageTableIndex v' 1) = read_pte m u (GetPageTableIndex v' 1)"
        unfolding m'_def using pt_tree_frame [OF tree u] f1 i GetPageTableIndex_less
        by (intro read_write_pte_other) auto
      then show ?thesis using False Some wv by (simp add: translate_def)
    qed
  qed
qed

text \<open>The paths of the three tables below the root that lead to the page of \<open>v\<close>.\<close>

definition prefix_paths :: "u64 \<Rightarrow> u64 list set" where
  "prefix_paths v = {take 1 (table_path v), take 2 (table_path v), table_path v}"

lemma MapMemory_page_ok:
  assumes inv: "vm_inv pos root k" and N: "affords N pos k" "prefix_paths v \<subseteq> N"
    and p: "page_aligned p" "unat p < 2 ^ 52"
  obtains k' pos' where "MapMemory_page root v p k = Ret () k'" and "vm_inv pos' root k'"
    and "vm_ext pos k pos' k'" and "affords N pos' k'"
    and "\<And>v'. translate (mem k') root v' =
           (if same_page v' v then Some (p + (v' AND 0xFFF)) else translate (mem k) root v')"
proof -
  have r: "pos root = Some []" using inv by (auto simp: vm_inv_def pt_tree_def)
  have path: "[GetPageTableIndex v 4] \<in> N" "[GetPageTableIndex v 4, GetPageTableIndex v 3] \<in> N"
    "[GetPageTableIndex v 4, GetPageTableIndex v 3, GetPageTableIndex v 2] \<in> N"
    using N(2) by (auto simp: prefix_paths_def table_path_def)
  obtain t3 k3 pos3 where a: "GetNextPageLevel root (GetPageTableIndex v 4) k = Ret t3 k3"
    "vm_inv pos3 root k3" "vm_ext pos k pos3 k3" "pos3 t3 = Some ([] @ [GetPageTableIndex v 4])"
    "\<And>v. translate (mem k3) root v = translate (mem k) root v"
    "affords N pos3 k3"
    by (rule GetNextPageLevel_ok [OF inv r _ GetPageTableIndex_less N(1)]) (use path in auto)
  obtain t2 k2 pos2 where b: "GetNextPageLevel t3 (GetPageTableIndex v 3) k3 = Ret t2 k2"
    "vm_inv pos2 root k2" "vm_ext pos3 k3 pos2 k2"
    "pos2 t2 = Some (([] @ [GetPageTableIndex v 4]) @ [GetPageTableIndex v 3])"
    "\<And>v. translate (mem k2) root v = translate (mem k3) root v"
    "affords N pos2 k2"
    by (rule GetNextPageLevel_ok [OF a(2,4) _ GetPageTableIndex_less a(6)]) (use path in auto)
  obtain t1 k1 pos1 where c: "GetNextPageLevel t2 (GetPageTableIndex v 2) k2 = Ret t1 k1"
    "vm_inv pos1 root k1" "vm_ext pos2 k2 pos1 k1"
    "pos1 t1 = Some ((([] @ [GetPageTableIndex v 4]) @ [GetPageTableIndex v 3]) @ [GetPageTableIndex v 2])"
    "\<And>v. translate (mem k1) root v = translate (mem k2) root v"
    "affords N pos1 k1"
    by (rule GetNextPageLevel_ok [OF b(2,4) _ GetPageTableIndex_less b(6)]) (use path in auto)
  define e where "e = SetupPageTableEntry (read_pte (mem k1) t1 (GetPageTableIndex v 1)
      \<lparr>PhysicalAddress := ucast (drop_bit 12 p), Present := True\<rparr>)"
  define k' where "k' = k1\<lparr>CurrentPageTableEntry := e, mem := write_pte (mem k1) t1 (GetPageTableIndex v 1) e\<rparr>"
  have t1: "pos1 t1 = Some (table_path v)" using c(4) by (simp add: table_path_def)
  have tree1: "pt_tree pos1 root (mem k1)" using c(2) by (simp add: vm_inv_def)
  note L = leaf_write [OF tree1 t1, of e]
  have run: "MapMemory_page root v p k = Ret () k'"
    by (simp add: MapMemory_page_def a(1) b(1) c(1) Let_def k'_def e_def)
  have inv': "vm_inv pos1 root k'" using L(1) c(2) by (simp add: vm_inv_def k'_def)
  have "vm_ext pos1 k1 pos1 k'"
  proof -
    have "k' = k1\<lparr>mem := mem k', LastAddress := LastAddress k1, CurrentPageTableEntry := e\<rparr>"
      by (simp add: k'_def)
    then have ex: "\<exists>m l e. k' = k1\<lparr>mem := m, LastAddress := l, CurrentPageTableEntry := e\<rparr>" by metis
    have "mem k' x = mem k1 x" if "\<forall>t\<in>dom pos1. \<not> offs t x < 4096" for x
      using that t1 pt_tree_frame [OF tree1 t1] GetPageTableIndex_less
      by (auto simp: k'_def intro!: write_pte_frame)
    then show ?thesis using ex by (simp add: vm_ext_def k'_def)
  qed
  then have ext: "vm_ext pos k pos1 k'" using a(3) b(3) c(3) vm_ext_trans by blast
  have aff: "affords N pos1 k'" using c(6) by (simp add: k'_def affords_def fresh_pages_def)
  have "Present e" "table_of e = p"
    using p by (simp_all add: e_def SetupPageTableEntry_def table_of_def table_of_frame)
  then have "translate (mem k') root v' =
      (if same_page v' v then Some (p + (v' AND 0xFFF)) else translate (mem k) root v')" for v'
    using L(2) [of v'] a(5) b(5) c(5) by (simp add: k'_def)
  then show ?thesis
    using that [OF run inv' ext aff] by simp
qed

subsection \<open>Mapping a range\<close>

text \<open>The number of the page of an address within the 48 bits that the walk uses.\<close>

definition vpn :: "u64 \<Rightarrow> 36 word" where
  "vpn v = ucast (drop_bit 12 v)"

definition page_dist :: "u64 \<Rightarrow> u64 \<Rightarrow> nat" where
  "page_dist v v' = unat (vpn v' - vpn v)"

lemma bit_GetPageTableIndex:
  assumes "l = 1 \<or> l = 2 \<or> l = 3 \<or> l = 4"
  shows "bit (GetPageTableIndex v l) n \<longleftrightarrow> n < 9 \<and> bit v (3 + 9 * unat l + n)"
proof -
  have m: "(0x1FF :: u64) = mask 9" by (simp add: mask_eq_exp_minus_1)
  have s: "unat (3 + 9 * l) = 3 + 9 * unat l" using assms by auto
  have "bit (mask 9 :: u64) n \<longleftrightarrow> n < 9" by (auto simp: bit_mask_iff)
  then show ?thesis
    unfolding GetPageTableIndex_def m s bit_and_iff by (simp add: bit_drop_bit_eq conj_commute)
qed

lemma bit_vpn: "bit (vpn v) n \<longleftrightarrow> n < 36 \<and> bit v (12 + n)"
  by (simp add: vpn_def bit_ucast_iff bit_drop_bit_eq)

lemma GetPageTableIndex_eq_iff:
  assumes "l = 1 \<or> l = 2 \<or> l = 3 \<or> l = 4"
  shows "GetPageTableIndex v l = GetPageTableIndex v' l \<longleftrightarrow>
           (\<forall>n<9. bit v (3 + 9 * unat l + n) = bit v' (3 + 9 * unat l + n))"
proof
  assume eq: "GetPageTableIndex v l = GetPageTableIndex v' l"
  show "\<forall>n<9. bit v (3 + 9 * unat l + n) = bit v' (3 + 9 * unat l + n)"
  proof (intro allI impI)
    fix n :: nat
    assume "n < 9"
    then show "bit v (3 + 9 * unat l + n) = bit v' (3 + 9 * unat l + n)"
      using bit_GetPageTableIndex [OF assms, of v n] bit_GetPageTableIndex [OF assms, of v' n] eq by simp
  qed
next
  assume "\<forall>n<9. bit v (3 + 9 * unat l + n) = bit v' (3 + 9 * unat l + n)"
  then show "GetPageTableIndex v l = GetPageTableIndex v' l"
    by (intro bit_eqI) (auto simp: bit_GetPageTableIndex [OF assms])
qed

lemma vpn_eq_iff: "vpn v = vpn v' \<longleftrightarrow> (\<forall>n<36. bit v (12 + n) = bit v' (12 + n))"
proof
  assume eq: "vpn v = vpn v'"
  show "\<forall>n<36. bit v (12 + n) = bit v' (12 + n)"
  proof (intro allI impI)
    fix n :: nat
    assume "n < 36"
    then show "bit v (12 + n) = bit v' (12 + n)" using bit_vpn [of v n] bit_vpn [of v' n] eq by simp
  qed
next
  assume "\<forall>n<36. bit v (12 + n) = bit v' (12 + n)"
  then show "vpn v = vpn v'" by (intro bit_eqI) (auto simp: bit_vpn)
qed

lemma all_less_36:
  "(\<forall>n<36. Q n) \<longleftrightarrow> (\<forall>n<9. Q n) \<and> (\<forall>n<9. Q (9 + n)) \<and> (\<forall>n<9. Q (18 + n)) \<and> (\<forall>n<9. Q (27 + n :: nat))"
proof
  assume r: "(\<forall>n<9. Q n) \<and> (\<forall>n<9. Q (9 + n)) \<and> (\<forall>n<9. Q (18 + n)) \<and> (\<forall>n<9. Q (27 + n))"
  show "\<forall>n<36. Q n"
  proof (intro allI impI)
    fix n :: nat assume "n < 36"
    then have "n < 9 \<or> (\<exists>j<9. n = 9 + j) \<or> (\<exists>j<9. n = 18 + j) \<or> (\<exists>j<9. n = 27 + j)"
      by presburger
    then show "Q n" using r by blast
  qed
qed auto

lemma same_page_vpn: "same_page v v' \<longleftrightarrow> vpn v = vpn v'"
  unfolding same_page_def table_path_def vpn_eq_iff all_less_36
  by (auto simp: GetPageTableIndex_eq_iff)

lemma unat_vpn: "unat (vpn v) = unat v div 4096 mod 2 ^ 36"
  unfolding vpn_def unsigned_ucast_eq unsigned_drop_bit_eq
  by (simp add: take_bit_eq_mod drop_bit_eq_div)

lemma vpn_next: "vpn (v + 4096) = vpn v + 1"
proof -
  have "(unat v + 4096) div 4096 = unat v div 4096 + 1" by simp
  then have "unat (v + 4096) div 4096 = (unat v div 4096 + 1) mod 2 ^ 52"
    using drop_bit_take_bit [of 12 64 "unat v + 4096"]
    by (simp add: unat_word_ariths take_bit_eq_mod drop_bit_eq_div)
  then have "unat (vpn (v + 4096)) = (unat v div 4096 + 1) mod 2 ^ 36"
    by (simp add: unat_vpn mod_mod_cancel)
  also have "\<dots> = unat (vpn v + 1)" by (simp add: unat_vpn unat_word_ariths mod_Suc_eq)
  finally show ?thesis by (simp add: word_unat_eq_iff)
qed

lemma page_dist_step:
  assumes "vpn v' \<noteq> vpn v"
  shows "page_dist v v' = Suc (page_dist (v + 4096) v')"
proof -
  have "vpn v' - vpn v \<noteq> 0" using assms by simp
  then have "unat (vpn v' - vpn v - 1) = unat (vpn v' - vpn v) - 1" "0 < unat (vpn v' - vpn v)"
    by (simp_all add: unat_minus_one unat_gt_0)
  then show ?thesis by (simp add: page_dist_def vpn_next algebra_simps)
qed

lemma page_dist_self: "vpn v' = vpn v \<Longrightarrow> page_dist v v' = 0 \<and> page_dist (v + 4096) v' = 2 ^ 36 - 1"
  by (simp add: page_dist_def vpn_next unsigned_minus_1_eq_mask mask_eq_exp_minus_1)

definition range_paths :: "u64 \<Rightarrow> nat \<Rightarrow> u64 list set" where
  "range_paths v n = (\<Union>j<n. prefix_paths (v + word_of_nat j * 4096))"

lemma range_paths_Suc: "range_paths v (Suc n) = prefix_paths v \<union> range_paths (v + 4096) n"
proof -
  have "{..<Suc n} = insert 0 (Suc ` {..<n})" by (auto simp: lessThan_Suc_eq_insert_0)
  then show ?thesis unfolding range_paths_def by (simp add: image_image algebra_simps)
qed

text \<open>How many times the loop runs for a size, when the range does not wrap.\<close>

definition page_count :: "u64 \<Rightarrow> nat" where
  "page_count Size = (unat Size + 4095) div 4096"

lemma MapMemory_loop_ok:
  assumes "vm_inv pos root k" "affords N pos k" "range_paths v n \<subseteq> N"
    "page_aligned p" "unat p + 4096 * n \<le> 2 ^ 52" "n \<le> 2 ^ 36"
    "unat limit \<le> unat p + 4096 * n" "unat p + 4096 * n < unat limit + 4096"
  shows "\<exists>k' pos'. MapMemory_loop root v p limit k = Some (Ret () k') \<and> vm_inv pos' root k' \<and>
           vm_ext pos k pos' k' \<and> affords N pos' k' \<and>
           (\<forall>v'. translate (mem k') root v' =
              (if page_dist v v' < n then Some (p + word_of_nat (page_dist v v') * 4096 + (v' AND 0xFFF))
               else translate (mem k) root v'))"
  using assms
proof (induction n arbitrary: pos k v p)
  case 0
  then have "\<not> p < limit" by (simp add: word_less_nat_alt)
  moreover have "vm_ext pos k pos k" using vm_ext_refl [of pos k "CurrentPageTableEntry k"] by simp
  ultimately show ?case using 0 by (subst MapMemory_loop.simps) auto
next
  case (Suc n)
  have lt: "p < limit" using Suc.prems(8) by (simp add: word_less_nat_alt)
  have sub: "prefix_paths v \<subseteq> N" "range_paths (v + 4096) n \<subseteq> N"
    using Suc.prems(3) by (auto simp: range_paths_Suc)
  obtain k1 pos1 where one: "MapMemory_page root v p k = Ret () k1" "vm_inv pos1 root k1"
    "vm_ext pos k pos1 k1" "affords N pos1 k1"
    "\<And>v'. translate (mem k1) root v' =
       (if same_page v' v then Some (p + (v' AND 0xFFF)) else translate (mem k) root v')"
    by (rule MapMemory_page_ok [OF Suc.prems(1,2) sub(1) Suc.prems(4)]) (use Suc.prems(5) in auto)
  have up: "unat (p + 4096) = unat p + 4096" using Suc.prems(5) by (simp add: unat_word_ariths)
  then have al: "page_aligned (p + 4096)" using Suc.prems(4) by (simp add: page_aligned_def)
  obtain k' pos' where rest: "MapMemory_loop root (v + 4096) (p + 4096) limit k1 = Some (Ret () k')"
    "vm_inv pos' root k'" "vm_ext pos1 k1 pos' k'" "affords N pos' k'"
    "\<And>v'. translate (mem k') root v' =
       (if page_dist (v + 4096) v' < n
        then Some (p + 4096 + word_of_nat (page_dist (v + 4096) v') * 4096 + (v' AND 0xFFF))
        else translate (mem k1) root v')"
    using Suc.IH [OF one(2,4) sub(2) al] Suc.prems(5-8) up by auto
  have "translate (mem k') root v' =
      (if page_dist v v' < Suc n then Some (p + word_of_nat (page_dist v v') * 4096 + (v' AND 0xFFF))
       else translate (mem k) root v')" for v'
  proof (cases "vpn v' = vpn v")
    case True
    then show ?thesis using page_dist_self [OF True] rest(5) [of v'] one(5) [of v'] Suc.prems(6)
      by (simp add: same_page_vpn)
  next
    case False
    then show ?thesis using page_dist_step [OF False] rest(5) [of v'] one(5) [of v']
      by (simp add: same_page_vpn algebra_simps)
  qed
  moreover have "MapMemory_loop root v p limit k = Some (Ret () k')"
    using lt one(1) rest(1) by (subst MapMemory_loop.simps) simp
  ultimately show ?case using rest(2,4) vm_ext_trans [OF one(3) rest(3)] by blast
qed

lemma MapMemory_loop_stops:
  fixes k :: "'a ptm_scheme"
  assumes "unat limit + 4096 \<le> 2 ^ 64" and "unat limit \<le> unat p + 4096 * n"
  shows "MapMemory_loop root v p limit k \<noteq> None"
  using assms(2)
proof (induction n arbitrary: v p k)
  case 0
  then have "\<not> p < limit" by (simp add: word_less_nat_alt)
  then show ?case by (subst MapMemory_loop.simps) simp
next
  case (Suc n)
  show ?case
  proof (cases "p < limit")
    case False
    then show ?thesis by (subst MapMemory_loop.simps) simp
  next
    case True
    then have "unat (p + 4096) = unat p + 4096"
      using assms(1) by (simp add: unat_word_ariths word_less_nat_alt)
    then have "MapMemory_loop root (v + 4096) (p + 4096) limit k' \<noteq> None" for k' :: "'a ptm_scheme"
      using Suc.IH [of "p + 4096" "v + 4096" k'] Suc.prems by simp
    then show ?thesis using True by (subst MapMemory_loop.simps) (simp split: run.split)
  qed
qed

subsection \<open>Aligned bases\<close>

lemma unat_and_FFF: "unat (x AND 0xFFF :: u64) = unat x mod 4096"
proof -
  have "(0xFFF :: u64) = mask 12" by (simp add: mask_eq_exp_minus_1)
  then have x: "x AND 0xFFF = take_bit 12 x" by (simp only: take_bit_eq_mask)
  show ?thesis unfolding x unsigned_take_bit_eq by (simp add: take_bit_eq_mod)
qed

lemma unat_add_mod: "unat (b + x :: u64) mod 4096 = (unat b + unat x) mod 4096"
  by (simp add: unat_word_ariths mod_mod_cancel)

lemma aligned_offset: "page_aligned b \<Longrightarrow> (b + x) AND 0xFFF = x AND 0xFFF"
  unfolding word_unat_eq_iff unat_and_FFF unat_add_mod
  by (simp add: page_aligned_def mod_add_left_eq [symmetric])

lemma frame_plus_offset:
  "word_of_nat (unat x div 4096) * 4096 + (x AND 0xFFF) = (x :: u64)"
proof -
  have "x AND 0xFFF = word_of_nat (unat x mod 4096)"
    unfolding unat_and_FFF [symmetric] by simp
  then have "word_of_nat (unat x div 4096) * 4096 + (x AND 0xFFF)
      = (word_of_nat (unat x div 4096 * 4096 + unat x mod 4096) :: u64)"
    by (simp only: of_nat_add of_nat_mult of_nat_numeral)
  also have "\<dots> = x" by (simp only: div_mult_mod_eq) simp
  finally show ?thesis .
qed

lemma page_dist_aligned:
  assumes "page_aligned b" and "unat x < 2 ^ 48"
  shows "page_dist b (b + x) = unat x div 4096"
proof -
  let ?B = "unat b div 4096" and ?X = "unat x div 4096"
  have "unat b = 4096 * ?B" using assms(1) by (auto simp: page_aligned_def)
  then have "(unat b + unat x) div 4096 = ?B + ?X" by (metis div_mult_self4 zero_neq_numeral)
  then have "unat (b + x) div 4096 = (?B + ?X) mod 2 ^ 52"
    using drop_bit_take_bit [of 12 64 "unat b + unat x"]
    by (simp add: unat_word_ariths take_bit_eq_mod drop_bit_eq_div)
  then have v: "unat (vpn (b + x)) = (?B + ?X) mod 2 ^ 36" by (simp add: unat_vpn mod_mod_cancel)
  have "vpn (b + x) = vpn b + word_of_nat ?X"
    unfolding word_unat_eq_iff v by (simp add: unat_word_ariths unat_vpn unat_of_nat mod_add_eq)
  then have "page_dist b (b + x) = unat (word_of_nat ?X :: 36 word)" by (simp add: page_dist_def)
  also have "\<dots> = ?X" using assms(2) by (simp add: unat_of_nat)
  finally show ?thesis .
qed

lemma new_root:
  assumes "memmap_wf (entries (MemoryMap k))" "FreeListLength k = 0" "fresh_pages k = a # as"
  shows "AllocateEmptyPage k = Ret a (k\<lparr>LastAddress := a, mem := memset (mem k) a 0 4096\<rparr>)"
    and "vm_inv [a \<mapsto> []] a (k\<lparr>LastAddress := a, mem := memset (mem k) a 0 4096, Pml4 := r\<rparr>)"
    and "fresh_pages (k\<lparr>LastAddress := a, mem := memset (mem k) a 0 4096, Pml4 := r\<rparr>) = as"
proof -
  show "AllocateEmptyPage k = Ret a (k\<lparr>LastAddress := a, mem := memset (mem k) a 0 4096\<rparr>)"
    using AllocateEmptyPage_fresh assms by blast
  have a: "is_frame a" using fresh_page_frame [OF assms(1,3)] by blast
  have "read_pte (memset (mem k) a 0 4096) a i = decode_pte 0" if "unat i < 512" for i
    using a that by (intro read_pte_zero_page) (auto simp: memset_apply)
  then have "pt_tree [a \<mapsto> []] a (memset (mem k) a 0 4096)"
    using a by (simp add: pt_tree_def decode_pte_def)
  then show "vm_inv [a \<mapsto> []] a (k\<lparr>LastAddress := a, mem := memset (mem k) a 0 4096, Pml4 := r\<rparr>)"
    using assms by (simp add: vm_inv_def)
  show "fresh_pages (k\<lparr>LastAddress := a, mem := memset (mem k) a 0 4096, Pml4 := r\<rparr>) = as"
    using fresh_pages_advance [OF assms(1,3)] by (simp add: fresh_pages_def)
qed

lemma vm_ext_fields:
  assumes "vm_ext pos k pos' k'"
  shows "Pml4 k' = Pml4 k" "HHDM_Offset k' = HHDM_Offset k" "VirtualKernelStart k' = VirtualKernelStart k"
    "PhysicalKernelStart k' = PhysicalKernelStart k" "FullSizeOfMemory k' = FullSizeOfMemory k"
    "MemoryMap k' = MemoryMap k" "KernelStart k' = KernelStart k" "KernelEnd k' = KernelEnd k"
  using assms by (auto simp: vm_ext_def)

lemma MapMemory_ok:
  assumes "vm_inv pos root k" "affords N pos k" "range_paths v (page_count Size) \<subseteq> N"
    "page_aligned p" "unat p + unat Size + 4096 \<le> 2 ^ 52" "unat Size \<le> 2 ^ 48"
  shows "\<exists>k' pos'. MapMemory root v p Size k = Some (Ret () k') \<and> vm_inv pos' root k' \<and>
           vm_ext pos k pos' k' \<and> affords N pos' k' \<and>
           (\<forall>v'. translate (mem k') root v' =
              (if page_dist v v' < page_count Size
               then Some (p + word_of_nat (page_dist v v') * 4096 + (v' AND 0xFFF))
               else translate (mem k) root v'))"
proof -
  have lim: "unat (p + Size) = unat p + unat Size" using assms(5) by (simp add: unat_word_ariths)
  have c: "unat Size \<le> 4096 * page_count Size" "4096 * page_count Size < unat Size + 4096"
    unfolding page_count_def by linarith+
  show ?thesis
    unfolding MapMemory_def
    using assms c lim by (intro MapMemory_loop_ok) auto
qed

subsection \<open>Building the kernel's address space\<close>

text \<open>Two ranges of \<open>n\<close> and \<open>m\<close> pages on the circle of page numbers have no page in common.\<close>

definition disjoint_pages :: "u64 \<Rightarrow> nat \<Rightarrow> u64 \<Rightarrow> nat \<Rightarrow> bool" where
  "disjoint_pages v n w m \<longleftrightarrow> n \<le> page_dist v w \<and> m \<le> page_dist w v"

lemma page_dist_cases:
  "page_dist v w = (if unat (vpn v) \<le> unat (vpn w) then unat (vpn w) - unat (vpn v)
     else unat (vpn w) + 2 ^ 36 - unat (vpn v))"
  unfolding page_dist_def unat_sub_if_size by (simp add: word_size)

lemma disjoint_pagesD:
  assumes "disjoint_pages v n w m" "page_dist v x < n"
  shows "\<not> page_dist w x < m"
proof -
  have "unat (vpn v) < 2 ^ 36" "unat (vpn w) < 2 ^ 36" "unat (vpn x) < 2 ^ 36"
    by (simp_all add: unat_vpn)
  then show ?thesis
    using assms unfolding disjoint_pages_def page_dist_cases by (auto split: if_splits)
qed

lemma affords_extend: "affords N pos k \<Longrightarrow> fresh_pages k' = fresh_pages k \<Longrightarrow> affords N pos k'"
  by (simp add: affords_def)

lemma page_count_cover: "unat x < unat Size \<Longrightarrow> unat x div 4096 < page_count Size"
  unfolding page_count_def by linarith

definition full_size :: "'a ptm_scheme \<Rightarrow> u64" where
  "full_size k =
     (if FullSizeOfMemory k > 0 then FullSizeOfMemory k
      else GetFullSizeOfMemory_loop (entries (MemoryMap k)) 0)"

lemma GetFullSizeOfMemory_eq:
  "GetFullSizeOfMemory k = (full_size k, k\<lparr>FullSizeOfMemory := full_size k\<rparr>)"
proof (cases "FullSizeOfMemory k = 0")
  case True
  then show ?thesis unfolding GetFullSizeOfMemory_def full_size_def Let_def by simp
next
  case False
  then have pos: "FullSizeOfMemory k > 0" by (simp add: word_gt_0)
  have keep: "k\<lparr>FullSizeOfMemory := FullSizeOfMemory k\<rparr> = k" by simp
  show ?thesis unfolding GetFullSizeOfMemory_def full_size_def if_P [OF pos] keep ..
qed

lemma full_size_again:
  assumes "MemoryMap k' = MemoryMap k" and "FullSizeOfMemory k' = full_size k"
  shows "full_size k' = full_size k"
proof (cases "full_size k = 0")
  case True
  have "\<not> FullSizeOfMemory k > 0"
  proof
    assume pos: "FullSizeOfMemory k > 0"
    then have "full_size k = FullSizeOfMemory k" unfolding full_size_def by (rule if_P)
    then show False using pos True by simp
  qed
  then have "GetFullSizeOfMemory_loop (entries (MemoryMap k)) 0 = 0"
    using True unfolding full_size_def by (simp only: if_False)
  then show ?thesis unfolding full_size_def [of k'] using assms True by simp
next
  case False
  then have "FullSizeOfMemory k' > 0" using assms(2) by (simp add: word_gt_0)
  then show ?thesis unfolding full_size_def [of k'] using assms(2) by simp
qed

end
