(* ===== verification/AddressSpace.thy ===== *)
theory AddressSpace
  imports Ptm
begin

text \<open>
  What \<^verbatim>\<open>CreatePTM\<close> builds: an address space in which all of physical memory appears at
  address 0 and at the higher-half offset, the kernel image appears at its linked address,
  and nothing else is mapped. The properties of the page-table manager stand here.
\<close>

lemma translate_root:
  assumes "is_frame a" and "\<And>i. unat i < 512 \<Longrightarrow> read_pte m a i = decode_pte 0"
  shows "translate m a v = None"
  using assms GetPageTableIndex_less [of v 4]
  by (simp add: translate_def table_path_def walk_step_def decode_pte_def)

lemma finite_range_paths [simp]: "finite (range_paths v n)"
  by (simp add: range_paths_def prefix_paths_def)

lemma affords_root:
  assumes "finite N" "[] \<notin> N" "card N \<le> length (fresh_pages k)"
  shows "affords N [a \<mapsto> []] k"
  using assms by (simp add: affords_def)

lemma range_paths_no_root: "[] \<notin> range_paths v n"
  by (auto simp: range_paths_def prefix_paths_def table_path_def)

lemma mapped_offset:
  assumes "page_aligned b" "x < Size" "unat Size \<le> 2 ^ 48"
  shows "page_dist b (b + x) < page_count Size"
    and "p + word_of_nat (page_dist b (b + x)) * 4096 + ((b + x) AND 0xFFF) = p + x"
proof -
  have x: "unat x < unat Size" using assms(2) by (simp add: word_less_nat_alt)
  then have d: "page_dist b (b + x) = unat x div 4096" using page_dist_aligned [OF assms(1)] assms(3) by simp
  show "page_dist b (b + x) < page_count Size" unfolding d using page_count_cover [OF x] .
  show "p + word_of_nat (page_dist b (b + x)) * 4096 + ((b + x) AND 0xFFF) = p + x"
    unfolding d aligned_offset [OF assms(1)] by (simp only: add.assoc frame_plus_offset)
qed

text \<open>One more range mapped into an address space, with the bookkeeping that the next needs.\<close>

lemma MapMemory_state:
  assumes "vm_ext pos k pos' k'"
  shows "full_size k' = full_size k" "fresh_pages (k'\<lparr>FullSizeOfMemory := f\<rparr>) = fresh_pages k'"
  using vm_ext_fields [OF assms] by (simp_all add: full_size_def fresh_pages_def)

lemma vm_inv_update [simp]:
  "vm_inv pos root (k\<lparr>FullSizeOfMemory := f\<rparr>) = vm_inv pos root k"
  by (simp add: vm_inv_def)

lemma affords_update [simp]:
  "affords N pos (k\<lparr>FullSizeOfMemory := f\<rparr>) = affords N pos k"
  by (simp add: affords_def fresh_pages_def)

lemma full_size_update: "full_size (k\<lparr>FullSizeOfMemory := full_size k\<rparr>) = full_size k"
  by (rule full_size_again) simp_all

definition kernel_size :: "'a ptm_scheme \<Rightarrow> u64" where
  "kernel_size k = KernelEnd k - KernelStart k"

lemma vm_ext_zero: "vm_ext pos k pos' k' \<Longrightarrow> 0 \<notin> dom pos \<Longrightarrow> 0 \<notin> dom pos'"
  by (force simp: vm_ext_def)

lemma CreatePTM_run:
  assumes resp: "HHDM_Request_response k = Some hhdm" "KernelAddressRequest_response k = Some ka"
    and wf: "memmap_wf (entries (MemoryMap k))" "FreeListLength k = 0"
    and size: "unat (full_size k) \<le> 2 ^ 48"
    and ker: "page_aligned (physical_base ka)"
      "unat (physical_base ka) + unat (kernel_size k) + 4096 \<le> 2 ^ 52" "unat (kernel_size k) \<le> 2 ^ 48"
    and N: "range_paths 0 (page_count (full_size k)) \<union>
        range_paths (virtual_base ka) (page_count (kernel_size k)) \<union>
        range_paths (hhdm_offset hhdm) (page_count (full_size k)) \<subseteq> N" "finite N" "[] \<notin> N"
    and room: "fresh_pages k = root # rest" "card N \<le> length rest"
  shows "\<exists>k' pos. CreatePTM k = Some (Ret () k') \<and> cr3 k' = root \<and> Pml4 k' = root \<and>
           vm_inv pos root k' \<and> affords N pos k' \<and> 0 \<notin> dom pos \<and>
           (\<forall>v. translate (mem k') root v =
             (if page_dist (hhdm_offset hhdm) v < page_count (full_size k)
              then Some (word_of_nat (page_dist (hhdm_offset hhdm) v) * 4096 + (v AND 0xFFF))
              else if page_dist (virtual_base ka) v < page_count (kernel_size k)
              then Some (physical_base ka + word_of_nat (page_dist (virtual_base ka) v) * 4096 + (v AND 0xFFF))
              else if page_dist 0 v < page_count (full_size k)
              then Some (word_of_nat (page_dist 0 v) * 4096 + (v AND 0xFFF))
              else None))"
proof -
  let ?full = "full_size k" and ?ks = "kernel_size k"
  let ?ka = "k\<lparr>HHDM_Offset := hhdm_offset hhdm, PhysicalKernelStart := physical_base ka,
    VirtualKernelStart := virtual_base ka\<rparr>"
  have fa: "fresh_pages ?ka = root # rest" using room(1) by (simp add: fresh_pages_def)
  have wfa: "memmap_wf (entries (MemoryMap ?ka))" "FreeListLength ?ka = 0" using wf by simp_all
  note nr = new_root [OF wfa fa]
  define k0 where "k0 = ?ka\<lparr>LastAddress := root, mem := memset (mem ?ka) root 0 4096, Pml4 := root\<rparr>"
  define k1 where "k1 = k0\<lparr>FullSizeOfMemory := ?full\<rparr>"
  have f0: "full_size k0 = ?full" by (simp add: k0_def full_size_def)
  have inv1: "vm_inv [root \<mapsto> []] root k1" using nr(2) [of root] by (simp add: k1_def k0_def)
  have aff1: "affords N [root \<mapsto> []] k1"
    using nr(3) [of root] room(2) N(2,3) by (simp add: k1_def k0_def affords_root)
  have sub: "range_paths 0 (page_count ?full) \<subseteq> N" "range_paths (virtual_base ka) (page_count ?ks) \<subseteq> N"
    "range_paths (hhdm_offset hhdm) (page_count ?full) \<subseteq> N" using N(1) by auto
  have z: "page_aligned 0" "unat (0 :: u64) + unat ?full + 4096 \<le> 2 ^ 52"
    using size by (simp_all add: page_aligned_def)
  obtain k2 pos2 where m2: "MapMemory root 0 0 ?full k1 = Some (Ret () k2)" "vm_inv pos2 root k2"
    "vm_ext [root \<mapsto> []] k1 pos2 k2" "affords N pos2 k2"
    "\<forall>v. translate (mem k2) root v = (if page_dist 0 v < page_count ?full
       then Some (0 + word_of_nat (page_dist 0 v) * 4096 + (v AND 0xFFF)) else translate (mem k1) root v)"
    using MapMemory_ok [OF inv1 aff1 sub(1) z size] by blast
  obtain k3 pos3 where m3: "MapMemory root (virtual_base ka) (physical_base ka) ?ks k2 = Some (Ret () k3)"
    "vm_inv pos3 root k3" "vm_ext pos2 k2 pos3 k3" "affords N pos3 k3"
    "\<forall>v. translate (mem k3) root v = (if page_dist (virtual_base ka) v < page_count ?ks
       then Some (physical_base ka + word_of_nat (page_dist (virtual_base ka) v) * 4096 + (v AND 0xFFF))
       else translate (mem k2) root v)"
    using MapMemory_ok [OF m2(2,4) sub(2) ker] by blast
  have f3: "full_size k3 = ?full"
    using MapMemory_state(1) [OF m2(3)] MapMemory_state(1) [OF m3(3)] full_size_update [of k0] f0
    by (simp add: k1_def)
  define k4 where "k4 = k3\<lparr>FullSizeOfMemory := ?full\<rparr>"
  have i4: "vm_inv pos3 root k4" "affords N pos3 k4" using m3 by (simp_all add: k4_def)
  obtain k5 pos5 where m5: "MapMemory root (hhdm_offset hhdm) 0 ?full k4 = Some (Ret () k5)"
    "vm_inv pos5 root k5" "vm_ext pos3 k4 pos5 k5" "affords N pos5 k5"
    "\<forall>v. translate (mem k5) root v = (if page_dist (hhdm_offset hhdm) v < page_count ?full
       then Some (0 + word_of_nat (page_dist (hhdm_offset hhdm) v) * 4096 + (v AND 0xFFF))
       else translate (mem k4) root v)"
    using MapMemory_ok [OF i4 sub(3) z size] by blast
  note F = vm_ext_fields [OF m2(3)] vm_ext_fields [OF m3(3)] vm_ext_fields [OF m5(3)]
  have "GetFullSizeOfMemory k0 = (?full, k1)" "GetFullSizeOfMemory k3 = (?full, k4)"
    using f0 f3 by (simp_all add: GetFullSizeOfMemory_eq k1_def k4_def)
  then have "CreatePTM k = Some (Ret () (k5\<lparr>cr3 := Pml4 k5\<rparr>))"
    using nr(1) resp m2(1) m3(1) m5(1) F
    by (simp add: CreatePTM_def then_run_def k0_def k1_def k4_def kernel_size_def)
  moreover have "Pml4 k5 = root" using F by (simp add: k4_def k1_def k0_def)
  moreover have "translate (mem k1) root v = None" for v
  proof (rule translate_root)
    show fr: "is_frame root" using fresh_page_frame [OF wfa(1) fa] by blast
    show "read_pte (mem k1) root i = decode_pte 0" if "unat i < 512" for i
      using fr that by (intro read_pte_zero_page) (auto simp: k1_def k0_def memset_apply)
  qed
  moreover have "vm_inv pos5 root (k5\<lparr>cr3 := Pml4 k5\<rparr>)" using m5(2) by (simp add: vm_inv_def)
  moreover have "affords N pos5 (k5\<lparr>cr3 := Pml4 k5\<rparr>)" using m5(4) by (simp add: affords_def fresh_pages_def)
  moreover have "0 \<notin> dom pos5"
  proof -
    have "root \<in> set (fresh_pages k)" using room(1) by simp
    then have "root \<noteq> 0" by (auto simp: fresh_pages_def)
    then show ?thesis using vm_ext_zero [OF m5(3) vm_ext_zero [OF m3(3) vm_ext_zero [OF m2(3)]]] by simp
  qed
  moreover have "mem k4 = mem k3" by (simp add: k4_def)
  ultimately show ?thesis using m2(5) m3(5) m5(5) by (intro exI [of _ "k5\<lparr>cr3 := Pml4 k5\<rparr>"] exI [of _ pos5]) simp
qed

subsection \<open>A concrete machine\<close>

definition demo_ptm :: ptm where
  "demo_ptm = pmm.extend demo_pmm
     \<lparr>HHDM_Request_response = Some \<lparr>hhdm_revision = 0, hhdm_offset = 0xFFFF800000000000\<rparr>,
      KernelAddressRequest_response =
        Some \<lparr>ka_revision = 0, physical_base = 0x200000, virtual_base = 0xFFFFFFFF80000000\<rparr>,
      HHDM_Offset = 0, PhysicalKernelStart = 0, VirtualKernelStart = 0,
      KernelStart = 0xFFFFFFFF80000000, KernelEnd = 0xFFFFFFFF80001800, Pml4 = 0,
      CurrentPageTableEntry = decode_pte 0, FullSizeOfMemory = 0, cr3 = 0\<rparr>"

lemma demo_ptm_fields:
  "MemoryMap demo_ptm = demo_map" "FreeListLength demo_ptm = 0" "LastAddress demo_ptm = 0"
  "HHDM_Request_response demo_ptm = Some \<lparr>hhdm_revision = 0, hhdm_offset = 0xFFFF800000000000\<rparr>"
  "KernelAddressRequest_response demo_ptm =
     Some \<lparr>ka_revision = 0, physical_base = 0x200000, virtual_base = 0xFFFFFFFF80000000\<rparr>"
  "kernel_size demo_ptm = 0x1800" "FullSizeOfMemory demo_ptm = 0" "mem demo_ptm = (\<lambda>_. 0)"
  by (simp_all add: demo_ptm_def pmm.extend_def demo_pmm_def interrupts.extend_def kernel_size_def)

lemma demo_ptm_full_size: "full_size demo_ptm = 0x22000"
  by (simp add: full_size_def demo_ptm_fields demo_map_def EndOfSegment_def)

lemma demo_ptm_fresh: "fresh_pages demo_ptm = 0x1000 # tl (usable_pages (entries demo_map))"
  by (simp add: fresh_pages_def demo_ptm_fields demo_usable_pages)

lemma demo_page_counts: "page_count 0x22000 = 34" "page_count 0x1800 = 2"
  by (simp_all add: page_count_def)

lemma demo_paths:
  "range_paths 0 34 = {[0], [0, 0], [0, 0, 0]}"
  "range_paths 0xFFFFFFFF80000000 2 = {[511], [511, 510], [511, 510, 0]}"
  "range_paths 0xFFFF800000000000 34 = {[256], [256, 0], [256, 0, 0]}"
  by (simp_all add: range_paths_def prefix_paths_def table_path_def GetPageTableIndex_def
      lessThan_atLeast0 atLeastLessThan_upt upt_rec)

subsection \<open>Properties\<close>

text \<open>
  C14. The address space that \<^verbatim>\<open>CreatePTM\<close> installs. If the bootloader answered both
  requests, the three ranges do not overlap and the free pages cover the page tables they
  need, \<^verbatim>\<open>CreatePTM\<close> returns, loads \<^verbatim>\<open>cr3\<close> with the first free page, and the hardware
  walk from it maps every physical address below the end of memory to itself both at
  address 0 and at the higher-half offset, maps the kernel image from its linked address to
  its physical address, and maps nothing else.
\<close>

theorem CreatePTM_address_space:
  assumes "HHDM_Request_response k = Some hhdm" "KernelAddressRequest_response k = Some ka"
    and "memmap_wf (entries (MemoryMap k))" "FreeListLength k = 0"
    and "unat (full_size k) \<le> 2 ^ 48" "unat (kernel_size k) \<le> 2 ^ 48"
    and "page_aligned (physical_base ka)" "page_aligned (virtual_base ka)" "page_aligned (hhdm_offset hhdm)"
    and "unat (physical_base ka) + unat (kernel_size k) + 4096 \<le> 2 ^ 52"
    and "disjoint_pages 0 (page_count (full_size k)) (virtual_base ka) (page_count (kernel_size k))"
    and "disjoint_pages (hhdm_offset hhdm) (page_count (full_size k)) (virtual_base ka) (page_count (kernel_size k))"
    and "disjoint_pages (hhdm_offset hhdm) (page_count (full_size k)) 0 (page_count (full_size k))"
    and "fresh_pages k = root # rest"
    and "card (range_paths 0 (page_count (full_size k)) \<union>
               range_paths (virtual_base ka) (page_count (kernel_size k)) \<union>
               range_paths (hhdm_offset hhdm) (page_count (full_size k))) \<le> length rest"
  shows "\<exists>k'. CreatePTM k = Some (Ret () k') \<and> cr3 k' = root \<and>
           (\<forall>x < full_size k. translate (mem k') root x = Some x) \<and>
           (\<forall>x < full_size k. translate (mem k') root (hhdm_offset hhdm + x) = Some x) \<and>
           (\<forall>x < kernel_size k. translate (mem k') root (virtual_base ka + x) = Some (physical_base ka + x)) \<and>
           (\<forall>v. page_count (full_size k) \<le> page_dist 0 v \<longrightarrow>
                page_count (full_size k) \<le> page_dist (hhdm_offset hhdm) v \<longrightarrow>
                page_count (kernel_size k) \<le> page_dist (virtual_base ka) v \<longrightarrow>
                translate (mem k') root v = None)"
proof -
  obtain k' pos where run: "CreatePTM k = Some (Ret () k')" "cr3 k' = root"
    and T: "\<And>v. translate (mem k') root v =
             (if page_dist (hhdm_offset hhdm) v < page_count (full_size k)
              then Some (word_of_nat (page_dist (hhdm_offset hhdm) v) * 4096 + (v AND 0xFFF))
              else if page_dist (virtual_base ka) v < page_count (kernel_size k)
              then Some (physical_base ka + word_of_nat (page_dist (virtual_base ka) v) * 4096 + (v AND 0xFFF))
              else if page_dist 0 v < page_count (full_size k)
              then Some (word_of_nat (page_dist 0 v) * 4096 + (v AND 0xFFF))
              else None)"
    using CreatePTM_run [OF assms(1-5,7,10,6) order_refl _ _ assms(14,15)] range_paths_no_root by auto
  have "translate (mem k') root x = Some x" if "x < full_size k" for x
  proof -
    have a: "page_aligned 0" by (simp add: page_aligned_def)
    note mapped = mapped_offset [OF a that assms(5), simplified]
    show ?thesis
      unfolding T using mapped disjoint_pagesD [OF assms(11)] disjoint_pagesD [OF assms(13)] by auto
  qed
  moreover have "translate (mem k') root (hhdm_offset hhdm + x) = Some x" if "x < full_size k" for x
    unfolding T using mapped_offset(1) [OF assms(9) that assms(5)] mapped_offset(2) [OF assms(9) that assms(5), of 0] by simp
  moreover have "translate (mem k') root (virtual_base ka + x) = Some (physical_base ka + x)" if "x < kernel_size k" for x
    unfolding T using mapped_offset [OF assms(8) that assms(6)] disjoint_pagesD [OF assms(12)] by auto
  ultimately show ?thesis using run T by (intro exI [of _ k']) (simp add: not_less)
qed

lemma demo_vpns: "vpn 0 = 0" "vpn 0xFFFFFFFF80000000 = 0xFFFF80000" "vpn 0xFFFF800000000000 = 0x800000000"
  by (simp_all add: vpn_def)

lemma demo_apart:
  "disjoint_pages 0 34 0xFFFFFFFF80000000 2" "disjoint_pages 0xFFFF800000000000 34 0xFFFFFFFF80000000 2"
  "disjoint_pages 0xFFFF800000000000 34 0 34"
  by (simp_all add: disjoint_pages_def page_dist_cases demo_vpns)

theorem CreatePTM_address_space_witness:
  "\<exists>k'. CreatePTM demo_ptm = Some (Ret () k') \<and> cr3 k' = 0x1000 \<and>
     translate (mem k') 0x1000 0x1234 = Some 0x1234 \<and>
     translate (mem k') 0x1000 0xFFFF800000001234 = Some 0x1234 \<and>
     translate (mem k') 0x1000 0xFFFFFFFF80000010 = Some 0x200010"
proof -
  have card: "card (range_paths 0 34 \<union> range_paths 0xFFFFFFFF80000000 2 \<union> range_paths 0xFFFF800000000000 34) \<le>
      length (tl (usable_pages (entries demo_map)))"
    unfolding demo_paths demo_usable_pages by simp
  obtain k' where k': "CreatePTM demo_ptm = Some (Ret () k')" "cr3 k' = 0x1000"
    and T: "\<forall>x < 0x22000. translate (mem k') 0x1000 x = Some x"
      "\<forall>x < 0x22000. translate (mem k') 0x1000 (0xFFFF800000000000 + x) = Some x"
      "\<forall>x < 0x1800. translate (mem k') 0x1000 (0xFFFFFFFF80000000 + x) = Some (0x200000 + x)"
    using CreatePTM_address_space [OF demo_ptm_fields(4,5) _ demo_ptm_fields(2) _ _ _ _ _ _ _ _ _ demo_ptm_fresh]
      card demo_apart
    by (auto simp: demo_ptm_fields demo_map_wf demo_ptm_full_size demo_page_counts page_aligned_def)
  show ?thesis using k' T(1) [rule_format, of "0x1234"] T(2) [rule_format, of "0x1234"] T(3) [rule_format, of "0x10"]
    by (intro exI [of _ k']) simp
qed

text \<open>
  C15. One call of \<^verbatim>\<open>MapMemory\<close> on a well-formed address space. With enough free pages for
  the missing tables it returns, the walk of every address in the range delivers the
  requested physical address, every address outside the range translates as before, memory
  outside the page tables is untouched, and the result is well formed again.
\<close>

theorem MapMemory_range:
  assumes "vm_inv pos root k" "affords (range_paths v (page_count Size)) pos k"
    "page_aligned v" "page_aligned p" "unat p + unat Size + 4096 \<le> 2 ^ 52" "unat Size \<le> 2 ^ 48"
  shows "\<exists>k' pos'. MapMemory root v p Size k = Some (Ret () k') \<and> vm_inv pos' root k' \<and>
           (\<forall>x < Size. translate (mem k') root (v + x) = Some (p + x)) \<and>
           (\<forall>v'. page_count Size \<le> page_dist v v' \<longrightarrow> translate (mem k') root v' = translate (mem k) root v') \<and>
           (\<forall>x. (\<forall>t\<in>dom pos'. \<not> offs t x < 4096) \<longrightarrow> mem k' x = mem k x)"
proof -
  obtain k' pos' where M: "MapMemory root v p Size k = Some (Ret () k')" "vm_inv pos' root k'"
    "vm_ext pos k pos' k'"
    "\<And>v'. translate (mem k') root v' =
       (if page_dist v v' < page_count Size
        then Some (p + word_of_nat (page_dist v v') * 4096 + (v' AND 0xFFF)) else translate (mem k) root v')"
    using MapMemory_ok [OF assms(1,2) _ assms(4-6)] by blast
  have "translate (mem k') root (v + x) = Some (p + x)" if "x < Size" for x
    unfolding M(4) using mapped_offset [OF assms(3) that assms(6)] by simp
  then show ?thesis using M vm_ext_mem [OF M(3)] by (intro exI [of _ k'] exI [of _ pos']) simp
qed

definition demo_root :: ptm where
  "demo_root = demo_ptm\<lparr>LastAddress := 0x1000, mem := memset (mem demo_ptm) 0x1000 0 4096, Pml4 := 0x1000\<rparr>"

lemma demo_root_inv: "vm_inv [0x1000 \<mapsto> []] 0x1000 demo_root"
  unfolding demo_root_def
  by (rule new_root(2) [OF _ _ demo_ptm_fresh]) (simp_all add: demo_ptm_fields demo_map_wf)

lemma demo_root_fresh: "fresh_pages demo_root = tl (usable_pages (entries demo_map))"
  unfolding demo_root_def
  by (rule new_root(3) [OF _ _ demo_ptm_fresh]) (simp_all add: demo_ptm_fields demo_map_wf)

lemma demo_heap_paths: "range_paths 0x400000000 2 = {[0], [0, 16], [0, 16, 0]}"
  by (simp add: range_paths_def prefix_paths_def table_path_def GetPageTableIndex_def
      lessThan_atLeast0 atLeastLessThan_upt upt_rec)

theorem MapMemory_range_witness:
  "\<exists>k'. MapMemory 0x1000 0x400000000 0x5000 0x2000 demo_root = Some (Ret () k') \<and>
     translate (mem k') 0x1000 0x400001abc = Some 0x6abc"
proof -
  have pc: "page_count 0x2000 = 2" by (simp add: page_count_def)
  have "affords (range_paths 0x400000000 2) [0x1000 \<mapsto> []] demo_root"
    unfolding demo_heap_paths by (rule affords_root) (simp_all add: demo_root_fresh demo_usable_pages)
  then obtain k' where run: "MapMemory 0x1000 0x400000000 0x5000 0x2000 demo_root = Some (Ret () k')"
    and T: "\<forall>x < 0x2000. translate (mem k') 0x1000 (0x400000000 + x) = Some (0x5000 + x)"
    using MapMemory_range [OF demo_root_inv, of "0x400000000" "0x2000" "0x5000"]
    by (auto simp: pc page_aligned_def)
  show ?thesis using run T [rule_format, of "0x1abc"] by (intro exI [of _ k']) simp
qed




end
