(* ===== verification/VirtualMemory.thy ===== *)
theory VirtualMemory
  imports AddressSpace
begin

text \<open>
  Memory as the running kernel sees it once \<^verbatim>\<open>cr3\<close> is loaded: every byte an instruction
  touches goes through the hardware walk, and an access with an unmapped byte enters the
  page-fault handler of \<^verbatim>\<open>kernel/Faults\<close>, which does not come back. The locale
  \<open>address_space\<close> is the interface its users rely on: on the addresses a component owns,
  loads and stores act like those of a flat byte memory.
\<close>

definition page_fault :: "'a console_scheme \<Rightarrow> ('b, 'a console_scheme) run" where
  "page_fault k = and_then (OnPageFault k) (\<lambda>_ s. Halt s)"

definition vmapped :: "'a ptm_scheme \<Rightarrow> u64 \<Rightarrow> nat \<Rightarrow> bool" where
  "vmapped k a n = list_all (\<lambda>i. translate (mem k) (cr3 k) (a + word_of_nat i) \<noteq> None) [0..<n]"

definition vmem :: "'a ptm_scheme \<Rightarrow> memory" where
  "vmem k = (\<lambda>v. case translate (mem k) (cr3 k) v of Some p \<Rightarrow> mem k p | None \<Rightarrow> 0)"

primrec vwrite :: "(u64 \<Rightarrow> u64 option) \<Rightarrow> u64 \<Rightarrow> u8 list \<Rightarrow> memory \<Rightarrow> memory" where
  "vwrite T a [] m = m"
| "vwrite T a (b # bs) m = vwrite T (a + 1) bs (case T a of Some p \<Rightarrow> m(p := b) | None \<Rightarrow> m)"

definition le_bytes :: "u64 \<Rightarrow> u8 list" where
  "le_bytes w = map (\<lambda>i. word_of_nat (unat w div 256 ^ i)) [0..<8]"

definition vload8 :: "u64 \<Rightarrow> 'a ptm_scheme \<Rightarrow> (u8, 'a ptm_scheme) run" where
  "vload8 a k = (if vmapped k a 1 then Ret (vmem k a) k else page_fault k)"

definition vload64 :: "u64 \<Rightarrow> 'a ptm_scheme \<Rightarrow> (u64, 'a ptm_scheme) run" where
  "vload64 a k = (if vmapped k a 8 then Ret (load64 (vmem k) a) k else page_fault k)"

definition vstore :: "u64 \<Rightarrow> u8 list \<Rightarrow> 'a ptm_scheme \<Rightarrow> (unit, 'a ptm_scheme) run" where
  "vstore a bs k =
     (if vmapped k a (length bs) then
        Ret () (k\<lparr>mem := vwrite (translate (mem k) (cr3 k)) a bs (mem k)\<rparr>)
      else page_fault k)"

definition vstore8 :: "u64 \<Rightarrow> u8 \<Rightarrow> 'a ptm_scheme \<Rightarrow> (unit, 'a ptm_scheme) run" where
  "vstore8 a b k = vstore a [b] k"

definition vstore64 :: "u64 \<Rightarrow> u64 \<Rightarrow> 'a ptm_scheme \<Rightarrow> (unit, 'a ptm_scheme) run" where
  "vstore64 a w k = vstore a (le_bytes w) k"

subsection \<open>The interface\<close>

text \<open>
  \<open>own s\<close> are the addresses a component may use in state \<open>s\<close>, \<open>view s\<close> their contents,
  and \<open>same s s'\<close> says that a store left everything but memory contents alone.
\<close>

locale address_space =
  fixes inv :: "'s \<Rightarrow> bool"
    and own :: "'s \<Rightarrow> u64 \<Rightarrow> bool"
    and view :: "'s \<Rightarrow> memory"
    and same :: "'s \<Rightarrow> 's \<Rightarrow> bool"
    and ld8 :: "u64 \<Rightarrow> 's \<Rightarrow> (u8, 's) run"
    and ld64 :: "u64 \<Rightarrow> 's \<Rightarrow> (u64, 's) run"
    and st :: "u64 \<Rightarrow> u8 list \<Rightarrow> 's \<Rightarrow> (unit, 's) run"
  assumes same_refl: "same s s"
    and same_trans: "same s s1 \<Longrightarrow> same s1 s2 \<Longrightarrow> same s s2"
    and own_same: "same s s' \<Longrightarrow> own s' = own s"
    and load8: "inv s \<Longrightarrow> own s a \<Longrightarrow> ld8 a s = Ret (view s a) s"
    and load64: "inv s \<Longrightarrow> (\<And>x. offs a x < 8 \<Longrightarrow> own s x) \<Longrightarrow> ld64 a s = Ret (load64 (view s) a) s"
    and store: "inv s \<Longrightarrow> length bs < 4096 \<Longrightarrow> (\<And>x. offs a x < length bs \<Longrightarrow> own s x) \<Longrightarrow>
      \<exists>s'. st a bs s = Ret () s' \<and> inv s' \<and> same s s' \<and>
        (\<forall>x. own s x \<longrightarrow> view s' x = (if offs a x < length bs then bs ! offs a x else view s x))"
begin

lemma store64_view:
  assumes "inv s" and "\<And>x. offs a x < 8 \<Longrightarrow> own s x"
  obtains s' where "st a (le_bytes w) s = Ret () s'" and "inv s'" and "same s s'"
    and "\<And>x. own s x \<Longrightarrow> view s' x = store64 (view s) a w x"
proof -
  have len: "length (le_bytes w) = 8" by (simp add: le_bytes_def)
  obtain s' where s': "st a (le_bytes w) s = Ret () s'" "inv s'" "same s s'"
    "\<forall>x. own s x \<longrightarrow> view s' x = (if offs a x < 8 then le_bytes w ! offs a x else view s x)"
    using store [OF assms(1), of "le_bytes w" a] assms(2) unfolding len by auto
  have "le_bytes w ! i = word_of_nat (unat w div 256 ^ i)" if "i < 8" for i
    using that by (simp add: le_bytes_def)
  then show ?thesis using that [OF s'(1-3)] s'(4) by (simp add: store64_apply)
qed

lemma store8_view:
  assumes "inv s" and "own s a"
  obtains s' where "st a [b] s = Ret () s'" and "inv s'" and "same s s'"
    and "\<And>x. own s x \<Longrightarrow> view s' x = ((view s)(a := b)) x"
  using store [OF assms(1), of "[b]" a] assms(2) that by fastforce

end

subsection \<open>Writing through a translation\<close>

lemma vwrite_other:
  "(\<And>i. i < length bs \<Longrightarrow> T (a + word_of_nat i) \<noteq> Some x) \<Longrightarrow> vwrite T a bs m x = m x"
proof (induction bs arbitrary: a m)
  case Nil
  then show ?case by simp
next
  case (Cons b bs)
  have "T (a + 1 + word_of_nat i) \<noteq> Some x" if "i < length bs" for i
    using Cons.prems [of "Suc i"] that by (simp add: add.assoc)
  then show ?case using Cons.IH [of "a + 1"] Cons.prems [of 0] by (auto split: option.split)
qed

lemma vwrite_at:
  assumes "i < length bs" "T (a + word_of_nat i) = Some x"
    "\<And>j. j < length bs \<Longrightarrow> j \<noteq> i \<Longrightarrow> T (a + word_of_nat j) \<noteq> Some x"
  shows "vwrite T a bs m x = bs ! i"
  using assms
proof (induction bs arbitrary: a m i)
  case Nil
  then show ?case by simp
next
  case (Cons b bs)
  show ?case
  proof (cases i)
    case 0
    have "T (a + 1 + word_of_nat j) \<noteq> Some x" if "j < length bs" for j
      using Cons.prems(3) [of "Suc j"] that 0 by (simp add: add.assoc)
    then show ?thesis using Cons.prems(2) 0 by (simp add: vwrite_other)
  next
    case (Suc i')
    have "T (a + 1 + word_of_nat j) \<noteq> Some x" if "j < length bs" "j \<noteq> i'" for j
      using Cons.prems(3) [of "Suc j"] that Suc by (simp add: add.assoc)
    then show ?thesis using Cons.IH [of i' "a + 1"] Cons.prems(1,2) Suc by (simp add: add.assoc)
  qed
qed

subsection \<open>Memory outside the page tables\<close>

lemma vm_inv_frame:
  assumes inv: "vm_inv pos root k"
    and keep: "\<And>t x. t \<in> dom pos \<Longrightarrow> offs t x < 4096 \<Longrightarrow> m x = mem k x"
  shows "vm_inv pos root (k\<lparr>mem := m\<rparr>)" and "translate m root v = translate (mem k) root v"
proof -
  have tree: "pt_tree pos root (mem k)" using inv by (simp add: vm_inv_def)
  have R: "read_pte m t i = read_pte (mem k) t i" if "pos t = Some p" "unat i < 512" for t p i
    using that keep by (intro read_pte_cong pt_tree_frame [OF tree that(1)]) auto
  have W: "walk m root ixs = walk (mem k) root ixs"
    if "length ixs \<le> 3" "\<And>i. i \<in> set ixs \<Longrightarrow> unat i < 512" for ixs
    using R that by (intro walk_cong [OF tree pt_tree_root [OF tree]]) auto
  have "pt_tree pos root m"
    using tree W R unfolding pt_tree_def by fastforce
  then show "vm_inv pos root (k\<lparr>mem := m\<rparr>)" using inv by (simp add: vm_inv_def)
  have w: "walk m root (table_path v) = walk (mem k) root (table_path v)"
    using W table_path_less by simp
  have "read_pte m t (GetPageTableIndex v 1) = read_pte (mem k) t (GetPageTableIndex v 1)"
    if "walk (mem k) root (table_path v) = Some t" for t
    using pt_tree_walk [OF tree pt_tree_root [OF tree] _ _ that] table_path_less
      GetPageTableIndex_less R by simp
  then show "translate m root v = translate (mem k) root v"
    using w by (simp add: translate_def split: option.split)
qed

end
