(* ===== verification/Heap.thy ===== *)
theory Heap
  imports VirtualMemory
begin

text \<open>
  The kernel heap of \<^verbatim>\<open>kernel/Memory/Heap\<close>: a doubly linked list of segments that tile the
  heap's address range, each with a 32-byte \<^verbatim>\<open>HeapSegmentHeader\<close> in front. The operations
  read and write the headers in virtual memory, field by field as the source does; the heap
  grows by mapping fresh pages at \<^verbatim>\<open>HeapEnd\<close>. The loops of \<^verbatim>\<open>malloc\<close> and its call of itself
  are partial functions, since a damaged list or an exhausted machine need not come back.
\<close>

record heap = ptm +
  HeapStart :: u64
  HeapEnd :: u64
  LastHeapHDR :: u64

subsection \<open>Header fields\<close>

definition sizeof_HeapSegmentHeader :: u64 where
  "sizeof_HeapSegmentHeader = 32"

definition get_Length :: "u64 \<Rightarrow> 'a ptm_scheme \<Rightarrow> (u64, 'a ptm_scheme) run" where
  "get_Length h k = vload64 h k"

definition get_Next :: "u64 \<Rightarrow> 'a ptm_scheme \<Rightarrow> (u64, 'a ptm_scheme) run" where
  "get_Next h k = vload64 (h + 8) k"

definition get_Last :: "u64 \<Rightarrow> 'a ptm_scheme \<Rightarrow> (u64, 'a ptm_scheme) run" where
  "get_Last h k = vload64 (h + 16) k"

definition get_IsFree :: "u64 \<Rightarrow> 'a ptm_scheme \<Rightarrow> (bool, 'a ptm_scheme) run" where
  "get_IsFree h k = and_then (vload8 (h + 24) k) (\<lambda>b k. Ret (b \<noteq> 0) k)"

definition set_Length :: "u64 \<Rightarrow> u64 \<Rightarrow> 'a ptm_scheme \<Rightarrow> (unit, 'a ptm_scheme) run" where
  "set_Length h w k = vstore64 h w k"

definition set_Next :: "u64 \<Rightarrow> u64 \<Rightarrow> 'a ptm_scheme \<Rightarrow> (unit, 'a ptm_scheme) run" where
  "set_Next h w k = vstore64 (h + 8) w k"

definition set_Last :: "u64 \<Rightarrow> u64 \<Rightarrow> 'a ptm_scheme \<Rightarrow> (unit, 'a ptm_scheme) run" where
  "set_Last h w k = vstore64 (h + 16) w k"

definition set_IsFree :: "u64 \<Rightarrow> bool \<Rightarrow> 'a ptm_scheme \<Rightarrow> (unit, 'a ptm_scheme) run" where
  "set_IsFree h b k = vstore8 (h + 24) (of_bool b) k"

subsection \<open>Joining and splitting segments\<close>

definition SegmentHeaderCombineForward :: "u64 \<Rightarrow> 'a heap_scheme \<Rightarrow> (unit, 'a heap_scheme) run" where
  "SegmentHeaderCombineForward HDR k =
     and_then (get_Next HDR k) (\<lambda>nx k.
     if nx = 0 then Ret () k else
     and_then (get_IsFree nx k) (\<lambda>fr k.
     if \<not> fr then Ret () k else
     let k = (if nx = LastHeapHDR k then k\<lparr>LastHeapHDR := HDR\<rparr> else k) in
     and_then (get_Next nx k) (\<lambda>nn k.
     and_then (if nn \<noteq> 0 then set_Last nn HDR k else Ret () k) (\<lambda>_ k.
     and_then (get_Length HDR k) (\<lambda>len k.
     and_then (get_Next HDR k) (\<lambda>nx k.
     and_then (get_Length nx k) (\<lambda>nlen k.
     and_then (set_Length HDR (len + nlen + sizeof_HeapSegmentHeader) k) (\<lambda>_ k.
     and_then (get_Next HDR k) (\<lambda>nx k.
     and_then (get_Next nx k) (\<lambda>nn k.
     set_Next HDR nn k))))))))))"

definition SegmentHeaderCombineBackward :: "u64 \<Rightarrow> 'a heap_scheme \<Rightarrow> (unit, 'a heap_scheme) run" where
  "SegmentHeaderCombineBackward HDR k =
     and_then (get_Last HDR k) (\<lambda>la k.
     if la = 0 then Ret () k else
     and_then (get_IsFree la k) (\<lambda>fr k.
     if fr then SegmentHeaderCombineForward la k else Ret () k))"

definition SegmentHeaderSplit :: "u64 \<Rightarrow> u64 \<Rightarrow> 'a heap_scheme \<Rightarrow> (u64, 'a heap_scheme) run" where
  "SegmentHeaderSplit HDR len k =
     (if len < 0x10 then Ret 0 k else
      and_then (get_Length HDR k) (\<lambda>old k.
      let SplitSegmentLength = old - len - sizeof_HeapSegmentHeader in
      if sint SplitSegmentLength < 0x10 then Ret 0 k else
      let NewHDR = HDR + len + sizeof_HeapSegmentHeader in
      and_then (get_Next HDR k) (\<lambda>nx k.
      and_then (set_Last nx NewHDR k) (\<lambda>_ k.
      and_then (get_Next HDR k) (\<lambda>nx k.
      and_then (set_Next NewHDR nx k) (\<lambda>_ k.
      and_then (set_Next HDR NewHDR k) (\<lambda>_ k.
      and_then (set_Last NewHDR HDR k) (\<lambda>_ k.
      and_then (set_Length NewHDR SplitSegmentLength k) (\<lambda>_ k.
      and_then (get_IsFree HDR k) (\<lambda>fr k.
      and_then (set_IsFree NewHDR fr k) (\<lambda>_ k.
      and_then (set_Length HDR len k) (\<lambda>_ k.
      Ret NewHDR (if LastHeapHDR k = HDR then k\<lparr>LastHeapHDR := NewHDR\<rparr> else k)))))))))))))"

subsection \<open>Growing\<close>

text \<open>Mapping fresh pages from \<open>Position\<close> on, one at a time.\<close>

fun map_pages :: "u64 \<Rightarrow> nat \<Rightarrow> 'a ptm_scheme \<Rightarrow> (unit, 'a ptm_scheme) run option" where
  "map_pages Position 0 k = Some (Ret () k)"
| "map_pages Position (Suc n) k =
     then_run (Some (AllocateEmptyPage k)) (\<lambda>a k.
     then_run (MapMemory (Pml4 k) Position a 4096 k) (\<lambda>_ k.
     map_pages (Position + 4096) n k))"

definition CreateHeap2 :: "u64 \<Rightarrow> u64 \<Rightarrow> 'a heap_scheme \<Rightarrow> (unit, 'a heap_scheme) run option" where
  "CreateHeap2 HeapAddress PageCount k =
     then_run (map_pages HeapAddress (unat PageCount) k) (\<lambda>_ k.
     let len = PageCount * 4096;
         k = k\<lparr>HeapStart := HeapAddress\<rparr>;
         k = k\<lparr>HeapEnd := HeapStart k + len\<rparr>;
         StartSegment = HeapAddress
     in Some (
        and_then (set_Length StartSegment (len - sizeof_HeapSegmentHeader) k) (\<lambda>_ k.
        and_then (set_Next StartSegment 0 k) (\<lambda>_ k.
        and_then (set_Last StartSegment 0 k) (\<lambda>_ k.
        and_then (set_IsFree StartSegment True k) (\<lambda>_ k.
        Ret () (k\<lparr>LastHeapHDR := StartSegment\<rparr>)))))))"

primrec vmemset_loop :: "u64 \<Rightarrow> u8 \<Rightarrow> u64 \<Rightarrow> nat \<Rightarrow> 'a ptm_scheme \<Rightarrow> (unit, 'a ptm_scheme) run" where
  "vmemset_loop Base Val Index 0 k = Ret () k"
| "vmemset_loop Base Val Index (Suc n) k =
     and_then (vstore8 (Base + Index) Val k) (\<lambda>_ k. vmemset_loop Base Val (Index + 1) n k)"

definition vmemset :: "u64 \<Rightarrow> u8 \<Rightarrow> u64 \<Rightarrow> 'a ptm_scheme \<Rightarrow> (unit, 'a ptm_scheme) run" where
  "vmemset Base Val n k = vmemset_loop Base Val 0 (unat n) k"

definition AddressOfSystemData :: u64 where
  "AddressOfSystemData = 0xFFFFFFFFBFFFF000"

definition CreateHeap :: "'a heap_scheme \<Rightarrow> (unit, 'a heap_scheme) run option" where
  "CreateHeap k =
     then_run (Some (AllocateEmptyPage k)) (\<lambda>a k.
     then_run (MapMemory (Pml4 k) 0xFFFFFFFFBFFFF000 a 4096 k) (\<lambda>_ k.
     then_run (Some (vmemset 0xFFFFFFFFBFFFF000 0 4096 k)) (\<lambda>_ k.
     CreateHeap2 0xffffffffC0000000 512 k)))"

fun ExpandHeap_loop :: "nat \<Rightarrow> 'a heap_scheme \<Rightarrow> (unit, 'a heap_scheme) run option" where
  "ExpandHeap_loop 0 k = Some (Ret () k)"
| "ExpandHeap_loop (Suc n) k =
     then_run (Some (AllocateEmptyPage k)) (\<lambda>a k.
     then_run (MapMemory (Pml4 k) (HeapEnd k) a 4096 k) (\<lambda>_ k.
     ExpandHeap_loop n (k\<lparr>HeapEnd := HeapEnd k + 4096\<rparr>)))"

definition round_page :: "u64 \<Rightarrow> u64" where
  "round_page len = (if len mod 4096 \<noteq> 0 then len - len mod 4096 + 4096 else len)"

definition ExpandHeap :: "u64 \<Rightarrow> 'a heap_scheme \<Rightarrow> (unit, 'a heap_scheme) run option" where
  "ExpandHeap len0 k =
     (let len = round_page len0;
          PageCount = len div 4096;
          NewHDR = HeapEnd k
      in then_run (ExpandHeap_loop (unat PageCount) k) (\<lambda>_ k.
         Some (
         and_then (set_IsFree NewHDR True k) (\<lambda>_ k.
         and_then (set_Last NewHDR (LastHeapHDR k) k) (\<lambda>_ k.
         and_then (set_Next (LastHeapHDR k) NewHDR k) (\<lambda>_ k.
         let k = k\<lparr>LastHeapHDR := NewHDR\<rparr> in
         and_then (set_Next NewHDR 0 k) (\<lambda>_ k.
         and_then (set_Length NewHDR (len - sizeof_HeapSegmentHeader) k) (\<lambda>_ k.
         SegmentHeaderCombineBackward NewHDR k))))))))"

subsection \<open>malloc and free\<close>

definition round_16 :: "u64 \<Rightarrow> u64" where
  "round_16 sz = (if sz mod 0x10 > 0 then sz - sz mod 0x10 + 0x10 else sz)"

text \<open>
  One turn of the search loop: \<open>Inl (Some p)\<close> is the return of a block, \<open>Inl None\<close> the
  break at the end of the list, \<open>Inr\<close> the next segment.
\<close>

definition malloc_next :: "u64 \<Rightarrow> 'a heap_scheme \<Rightarrow> (u64 option + u64, 'a heap_scheme) run" where
  "malloc_next Current k =
     and_then (get_Next Current k) (\<lambda>nx k.
     if nx = 0 then Ret (Inl None) k else
     and_then (get_Next Current k) (\<lambda>nx k. Ret (Inr nx) k))"

definition malloc_turn :: "u64 \<Rightarrow> u64 \<Rightarrow> 'a heap_scheme \<Rightarrow> (u64 option + u64, 'a heap_scheme) run" where
  "malloc_turn Current sz k =
     and_then (get_IsFree Current k) (\<lambda>fr k.
     if \<not> fr then malloc_next Current k else
     and_then (get_Length Current k) (\<lambda>len k.
     if len > sz then
       and_then (SegmentHeaderSplit Current sz k) (\<lambda>_ k.
       and_then (set_IsFree Current False k) (\<lambda>_ k.
       Ret (Inl (Some (Current + sizeof_HeapSegmentHeader))) k))
     else if len = sz then
       and_then (set_IsFree Current False k) (\<lambda>_ k.
       Ret (Inl (Some (Current + sizeof_HeapSegmentHeader))) k)
     else malloc_next Current k))"

partial_function (option) malloc_search ::
  "u64 \<Rightarrow> u64 \<Rightarrow> 'a heap_scheme \<Rightarrow> (u64 option, 'a heap_scheme) run option" where
  "malloc_search Current sz k =
     (case malloc_turn Current sz k of
        Halt k' \<Rightarrow> Some (Halt k')
      | Ret r k' \<Rightarrow> (case r of Inl res \<Rightarrow> Some (Ret res k') | Inr nx \<Rightarrow> malloc_search nx sz k'))"

partial_function (option) malloc ::
  "u64 \<Rightarrow> 'a heap_scheme \<Rightarrow> (u64, 'a heap_scheme) run option" where
  "malloc sz0 k =
     (let sz = round_16 sz0 in
      if sz = 0 then Some (Halt (print_message ''Out of memory'' k)) else
      (case malloc_search (HeapStart k) sz k of
         None \<Rightarrow> None
       | Some (Halt k') \<Rightarrow> Some (Halt k')
       | Some (Ret res k') \<Rightarrow>
           (case res of
              Some a \<Rightarrow> Some (Ret a k')
            | None \<Rightarrow>
                (case ExpandHeap sz k' of
                   None \<Rightarrow> None
                 | Some (Halt k'') \<Rightarrow> Some (Halt k'')
                 | Some (Ret _ k'') \<Rightarrow> malloc sz k''))))"

definition free :: "u64 \<Rightarrow> 'a heap_scheme \<Rightarrow> (unit, 'a heap_scheme) run" where
  "free Address k =
     (let HDR = Address - sizeof_HeapSegmentHeader in
      and_then (set_IsFree HDR True k) (\<lambda>_ k.
      and_then (SegmentHeaderCombineForward HDR k) (\<lambda>_ k.
      SegmentHeaderCombineBackward HDR k)))"

subsection \<open>The heap's part of the address space\<close>

definition in_range :: "nat \<Rightarrow> nat \<Rightarrow> u64 \<Rightarrow> bool" where
  "in_range lo hi x \<longleftrightarrow> lo \<le> unat x \<and> unat x < hi"

definition in_heap :: "'a heap_scheme \<Rightarrow> u64 \<Rightarrow> bool" where
  "in_heap k x \<longleftrightarrow> in_range (unat (HeapStart k)) (unat (HeapEnd k)) x"

text \<open>A physical byte in a frame that was handed out and is neither a page table nor page zero.\<close>

definition owned_byte :: "(u64 \<rightharpoonup> u64 list) \<Rightarrow> 'a ptm_scheme \<Rightarrow> u64 \<Rightarrow> bool" where
  "owned_byte pos k p \<longleftrightarrow>
     (\<exists>g. is_frame g \<and> g \<noteq> 0 \<and> g \<le> LastAddress k \<and> g \<notin> dom pos \<and> offs g p < 4096)"

text \<open>
  The address space around a range of the upper half: the tables are well formed, every
  address of the range has a byte of its own, and page zero is mapped to itself.
\<close>

definition space :: "(u64 \<rightharpoonup> u64 list) \<Rightarrow> nat \<Rightarrow> nat \<Rightarrow> 'a ptm_scheme \<Rightarrow> bool" where
  "space pos lo hi k \<longleftrightarrow>
     vm_inv pos (cr3 k) k \<and> Pml4 k = cr3 k \<and> 0 \<notin> dom pos \<and>
     4096 dvd lo \<and> 4096 dvd hi \<and> 2 ^ 64 - 2 ^ 47 \<le> lo \<and> lo \<le> hi \<and>
     (\<forall>x. in_range lo hi x \<longrightarrow> (\<exists>p. translate (mem k) (cr3 k) x = Some p \<and> owned_byte pos k p)) \<and>
     (\<forall>x y. in_range lo hi x \<longrightarrow> in_range lo hi y \<longrightarrow>
        translate (mem k) (cr3 k) x = translate (mem k) (cr3 k) y \<longrightarrow> x = y) \<and>
     (\<forall>x. unat x < 4096 \<longrightarrow> translate (mem k) (cr3 k) x = Some x)"

definition heap_space :: "(u64 \<rightharpoonup> u64 list) \<Rightarrow> 'a heap_scheme \<Rightarrow> bool" where
  "heap_space pos k \<longleftrightarrow> space pos (unat (HeapStart k)) (unat (HeapEnd k)) k"

lemma page_zero_table:
  assumes "is_frame t" "offs t x < 4096" "unat x < 4096"
  shows "t = 0"
proof -
  have "unat t mod 4096 = 0" "unat t + 4096 \<le> 2 ^ 52" using assms(1) by (auto simp: is_frame_def page_aligned_def)
  moreover from this have "unat t \<le> unat x" using assms(2) offs_range [of t 4096 x] by simp
  ultimately have "unat t = 0" using assms(3) by (metis mod_less order_le_less_trans)
  then show ?thesis by (simp add: unat_eq_0)
qed

lemma owned_byteD:
  assumes "vm_inv pos root k" "owned_byte pos k' p"
  shows "4096 \<le> unat p" and "t \<in> dom pos \<Longrightarrow> \<not> offs t p < 4096"
proof -
  obtain g where g: "is_frame g" "g \<noteq> 0" "g \<notin> dom pos" "offs g p < 4096"
    using assms(2) by (auto simp: owned_byte_def)
  then show "4096 \<le> unat p" using page_zero_table [of g p] by (cases "unat p < 4096") auto
  assume t: "t \<in> dom pos"
  then have "is_frame t" using assms(1) pt_tree_frame by (auto simp: vm_inv_def)
  then show "\<not> offs t p < 4096" using frames_apart [of g t p] g t by blast
qed

lemma heap_spaceD:
  assumes "heap_space pos k"
  shows "vm_inv pos (cr3 k) k" and "Pml4 k = cr3 k" and "0 \<notin> dom pos"
    and "in_heap k x \<Longrightarrow> \<exists>p. translate (mem k) (cr3 k) x = Some p \<and> owned_byte pos k p"
    and "in_heap k x \<Longrightarrow> in_heap k y \<Longrightarrow> translate (mem k) (cr3 k) x = translate (mem k) (cr3 k) y \<Longrightarrow> x = y"
    and "unat x < 4096 \<Longrightarrow> translate (mem k) (cr3 k) x = Some x"
  using assms unfolding heap_space_def space_def in_heap_def by blast+

definition same_but_memory :: "'a heap_scheme \<Rightarrow> 'a heap_scheme \<Rightarrow> bool" where
  "same_but_memory k k' \<longleftrightarrow> (\<exists>m. k' = k\<lparr>mem := m\<rparr>)"

lemma heap_space_mem:
  assumes hs: "heap_space pos k"
    and keep: "\<And>t x. t \<in> dom pos \<Longrightarrow> offs t x < 4096 \<Longrightarrow> m x = mem k x"
  shows "heap_space pos (k\<lparr>mem := m\<rparr>)" and "translate m (cr3 k) v = translate (mem k) (cr3 k) v"
proof -
  note inv = heap_spaceD(1) [OF hs]
  note F = vm_inv_frame [OF inv keep]
  show "translate m (cr3 k) v = translate (mem k) (cr3 k) v" using F(2) by simp
  then show "heap_space pos (k\<lparr>mem := m\<rparr>)"
    using hs F unfolding heap_space_def space_def owned_byte_def by simp
qed

lemma vmapped_iff:
  "n \<le> 2 ^ 64 \<Longrightarrow> vmapped k a n \<longleftrightarrow> (\<forall>x. offs a x < n \<longrightarrow> translate (mem k) (cr3 k) x \<noteq> None)"
proof -
  assume n: "n \<le> 2 ^ 64"
  have "(\<forall>x. offs a x < n \<longrightarrow> P x) \<longleftrightarrow> (\<forall>i<n. P (a + word_of_nat i))" for P
    using n by (metis (no_types, lifting) offs_add_right offs_back order_less_le_trans)
  then show ?thesis by (simp add: vmapped_def list_all_iff Ball_def)
qed

text \<open>Storing in the heap: the bytes change where they should and nowhere else in it.\<close>

lemma vstore_heap:
  assumes hs: "heap_space pos k" and len: "length bs < 4096"
    and own: "\<And>x. offs a x < length bs \<Longrightarrow> in_heap k x"
  shows "\<exists>k'. vstore a bs k = Ret () k' \<and> heap_space pos k' \<and> same_but_memory k k' \<and>
           (\<forall>x. in_heap k x \<longrightarrow> vmem k' x = (if offs a x < length bs then bs ! offs a x else vmem k x))"
proof -
  let ?T = "translate (mem k) (cr3 k)"
  define m where "m = vwrite ?T a bs (mem k)"
  have T: "\<exists>p. ?T x = Some p \<and> owned_byte pos k p" if "in_heap k x" for x
    using heap_spaceD(4) [OF hs that] .
  have inj: "x = y" if "in_heap k x" "in_heap k y" "?T x = ?T y" for x y
    using heap_spaceD(5) [OF hs that] .
  have at: "in_heap k (a + word_of_nat i)" if "i < length bs" for i
    using own [of "a + word_of_nat i"] that len by (simp add: offs_add_right)
  have keep: "m x = mem k x" if "t \<in> dom pos" "offs t x < 4096" for t x
    unfolding m_def
  proof (rule vwrite_other)
    fix i
    assume "i < length bs"
    then obtain p where "?T (a + word_of_nat i) = Some p" "owned_byte pos k p" using T [OF at] by blast
    then show "?T (a + word_of_nat i) \<noteq> Some x" using that owned_byteD(2) [OF heap_spaceD(1) [OF hs]] by auto
  qed
  note H = heap_space_mem [OF hs keep]
  have "vmem (k\<lparr>mem := m\<rparr>) x = (if offs a x < length bs then bs ! offs a x else vmem k x)"
    if x: "in_heap k x" for x
  proof -
    obtain p where p: "?T x = Some p" using T [OF x] by blast
    have v: "vmem (k\<lparr>mem := m\<rparr>) x = m p" "vmem k x = mem k p" using p H(2) by (simp_all add: vmem_def)
    show ?thesis
    proof (cases "offs a x < length bs")
      case True
      have "?T (a + word_of_nat j) \<noteq> Some p" if "j < length bs" "j \<noteq> offs a x" for j
      proof
        assume "?T (a + word_of_nat j) = Some p"
        then have "a + word_of_nat j = x" using inj [OF at [OF that(1)] x] p by simp
        then show False using that len offs_add_right [of j a] by simp
      qed
      then have "m p = bs ! offs a x" unfolding m_def using True p offs_back [of a x]
        by (intro vwrite_at) simp_all
      then show ?thesis using True v by simp
    next
      case False
      have "?T (a + word_of_nat j) \<noteq> Some p" if "j < length bs" for j
      proof
        assume "?T (a + word_of_nat j) = Some p"
        then have "a + word_of_nat j = x" using inj [OF at [OF that] x] p by simp
        then show False using that len False offs_add_right [of j a] by simp
      qed
      then have "m p = mem k p" unfolding m_def by (intro vwrite_other)
      then show ?thesis using False v by simp
    qed
  qed
  moreover have "vmapped k a (length bs)" using len T own by (subst vmapped_iff) (simp, blast)
  ultimately show ?thesis using H(1)
    by (intro exI [of _ "k\<lparr>mem := m\<rparr>"]) (auto simp: vstore_def m_def same_but_memory_def)
qed

interpretation hs: address_space "heap_space pos" in_heap vmem same_but_memory vload8 vload64 vstore
  for pos :: "u64 \<rightharpoonup> u64 list"
proof unfold_locales
  fix s s1 s2 :: "'a heap_scheme" and a :: u64 and bs :: "u8 list"
  show "same_but_memory s s" unfolding same_but_memory_def by (rule exI [of _ "mem s"]) simp
  show "same_but_memory s s2" if "same_but_memory s s1" "same_but_memory s1 s2"
    using that by (auto simp: same_but_memory_def)
  show "in_heap s1 = in_heap s" if "same_but_memory s s1"
  proof -
    obtain m where "s1 = s\<lparr>mem := m\<rparr>" using \<open>same_but_memory s s1\<close> unfolding same_but_memory_def by blast
    then show ?thesis by (simp add: in_heap_def fun_eq_iff)
  qed
  show "vload8 a s = Ret (vmem s a) s" if "heap_space pos s" "in_heap s a"
    using that heap_spaceD(4) [OF that] by (auto simp: vload8_def vmapped_iff)
  show "vload64 a s = Ret (load64 (vmem s) a) s" if "heap_space pos s" "\<And>x. offs a x < 8 \<Longrightarrow> in_heap s x"
  proof -
    have "\<forall>x. in_heap s x \<longrightarrow> translate (mem s) (cr3 s) x \<noteq> None"
      using heap_spaceD(4) [OF that(1)] by auto
    then have "vmapped s a 8" using that(2) by (simp add: vmapped_iff)
    then show ?thesis by (simp add: vload64_def)
  qed
qed (rule vstore_heap)

subsection \<open>Headers as values\<close>

text \<open>A header with its numbers as naturals, and where it lies in a byte memory.\<close>

record hdr =
  hLen :: nat
  hNext :: nat
  hLast :: nat
  hFree :: bool

abbreviation wn :: "nat \<Rightarrow> u64" where
  "wn n \<equiv> word_of_nat n"

definition hdr_at :: "memory \<Rightarrow> nat \<Rightarrow> hdr" where
  "hdr_at m a =
     \<lparr>hLen = unat (load64 m (wn a)), hNext = unat (load64 m (wn a + 8)),
      hLast = unat (load64 m (wn a + 16)), hFree = (m (wn a + 24) \<noteq> 0)\<rparr>"

lemma hdr_at_cong:
  assumes "\<And>x. offs (wn a) x < 32 \<Longrightarrow> m x = m' x"
  shows "hdr_at m a = hdr_at m' a"
proof -
  have f: "offs (wn a + 8) x < 8 \<Longrightarrow> offs (wn a) x < 32" "offs (wn a + 16) x < 8 \<Longrightarrow> offs (wn a) x < 32" for x
    using offs_field [of 8 8 "wn a" x] offs_field [of 16 8 "wn a" x] by auto
  have "m (wn a + 24) = m' (wn a + 24)" using offs_add_right [of 24 "wn a"] by (intro assms) simp
  moreover have "load64 m (wn a) = load64 m' (wn a)" by (rule load64_cong) (simp add: assms)
  moreover have "load64 m (wn a + 8) = load64 m' (wn a + 8)" by (rule load64_cong) (simp add: assms f)
  moreover have "load64 m (wn a + 16) = load64 m' (wn a + 16)" by (rule load64_cong) (simp add: assms f)
  ultimately show ?thesis by (simp add: hdr_at_def)
qed

lemma field_ranges:
  "disjoint_ranges a 8 (a + 8) 8" "disjoint_ranges a 8 (a + 16) 8" "disjoint_ranges (a + 8) 8 (a + 16) 8"
  "disjoint_ranges (a + 8) 8 a 8" "disjoint_ranges (a + 16) 8 a 8" "disjoint_ranges (a + 16) 8 (a + 8) 8"
  "\<not> offs a (a + 24) < 8" "\<not> offs (a + 8) (a + 24) < 8" "\<not> offs (a + 16) (a + 24) < 8"
  "offs a x < 8 \<Longrightarrow> x \<noteq> a + 24" "offs (a + 8) x < 8 \<Longrightarrow> x \<noteq> a + 24" "offs (a + 16) x < 8 \<Longrightarrow> x \<noteq> a + 24"
  using offs_field [of 8 8 a] offs_field [of 16 8 a] offs_add_right [of 24 a]
  by (auto simp: disjoint_ranges_def)

lemma hdr_at_store:
  assumes "w < 2 ^ 64"
  shows "hdr_at (store64 m (wn a) (wn w)) a = (hdr_at m a)\<lparr>hLen := w\<rparr>"
    and "hdr_at (store64 m (wn a + 8) (wn w)) a = (hdr_at m a)\<lparr>hNext := w\<rparr>"
    and "hdr_at (store64 m (wn a + 16) (wn w)) a = (hdr_at m a)\<lparr>hLast := w\<rparr>"
  using unat_word_of_nat64 [OF assms]
  by (simp_all add: hdr_at_def load64_store64_disjoint field_ranges store64_apply)

lemma hdr_at_store_free: "hdr_at (m(wn a + 24 := of_bool b)) a = (hdr_at m a)\<lparr>hFree := b\<rparr>"
proof -
  have "load64 (m(wn a + 24 := of_bool b)) c = load64 m c"
    if "\<And>x. offs c x < 8 \<Longrightarrow> x \<noteq> wn a + 24" for c
    using that by (intro load64_cong) auto
  then show ?thesis by (simp add: hdr_at_def field_ranges)
qed

subsection \<open>Symbolic states\<close>

text \<open>
  \<open>hst A pos k0 k H l\<close>: since \<open>k0\<close> only memory and \<^verbatim>\<open>LastHeapHDR\<close> have changed; the headers at
  the addresses \<open>A\<close> hold the values \<open>H\<close>, \<^verbatim>\<open>LastHeapHDR\<close> is \<open>l\<close>, and heap bytes outside those
  headers are as they were.
\<close>

definition spaced :: "nat set \<Rightarrow> bool" where
  "spaced A \<longleftrightarrow> (\<forall>a\<in>A. \<forall>b\<in>A. a \<noteq> b \<longrightarrow> a + 32 \<le> b \<or> b + 32 \<le> a)"

definition hst ::
  "nat set \<Rightarrow> (u64 \<rightharpoonup> u64 list) \<Rightarrow> 'a heap_scheme \<Rightarrow> 'a heap_scheme \<Rightarrow> (nat \<Rightarrow> hdr) \<Rightarrow> nat \<Rightarrow> bool" where
  "hst A pos k0 k H l \<longleftrightarrow>
     heap_space pos k \<and> spaced A \<and>
     (\<forall>a\<in>A. unat (HeapStart k0) \<le> a \<and> a + 32 \<le> unat (HeapEnd k0)) \<and>
     (\<exists>m. k = k0\<lparr>mem := m, LastHeapHDR := wn l\<rparr>) \<and> l < 2 ^ 64 \<and>
     (\<forall>a\<in>A. hdr_at (vmem k) a = H a) \<and>
     (\<forall>x. in_heap k0 x \<longrightarrow> (\<forall>a\<in>A. \<not> offs (wn a) x < 32) \<longrightarrow> vmem k x = vmem k0 x)"

definition wp :: "('a, 's) run \<Rightarrow> ('a \<Rightarrow> 's \<Rightarrow> bool) \<Rightarrow> bool" where
  "wp r Q \<longleftrightarrow> (\<exists>x s. r = Ret x s \<and> Q x s)"

lemma wp_and_then: "wp r (\<lambda>x s. wp (f x s) Q) \<Longrightarrow> wp (and_then r f) Q"
  by (auto simp: wp_def)

lemma wp_Ret: "Q x s \<Longrightarrow> wp (Ret x s) Q"
  by (auto simp: wp_def)

lemma below_word:
  assumes "n \<le> unat (w :: u64)"
  shows "n < 2 ^ 64"
proof -
  have "unat w < 2 ^ 64" by simp
  with assms show ?thesis by (rule le_less_trans)
qed

lemma hst_bound:
  assumes "hst A pos k0 k H l" "a \<in> A"
  shows "unat (HeapStart k0) \<le> a" and "a + 32 \<le> unat (HeapEnd k0)" and "a + 32 < 2 ^ 64"
proof -
  show "unat (HeapStart k0) \<le> a" "a + 32 \<le> unat (HeapEnd k0)" using assms by (auto simp: hst_def)
  then show "a + 32 < 2 ^ 64" using below_word by blast
qed

lemma hst_range:
  assumes "hst A pos k0 k H l" "a \<in> A"
  shows "unat (wn a) = a" and "offs (wn a) x < 32 \<Longrightarrow> in_heap k x"
proof -
  note b = hst_bound [OF assms]
  then show u: "unat (wn a) = a" by (intro unat_word_of_nat64) simp
  assume x: "offs (wn a) x < 32"
  have "unat (wn a) + 32 \<le> 2 ^ 64" using b u by simp
  then have "a \<le> unat x \<and> unat x < a + 32" using offs_range [of "wn a" 32 x] x u by simp
  then have "in_heap k0 x" using b by (simp add: in_heap_def in_range_def)
  then show "in_heap k x" using assms by (auto simp: hst_def in_heap_def)
qed

lemma hst_apart:
  assumes "hst A pos k0 k H l" "a \<in> A" "b \<in> A" "a \<noteq> b" "offs (wn a) x < 32"
  shows "\<not> offs (wn b) x < 32"
proof -
  have u: "unat (wn a) = a" "unat (wn b) = b" using hst_range(1) assms by blast+
  have "a + 32 \<le> 2 ^ 64" "b + 32 \<le> 2 ^ 64"
    using hst_bound(3) [OF assms(1,2)] hst_bound(3) [OF assms(1,3)] by simp_all
  moreover have "a + 32 \<le> b \<or> b + 32 \<le> a" using assms(1-4) unfolding hst_def spaced_def by blast
  ultimately show ?thesis using offs_range [of "wn a" 32 x] offs_range [of "wn b" 32 x] u assms(5) by auto
qed

lemma hst_get:
  assumes "hst A pos k0 k H l" "a \<in> A"
  shows "get_Length (wn a) k = Ret (wn (hLen (H a))) k" and "get_Next (wn a) k = Ret (wn (hNext (H a))) k"
    and "get_Last (wn a) k = Ret (wn (hLast (H a))) k" and "get_IsFree (wn a) k = Ret (hFree (H a)) k"
    and "hLen (H a) < 2 ^ 64" "hNext (H a) < 2 ^ 64" "hLast (H a) < 2 ^ 64"
proof -
  have hs: "heap_space pos k" and H: "hdr_at (vmem k) a = H a" using assms by (auto simp: hst_def)
  have own: "in_heap k x" if "offs (wn a + wn i) x < n" "i + n \<le> 32" "i < 32" for x i n
    using hst_range(2) [OF assms, of x] offs_field [of i n "wn a" x] that by simp
  note o8 = own [of 8 _ 8, simplified] own [of 16 _ 8, simplified] own [of 0 _ 8, simplified]
  have "in_heap k (wn a + 24)" using own [of 24 "wn a + 24" 1] by simp
  then have "get_IsFree (wn a) k = Ret (hFree (hdr_at (vmem k) a)) k"
    by (simp add: get_IsFree_def hs.load8 [OF hs] hdr_at_def)
  then show "get_IsFree (wn a) k = Ret (hFree (H a)) k" unfolding H .
  have "get_Length (wn a) k = Ret (wn (hLen (hdr_at (vmem k) a))) k"
    "get_Next (wn a) k = Ret (wn (hNext (hdr_at (vmem k) a))) k"
    "get_Last (wn a) k = Ret (wn (hLast (hdr_at (vmem k) a))) k"
    using o8 by (simp_all add: get_Length_def get_Next_def get_Last_def hs.load64 [OF hs] hdr_at_def)
  then show "get_Length (wn a) k = Ret (wn (hLen (H a))) k" "get_Next (wn a) k = Ret (wn (hNext (H a))) k"
    "get_Last (wn a) k = Ret (wn (hLast (H a))) k" unfolding H .
  have "hLen (hdr_at (vmem k) a) < 2 ^ 64" "hNext (hdr_at (vmem k) a) < 2 ^ 64" "hLast (hdr_at (vmem k) a) < 2 ^ 64"
    by (simp_all add: hdr_at_def)
  then show "hLen (H a) < 2 ^ 64" "hNext (H a) < 2 ^ 64" "hLast (H a) < 2 ^ 64" unfolding H .
qed

text \<open>A memory change inside one header is a change of the value at its address.\<close>

lemma hst_update:
  assumes S: "hst A pos k0 k H l" and a: "a \<in> A" and hs: "heap_space pos k'"
    and same: "same_but_memory k k'"
    and view: "\<And>x. in_heap k x \<Longrightarrow> vmem k' x = m x"
    and new: "hdr_at m a = h" and frame: "\<And>x. \<not> offs (wn a) x < 32 \<Longrightarrow> m x = vmem k x"
  shows "hst A pos k0 k' (H(a := h)) l"
proof -
  obtain mm where k: "k = k0\<lparr>mem := mm, LastHeapHDR := wn l\<rparr>" using S by (auto simp: hst_def)
  obtain mm' where k': "k' = k\<lparr>mem := mm'\<rparr>" using same by (auto simp: same_but_memory_def)
  have "hdr_at (vmem k') a = h"
    using hst_range(2) [OF S a] view new by (subst hdr_at_cong [of a "vmem k'" m]) auto
  moreover have "hdr_at (vmem k') b = H b" if "b \<in> A" "b \<noteq> a" for b
  proof -
    have "hdr_at (vmem k') b = hdr_at (vmem k) b"
    proof (rule hdr_at_cong)
      fix x
      assume x: "offs (wn b) x < 32"
      then show "vmem k' x = vmem k x"
        using hst_range(2) [OF S that(1) x] hst_apart [OF S that(1) a that(2) x] view frame by simp
    qed
    then show ?thesis using S that by (simp add: hst_def)
  qed
  moreover have "vmem k' x = vmem k0 x" if "in_heap k0 x" "\<forall>a\<in>A. \<not> offs (wn a) x < 32" for x
  proof -
    have "in_heap k x" using that(1) by (simp add: k in_heap_def)
    then show ?thesis using view frame that a S by (auto simp: hst_def)
  qed
  moreover have "\<exists>m. k' = k0\<lparr>mem := m, LastHeapHDR := wn l\<rparr>" unfolding k' k by (rule exI [of _ mm']) simp
  ultimately show ?thesis using S hs unfolding hst_def by auto
qed

lemma wp_get:
  assumes "hst A pos k0 k H l" "a \<in> A"
  shows "Q (wn (hLen (H a))) k \<Longrightarrow> wp (get_Length (wn a) k) Q"
    and "Q (wn (hNext (H a))) k \<Longrightarrow> wp (get_Next (wn a) k) Q"
    and "Q (wn (hLast (H a))) k \<Longrightarrow> wp (get_Last (wn a) k) Q"
    and "R (hFree (H a)) k \<Longrightarrow> wp (get_IsFree (wn a) k) R"
  using hst_get [OF assms] by (simp_all add: wp_def)

lemma hst_store64:
  assumes S: "hst A pos k0 k H l" and a: "a \<in> A" and i: "i + 8 \<le> 32"
    and new: "\<And>m. hdr_at m a = H a \<Longrightarrow> hdr_at (store64 m (wn a + wn i) w) a = h"
  obtains k' where "vstore64 (wn a + wn i) w k = Ret () k'" and "hst A pos k0 k' (H(a := h)) l"
proof -
  have hs: "heap_space pos k" and H: "hdr_at (vmem k) a = H a" using S a by (auto simp: hst_def)
  have f: "offs (wn a + wn i) x < 8 \<Longrightarrow> offs (wn a) x < 32" for x using offs_field [of i 8 "wn a" x] i by simp
  obtain k' where k': "vstore (wn a + wn i) (le_bytes w) k = Ret () k'" "heap_space pos k'" "same_but_memory k k'"
    "\<And>x. in_heap k x \<Longrightarrow> vmem k' x = store64 (vmem k) (wn a + wn i) w x"
    using hs.store64_view [OF hs, of "wn a + wn i" w] f hst_range(2) [OF S a] by blast
  have "hst A pos k0 k' (H(a := h)) l"
    by (rule hst_update [OF S a k'(2-4) new]) (use H f in \<open>auto simp: store64_apply\<close>)
  then show ?thesis using that [of k'] k'(1) by (simp add: vstore64_def)
qed

lemma wp_set:
  assumes S: "hst A pos k0 k H l" and a: "a \<in> A" and w: "w < 2 ^ 64"
  shows "(\<And>k'. hst A pos k0 k' (H(a := (H a)\<lparr>hLen := w\<rparr>)) l \<Longrightarrow> Q () k') \<Longrightarrow> wp (set_Length (wn a) (wn w) k) Q"
    and "(\<And>k'. hst A pos k0 k' (H(a := (H a)\<lparr>hNext := w\<rparr>)) l \<Longrightarrow> Q () k') \<Longrightarrow> wp (set_Next (wn a) (wn w) k) Q"
    and "(\<And>k'. hst A pos k0 k' (H(a := (H a)\<lparr>hLast := w\<rparr>)) l \<Longrightarrow> Q () k') \<Longrightarrow> wp (set_Last (wn a) (wn w) k) Q"
    and "(\<And>k'. hst A pos k0 k' (H(a := (H a)\<lparr>hFree := b\<rparr>)) l \<Longrightarrow> Q () k') \<Longrightarrow> wp (set_IsFree (wn a) b k) Q"
proof -
  note st = hdr_at_store [OF w]
  show "wp (set_Length (wn a) (wn w) k) Q" if "\<And>k'. hst A pos k0 k' (H(a := (H a)\<lparr>hLen := w\<rparr>)) l \<Longrightarrow> Q () k'"
    using hst_store64 [OF S a, of 0 "wn w"] st(1) that by (force simp: wp_def set_Length_def)
  show "wp (set_Next (wn a) (wn w) k) Q" if "\<And>k'. hst A pos k0 k' (H(a := (H a)\<lparr>hNext := w\<rparr>)) l \<Longrightarrow> Q () k'"
    using hst_store64 [OF S a, of 8 "wn w"] st(2) that by (force simp: wp_def set_Next_def)
  show "wp (set_Last (wn a) (wn w) k) Q" if "\<And>k'. hst A pos k0 k' (H(a := (H a)\<lparr>hLast := w\<rparr>)) l \<Longrightarrow> Q () k'"
    using hst_store64 [OF S a, of 16 "wn w"] st(3) that by (force simp: wp_def set_Last_def)
  show "wp (set_IsFree (wn a) b k) Q" if Q: "\<And>k'. hst A pos k0 k' (H(a := (H a)\<lparr>hFree := b\<rparr>)) l \<Longrightarrow> Q () k'"
  proof -
    have hs: "heap_space pos k" and H: "hdr_at (vmem k) a = H a" using S a by (auto simp: hst_def)
    have f: "offs (wn a) (wn a + 24) = 24" using offs_add_right [of 24 "wn a"] by simp
    obtain k' where k': "vstore (wn a + 24) [of_bool b] k = Ret () k'" "heap_space pos k'" "same_but_memory k k'"
      "\<And>x. in_heap k x \<Longrightarrow> vmem k' x = ((vmem k)(wn a + 24 := of_bool b)) x"
      using hs.store8_view [OF hs, of "wn a + 24" "of_bool b"] hst_range(2) [OF S a] f by auto
    have "hst A pos k0 k' (H(a := (H a)\<lparr>hFree := b\<rparr>)) l"
    proof (rule hst_update [OF S a k'(2,3)])
      show "vmem k' x = ((vmem k)(wn a + 24 := of_bool b)) x" if "in_heap k x" for x using k'(4) that .
      show "hdr_at ((vmem k)(wn a + 24 := of_bool b)) a = (H a)\<lparr>hFree := b\<rparr>" using H hdr_at_store_free by simp
      show "((vmem k)(wn a + 24 := of_bool b)) x = vmem k x" if "\<not> offs (wn a) x < 32" for x using that f by auto
    qed
    then show ?thesis using Q k'(1) by (simp add: wp_def set_IsFree_def vstore8_def)
  qed
qed

lemma hst_last:
  assumes "hst A pos k0 k H l" "l' < 2 ^ 64"
  shows "LastHeapHDR k = wn l" and "hst A pos k0 (k\<lparr>LastHeapHDR := wn l'\<rparr>) H l'"
proof -
  show "LastHeapHDR k = wn l" using assms by (auto simp: hst_def)
  have "vmem (k\<lparr>LastHeapHDR := wn l'\<rparr>) = vmem k" by (simp add: vmem_def cong: option.case_cong)
  moreover have "heap_space pos (k\<lparr>LastHeapHDR := wn l'\<rparr>) = heap_space pos k"
    by (simp add: heap_space_def space_def owned_byte_def vm_inv_def)
  moreover have "\<exists>m. k\<lparr>LastHeapHDR := wn l'\<rparr> = k0\<lparr>mem := m, LastHeapHDR := wn l'\<rparr>"
    using assms(1) by (auto simp: hst_def)
  ultimately show "hst A pos k0 (k\<lparr>LastHeapHDR := wn l'\<rparr>) H l'"
    using assms unfolding hst_def by simp
qed

text \<open>
  \<^verbatim>\<open>SegmentHeaderSplit\<close> stores through the null pointer when it splits the last segment. The
  store lands in page zero, which no page table and no heap page occupies.
\<close>

lemma wp_set_null:
  assumes S: "hst A pos k0 k H l"
    and Q: "\<And>k'. hst A pos k0 k' H l \<Longrightarrow> Q () k'"
  shows "wp (set_Last 0 w k) Q"
proof -
  let ?T = "translate (mem k) (cr3 k)"
  have hs: "heap_space pos k" using S by (simp add: hst_def)
  have Z: "?T x = Some x" if "unat x < 4096" for x using heap_spaceD(6) [OF hs that] .
  have len: "length (le_bytes w) = 8" by (simp add: le_bytes_def)
  have lo: "unat (16 + wn i) < 4096" if "i < 8" for i using that by (simp add: unat_word_ariths unat_of_nat)
  define m where "m = vwrite ?T 16 (le_bytes w) (mem k)"
  have other: "m x = mem k x" if "\<not> unat x < 4096" for x
    unfolding m_def using Z lo that by (intro vwrite_other) (auto simp: len)
  have tree: "pt_tree pos (cr3 k) (mem k)" and nz: "0 \<notin> dom pos" using heap_spaceD(1,3) [OF hs] by (auto simp: vm_inv_def)
  have keep: "m x = mem k x" if "t \<in> dom pos" "offs t x < 4096" for t x
  proof (rule other, rule notI)
    assume "unat x < 4096"
    then have "t = 0" using page_zero_table that pt_tree_frame [OF tree] by blast
    then show False using that(1) nz by simp
  qed
  let ?k = "k\<lparr>mem := m\<rparr>"
  note HS = heap_space_mem [OF hs keep]
  have view: "vmem ?k x = vmem k x" if x: "in_heap k x" for x
  proof -
    obtain p where "?T x = Some p" "4096 \<le> unat p" using heap_spaceD(4) [OF hs x] owned_byteD(1) [OF heap_spaceD(1) [OF hs]] by blast
    then show ?thesis using other [of p] HS(2) by (simp add: vmem_def)
  qed
  have "vmapped k 16 8" using Z lo by (simp add: vmapped_def list_all_iff)
  then have run: "set_Last 0 w k = Ret () ?k" by (simp add: set_Last_def vstore64_def vstore_def len m_def)
  have "hdr_at (vmem ?k) a = H a" if "a \<in> A" for a
  proof -
    have "hdr_at (vmem ?k) a = hdr_at (vmem k) a"
      by (rule hdr_at_cong) (use view hst_range(2) [OF S that] in blast)
    then show ?thesis using S that by (simp add: hst_def)
  qed
  moreover have "vmem ?k x = vmem k0 x" if "in_heap k0 x" "\<forall>a\<in>A. \<not> offs (wn a) x < 32" for x
  proof -
    have "in_heap k x" using that(1) S by (auto simp: hst_def in_heap_def)
    then show ?thesis using view that S by (simp add: hst_def)
  qed
  moreover have "\<exists>m. ?k = k0\<lparr>mem := m, LastHeapHDR := wn l\<rparr>"
  proof -
    obtain mm where "k = k0\<lparr>mem := mm, LastHeapHDR := wn l\<rparr>" using S by (auto simp: hst_def)
    then show ?thesis by (intro exI [of _ m]) simp
  qed
  moreover have "heap_space pos ?k" by (rule HS(1))
  ultimately have "hst A pos k0 ?k H l" using S unfolding hst_def by blast
  then show ?thesis using run Q by (auto simp: wp_def)
qed

subsection \<open>What joining and splitting do to the headers\<close>

lemma hst_last_bound: "hst A pos k0 k H l \<Longrightarrow> l < 2 ^ 64"
  by (simp add: hst_def)

lemma wn_eq_iff:
  assumes "n < 2 ^ 64" "n' < 2 ^ 64"
  shows "wn n = wn n' \<longleftrightarrow> n = n'"
proof
  assume "wn n = wn n'"
  then have "unat (wn n) = unat (wn n')" by simp
  then show "n = n'" unfolding unat_word_of_nat64 [OF assms(1)] unat_word_of_nat64 [OF assms(2)] .
qed simp

lemma wn_0_iff: "n < 2 ^ 64 \<Longrightarrow> wn n = 0 \<longleftrightarrow> n = 0"
  using wn_eq_iff [of n 0] by simp

lemma combine_stop:
  assumes S: "hst A pos k0 k H l" and a: "a \<in> A"
    and c: "hNext (H a) = 0 \<or> hNext (H a) \<in> A \<and> \<not> hFree (H (hNext (H a)))"
  shows "SegmentHeaderCombineForward (wn a) k = Ret () k"
  using c
proof
  assume "hNext (H a) = 0"
  then show ?thesis using hst_get [OF S a] by (simp add: SegmentHeaderCombineForward_def)
next
  assume "hNext (H a) \<in> A \<and> \<not> hFree (H (hNext (H a)))"
  then show ?thesis using hst_get [OF S a] hst_get [OF S, of "hNext (H a)"]
    by (simp add: SegmentHeaderCombineForward_def)
qed

definition combined :: "nat \<Rightarrow> (nat \<Rightarrow> hdr) \<Rightarrow> nat \<Rightarrow> hdr" where
  "combined a H =
     (let nx = hNext (H a); nn = hNext (H nx);
          H1 = (if nn \<noteq> 0 then H(nn := (H nn)\<lparr>hLast := a\<rparr>) else H)
      in H1(a := (H1 a)\<lparr>hLen := hLen (H a) + hLen (H nx) + 32, hNext := nn\<rparr>))"

lemma combine_join:
  assumes S: "hst A pos k0 k H l" and a: "a \<in> A"
    and nx: "nx = hNext (H a)" "nx \<noteq> 0" "nx \<in> A" "hFree (H nx)" "nx \<noteq> a"
    and nn: "nn = hNext (H nx)" "nn = 0 \<or> nn \<in> A \<and> nn \<noteq> a \<and> nn \<noteq> nx"
    and len: "hLen (H a) + hLen (H nx) + 32 < 2 ^ 64"
  shows "wp (SegmentHeaderCombineForward (wn a) k)
           (\<lambda>_ k'. hst A pos k0 k' (combined a H) (if l = nx then a else l))"
proof -
  have b: "a < 2 ^ 64" "nx < 2 ^ 64" "nn < 2 ^ 64" "l < 2 ^ 64"
    using hst_bound(3) [OF S a] hst_bound(3) [OF S nx(3)] hst_get(6) [OF S nx(3)] hst_last_bound [OF S]
    by (simp_all add: nn(1))
  define l' where "l' = (if l = nx then a else l)"
  define k1 where "k1 = (if wn nx = LastHeapHDR k then k\<lparr>LastHeapHDR := wn a\<rparr> else k)"
  have S1: "hst A pos k0 k1 H l'"
    using S hst_last [OF S, of a] b wn_eq_iff [of nx l] by (auto simp: k1_def l'_def)
  define H1 where "H1 = (if nn \<noteq> 0 then H(nn := (H nn)\<lparr>hLast := a\<rparr>) else H)"
  have link: "wp (if wn nn \<noteq> 0 then set_Last (wn nn) (wn a) k1 else Ret () k1) (\<lambda>_ k2. hst A pos k0 k2 H1 l')"
  proof (cases "nn = 0")
    case True
    then show ?thesis using S1 by (simp add: wp_def H1_def)
  next
    case False
    then show ?thesis using nn b wn_0_iff [of nn] wp_set(3) [OF S1, of nn a]
      by (simp add: H1_def)
  qed
  obtain k2 where k2: "(if wn nn \<noteq> 0 then set_Last (wn nn) (wn a) k1 else Ret () k1) = Ret () k2"
    and S2: "hst A pos k0 k2 H1 l'" using link by (auto simp: wp_def)
  have H1: "hLen (H1 a) = hLen (H a)" "hNext (H1 a) = nx" "hLen (H1 nx) = hLen (H nx)" "hNext (H1 nx) = nn"
    using nx nn by (auto simp: H1_def)
  let ?len = "hLen (H a) + hLen (H nx) + 32"
  obtain k3 where k3: "set_Length (wn a) (wn ?len) k2 = Ret () k3"
    and S3: "hst A pos k0 k3 (H1(a := (H1 a)\<lparr>hLen := ?len\<rparr>)) l'"
    using wp_set(1) [OF S2 a len, of "\<lambda>_ k'. hst A pos k0 k' (H1(a := (H1 a)\<lparr>hLen := ?len\<rparr>)) l'"]
    by (auto simp: wp_def)
  obtain k4 where k4: "set_Next (wn a) (wn nn) k3 = Ret () k4"
    and S4: "hst A pos k0 k4 (H1(a := (H1 a)\<lparr>hLen := ?len, hNext := nn\<rparr>)) l'"
    using wp_set(2) [OF S3 a b(3), of "\<lambda>_ k'. hst A pos k0 k' (H1(a := (H1 a)\<lparr>hLen := ?len, hNext := nn\<rparr>)) l'"]
    by (auto simp: wp_def)
  have "combined a H = H1(a := (H1 a)\<lparr>hLen := ?len, hNext := nn\<rparr>)"
    using nx(1) nn(1) by (simp add: combined_def H1_def Let_def)
  moreover have "SegmentHeaderCombineForward (wn a) k = Ret () k4"
  proof -
    have g: "get_Next (wn a) k = Ret (wn nx) k" "(wn nx = 0) = False" "get_IsFree (wn nx) k = Ret True k"
      "get_Next (wn nx) k1 = Ret (wn nn) k1"
      "get_Length (wn a) k2 = Ret (wn (hLen (H a))) k2" "get_Next (wn a) k2 = Ret (wn nx) k2"
      "get_Length (wn nx) k2 = Ret (wn (hLen (H nx))) k2"
      "set_Length (wn a) (wn (hLen (H a)) + wn (hLen (H nx)) + 32) k2 = Ret () k3"
      "get_Next (wn a) k3 = Ret (wn nx) k3" "get_Next (wn nx) k3 = Ret (wn nn) k3"
      using hst_get [OF S a] hst_get [OF S nx(3)] hst_get [OF S1 nx(3)] hst_get [OF S2 a] hst_get [OF S2 nx(3)]
        hst_get [OF S3 a] hst_get [OF S3 nx(3)] H1 nx(2,4,5) wn_0_iff [OF b(2)] k3
      by (simp_all flip: nx(1) nn(1))
    show ?thesis
      unfolding SegmentHeaderCombineForward_def sizeof_HeapSegmentHeader_def
      by (simp only: g and_then.simps if_False not_True_eq_False Let_def k1_def [symmetric] k2 k4)
  qed
  ultimately show ?thesis using S4 by (simp add: wp_def l'_def)
qed

lemma sint_diff:
  assumes "L < 2 ^ 63" "sz \<le> L"
  shows "sint (wn L - wn sz - 32) = int L - int sz - 32"
proof -
  have eq: "wn L - wn sz - 32 = word_of_int (int L - int sz - 32)" by simp
  have "sint (wn L - wn sz - 32) = signed_take_bit 63 (int L - int sz - 32)"
    unfolding eq signed_of_int by simp
  also have "\<dots> = int L - int sz - 32" using assms by (intro signed_take_bit_int_eq_self) auto
  finally show ?thesis .
qed

lemma split_keep:
  assumes S: "hst A pos k0 k H l" and a: "a \<in> A" and sz: "sz < hLen (H a)" "hLen (H a) < sz + 48" "hLen (H a) < 2 ^ 63"
  shows "SegmentHeaderSplit (wn a) (wn sz) k = Ret 0 k"
proof -
  have "sint (wn (hLen (H a)) - wn sz - 32) < 16" using sint_diff [OF sz(3), of sz] sz by simp
  then show ?thesis using hst_get [OF S a]
    by (simp add: SegmentHeaderSplit_def sizeof_HeapSegmentHeader_def Let_def)
qed

definition split_hdrs :: "nat \<Rightarrow> nat \<Rightarrow> (nat \<Rightarrow> hdr) \<Rightarrow> nat \<Rightarrow> hdr" where
  "split_hdrs a sz H =
     (let nx = hNext (H a); new = a + sz + 32;
          H1 = (if nx \<noteq> 0 then H(nx := (H nx)\<lparr>hLast := new\<rparr>) else H)
      in H1(new := \<lparr>hLen = hLen (H a) - sz - 32, hNext = nx, hLast = a, hFree = hFree (H a)\<rparr>,
            a := (H a)\<lparr>hLen := sz, hNext := new\<rparr>))"

lemma split_cut:
  assumes S: "hst A pos k0 k H l" and a: "a \<in> A"
    and sz: "16 \<le> sz" "sz + 48 \<le> hLen (H a)" "hLen (H a) < 2 ^ 63"
    and new: "new = a + sz + 32" "new \<in> A"
    and nx: "nx = hNext (H a)" "nx = 0 \<or> nx \<in> A \<and> nx \<noteq> a \<and> nx \<noteq> new"
  shows "wp (SegmentHeaderSplit (wn a) (wn sz) k)
           (\<lambda>_ k'. hst A pos k0 k' (split_hdrs a sz H) (if l = a then new else l))"
proof -
  let ?L = "hLen (H a) - sz - 32"
  have b: "a < 2 ^ 64" "new < 2 ^ 64" "nx < 2 ^ 64" "l < 2 ^ 64" "?L < 2 ^ 64" "sz < 2 ^ 64"
    using hst_bound(3) [OF S a] hst_bound(3) [OF S new(2)] hst_get(6) [OF S a] hst_last_bound [OF S] sz
    by (simp_all add: nx(1))
  have an: "a \<noteq> new" using new(1) by simp
  have int: "sint (wn (hLen (H a)) - wn sz - 32) = int ?L"
    using sint_diff [OF sz(3), of sz] sz by simp
  have L: "wn (hLen (H a)) - wn sz - 32 = wn ?L" using sz by simp
  define H1 where "H1 = (if nx \<noteq> 0 then H(nx := (H nx)\<lparr>hLast := new\<rparr>) else H)"
  obtain k1 where k1: "set_Last (wn nx) (wn new) k = Ret () k1" and S1: "hst A pos k0 k1 H1 l"
  proof (cases "nx = 0")
    case True
    then show ?thesis using wp_set_null [OF S, of "\<lambda>_ k'. hst A pos k0 k' H1 l" "wn new"] that
      by (auto simp: wp_def H1_def)
  next
    case False
    then show ?thesis using wp_set(3) [OF S _ b(2), of nx "\<lambda>_ k'. hst A pos k0 k' H1 l"] nx(2) that
      by (auto simp: wp_def H1_def)
  qed
  have H1: "hNext (H1 a) = nx" "hFree (H1 a) = hFree (H a)" "H1 a = H a" using nx an by (auto simp: H1_def)
  define H2 where "H2 = H1(new := (H1 new)\<lparr>hNext := nx\<rparr>)"
  obtain k2 where k2: "set_Next (wn new) (wn nx) k1 = Ret () k2" and S2: "hst A pos k0 k2 H2 l"
    using wp_set(2) [OF S1 new(2) b(3), of "\<lambda>_ k'. hst A pos k0 k' H2 l"] by (auto simp: wp_def H2_def)
  define H3 where "H3 = H2(a := (H2 a)\<lparr>hNext := new\<rparr>)"
  obtain k3 where k3: "set_Next (wn a) (wn new) k2 = Ret () k3" and S3: "hst A pos k0 k3 H3 l"
    using wp_set(2) [OF S2 a b(2), of "\<lambda>_ k'. hst A pos k0 k' H3 l"] by (auto simp: wp_def H3_def)
  define H4 where "H4 = H3(new := (H3 new)\<lparr>hLast := a\<rparr>)"
  obtain k4 where k4: "set_Last (wn new) (wn a) k3 = Ret () k4" and S4: "hst A pos k0 k4 H4 l"
    using wp_set(3) [OF S3 new(2) b(1), of "\<lambda>_ k'. hst A pos k0 k' H4 l"] by (auto simp: wp_def H4_def)
  define H5 where "H5 = H4(new := (H4 new)\<lparr>hLen := ?L\<rparr>)"
  obtain k5 where k5: "set_Length (wn new) (wn ?L) k4 = Ret () k5" and S5: "hst A pos k0 k5 H5 l"
    using wp_set(1) [OF S4 new(2) b(5), of "\<lambda>_ k'. hst A pos k0 k' H5 l"] by (auto simp: wp_def H5_def)
  define H6 where "H6 = H5(new := (H5 new)\<lparr>hFree := hFree (H a)\<rparr>)"
  obtain k6 where k6: "set_IsFree (wn new) (hFree (H a)) k5 = Ret () k6" and S6: "hst A pos k0 k6 H6 l"
    using wp_set(4) [OF S5 new(2) b(5), of "hFree (H a)" "\<lambda>_ k'. hst A pos k0 k' H6 l"]
    by (auto simp: wp_def H6_def)
  define H7 where "H7 = H6(a := (H6 a)\<lparr>hLen := sz\<rparr>)"
  obtain k7 where k7: "set_Length (wn a) (wn sz) k6 = Ret () k7" and S7: "hst A pos k0 k7 H7 l"
    using wp_set(1) [OF S6 a b(6), of "\<lambda>_ k'. hst A pos k0 k' H7 l"] by (auto simp: wp_def H7_def)
  have fin: "hst A pos k0 (if LastHeapHDR k7 = wn a then k7\<lparr>LastHeapHDR := wn new\<rparr> else k7) H7 (if l = a then new else l)"
    using S7 hst_last [OF S7 b(2)] wn_eq_iff [OF b(4,1)] by simp
  have H7: "H7 = split_hdrs a sz H"
    unfolding split_hdrs_def Let_def new(1) [symmetric] nx(1) [symmetric] H1_def [symmetric] H7_def H6_def H5_def H4_def H3_def H2_def
    using an H1(3) by (auto simp: fun_eq_iff)
  have "SegmentHeaderSplit (wn a) (wn sz) k =
      Ret (wn new) (if LastHeapHDR k7 = wn a then k7\<lparr>LastHeapHDR := wn new\<rparr> else k7)"
  proof -
    have "\<not> wn sz < 0x10" using sz(1) unat_word_of_nat64 [OF b(6)] by (simp add: word_less_nat_alt)
    then have g: "(wn sz < 0x10) = False" "(sint (wn ?L) < 0x10) = False"
      using int L sz by (simp_all flip: L)
    have w: "wn a + wn sz + 32 = wn new" using new(1) by simp
    have e: "get_Length (wn a) k = Ret (wn (hLen (H a))) k" "get_Next (wn a) k = Ret (wn nx) k"
      "get_Next (wn a) k1 = Ret (wn nx) k1" "get_IsFree (wn a) k5 = Ret (hFree (H a)) k5"
      using hst_get [OF S a] hst_get [OF S1 a] hst_get(4) [OF S5 a] H1 an nx(1)
      by (simp_all add: H5_def H4_def H3_def H2_def)
    show ?thesis
      unfolding SegmentHeaderSplit_def sizeof_HeapSegmentHeader_def Let_def
      by (simp only: g if_False e and_then.simps L w k1 k2 k3 k4 k5 k6 k7)
  qed
  then show ?thesis using fin H7 by (simp add: wp_def)
qed

end
