(* ===== verification/HeapGrow.thy ===== *)
theory HeapGrow
  imports Heap
begin

text \<open>
  Growing a range of the upper half page by page, as \<^verbatim>\<open>CreateHeap\<close> and \<^verbatim>\<open>ExpandHeap\<close> do: take
  a fresh zeroed page, map it at the end. The page tables this needs come from the same
  allocator; \<open>affords_plus\<close> counts both. Growth keeps every old byte and gives new addresses
  bytes of their own.
\<close>

definition affords_plus :: "u64 list set \<Rightarrow> nat \<Rightarrow> (u64 \<rightharpoonup> u64 list) \<Rightarrow> 'a pmm_scheme \<Rightarrow> bool" where
  "affords_plus N d pos k \<longleftrightarrow>
     finite N \<and> (\<forall>p\<in>N. length p \<le> 3) \<and> card (N - ran pos) + d \<le> length (fresh_pages k)"

text \<open>Paths that no table has stand for pages set aside.\<close>

definition spare :: "nat \<Rightarrow> u64 list set" where
  "spare d = (\<lambda>j. replicate (4 + j) 0) ` {..<d}"

lemma card_spare: "card (spare d) = d"
proof -
  have "inj_on (\<lambda>j. replicate (4 + j) (0 :: u64)) {..<d}"
    by (rule inj_onI) (metis add_left_cancel length_replicate)
  then show ?thesis unfolding spare_def by (simp add: card_image)
qed

lemma spare_long: "p \<in> spare d \<Longrightarrow> 4 \<le> length p"
  by (auto simp: spare_def)

lemma ran_short: "pt_tree pos root m \<Longrightarrow> p \<in> ran pos \<Longrightarrow> length p \<le> 3"
  by (auto simp: ran_def dest: pt_tree_path)

lemma affords_plus_iff:
  assumes "pt_tree pos root m"
  shows "affords_plus N d pos k \<longleftrightarrow> (\<forall>p\<in>N. length p \<le> 3) \<and> affords (N \<union> spare d) pos k"
proof (cases "finite N \<and> (\<forall>p\<in>N. length p \<le> 3)")
  case False
  then show ?thesis by (auto simp: affords_plus_def affords_def)
next
  case True
  have fs: "finite (spare d)" by (simp add: spare_def)
  have "N \<union> spare d - ran pos = (N - ran pos) \<union> spare d"
    using ran_short [OF assms] spare_long by fastforce
  moreover have "(N - ran pos) \<inter> spare d = {}" using True spare_long by fastforce
  ultimately have "card (N \<union> spare d - ran pos) = card (N - ran pos) + d"
    using True fs by (simp add: card_Un_disjoint card_spare)
  then show ?thesis using True fs by (auto simp: affords_plus_def affords_def)
qed

lemma MapMemory_plus:
  assumes "vm_inv pos root k" "affords_plus N d pos k" "range_paths v (page_count Size) \<subseteq> N"
    "page_aligned p" "unat p + unat Size + 4096 \<le> 2 ^ 52" "unat Size \<le> 2 ^ 48"
  shows "\<exists>k' pos'. MapMemory root v p Size k = Some (Ret () k') \<and> vm_inv pos' root k' \<and>
           vm_ext pos k pos' k' \<and> affords_plus N d pos' k' \<and>
           (\<forall>v'. translate (mem k') root v' =
              (if page_dist v v' < page_count Size
               then Some (p + word_of_nat (page_dist v v') * 4096 + (v' AND 0xFFF))
               else translate (mem k) root v'))"
proof -
  have t: "pt_tree pos root (mem k)" using assms(1) by (simp add: vm_inv_def)
  have N: "\<forall>p\<in>N. length p \<le> 3" "affords (N \<union> spare d) pos k"
    using assms(2) affords_plus_iff [OF t] by blast+
  obtain k' pos' where M: "MapMemory root v p Size k = Some (Ret () k')" "vm_inv pos' root k'"
    "vm_ext pos k pos' k'" "affords (N \<union> spare d) pos' k'"
    "\<forall>v'. translate (mem k') root v' =
              (if page_dist v v' < page_count Size
               then Some (p + word_of_nat (page_dist v v') * 4096 + (v' AND 0xFFF))
               else translate (mem k) root v')"
    using MapMemory_ok [OF assms(1) N(2) _ assms(4-6)] assms(3) by blast
  have "pt_tree pos' root (mem k')" using M(2) by (simp add: vm_inv_def)
  then have "affords_plus N d pos' k'" using affords_plus_iff N(1) M(4) by blast
  then show ?thesis using M by blast
qed

subsection \<open>Page numbers in the upper half\<close>

lemma upper_vpn:
  assumes "2 ^ 64 - 2 ^ 47 \<le> unat v"
  shows "unat (vpn v) + (2 ^ 52 - 2 ^ 36) = unat v div 4096"
proof -
  obtain q where q: "q = unat v div 4096" by simp
  have "unat v < 2 ^ 64" by simp
  then have hi: "q < 2 ^ 52" unfolding q by (simp add: less_mult_imp_div_less)
  have "(2 ^ 64 - 2 ^ 47) div 4096 \<le> q" unfolding q by (rule div_le_mono [OF assms])
  then have lo: "2 ^ 52 - 2 ^ 36 \<le> q" by simp
  have "q mod 2 ^ 36 = (q - (2 ^ 52 - 2 ^ 36)) mod 2 ^ 36"
  proof -
    have e: "(2 ^ 52 - 2 ^ 36 :: nat) = 2 ^ 36 * 65535" by simp
    have "q = (q - (2 ^ 52 - 2 ^ 36)) + 2 ^ 36 * 65535" using lo unfolding e by (rule le_add_diff_inverse2 [symmetric])
    then show ?thesis by (metis e mod_mult_self2)
  qed
  also have "\<dots> = q - (2 ^ 52 - 2 ^ 36)" using hi by (intro mod_less) simp
  finally show ?thesis unfolding unat_vpn q [symmetric] using lo by simp
qed

lemma upper_same_page:
  assumes "2 ^ 64 - 2 ^ 47 \<le> unat v" "2 ^ 64 - 2 ^ 47 \<le> unat w"
  shows "vpn v = vpn w \<longleftrightarrow> unat v div 4096 = unat w div 4096"
  using upper_vpn [OF assms(1)] upper_vpn [OF assms(2)] by (auto simp: word_unat_eq_iff)

lemma upper_not_low:
  assumes "2 ^ 64 - 2 ^ 47 \<le> unat v" "unat x < 4096"
  shows "vpn v \<noteq> vpn x"
proof
  assume "vpn v = vpn x"
  then have "unat (vpn v) = 0" using assms(2) by (simp add: unat_vpn)
  then have "unat v div 4096 = 2 ^ 52 - 2 ^ 36" using upper_vpn [OF assms(1)] by simp
  moreover have "(2 ^ 64 - 2 ^ 47) div 4096 \<le> unat v div 4096" by (rule div_le_mono [OF assms(1)])
  ultimately show False by simp
qed

lemma page_dist_zero: "page_dist v w < 1 \<longleftrightarrow> vpn v = vpn w"
  by (auto simp: page_dist_def unat_eq_0)

subsection \<open>One page\<close>

lemma space_base:
  assumes "space pos lo hi k"
  shows "vm_inv pos (cr3 k) k" and "0 \<notin> dom pos" and "2 ^ 64 - 2 ^ 47 \<le> lo" and "4096 dvd hi" and "lo \<le> hi"
    and "in_range lo hi x \<Longrightarrow> \<exists>p. translate (mem k) (cr3 k) x = Some p \<and> owned_byte pos k p"
    and "in_range lo hi x \<Longrightarrow> in_range lo hi y \<Longrightarrow>
      translate (mem k) (cr3 k) x = translate (mem k) (cr3 k) y \<Longrightarrow> x = y"
    and "unat x < 4096 \<Longrightarrow> translate (mem k) (cr3 k) x = Some x"
  using assms unfolding space_def by blast+

lemma fresh_page_room:
  assumes "memmap_wf (entries (MemoryMap k))" "fresh_pages k = a # as"
  shows "unat a + 8192 \<le> 2 ^ 52"
proof -
  have "a \<in> set (fresh_pages k)" using assms(2) by simp
  then have "a \<in> set (usable_pages (entries (MemoryMap k)))" by (simp add: fresh_pages_def)
  then obtain e where e: "page_aligned a" "e \<in> set (entries (MemoryMap k))" "is_usable e"
    "unat a + 4096 \<le> unat (me_base e) + unat (me_length e)"
    using usable_page_inside [OF assms(1)] by blast
  have "unat (me_base e) + unat (me_length e) < 2 ^ 52" using memmap_wf_entry [OF assms(1) e(2,3)] by blast
  then have "unat a + 4096 < 2 ^ 52" using e(4) by simp
  moreover obtain q where "unat a = 4096 * q" using e(1) by (auto simp: page_aligned_def)
  ultimately show ?thesis by simp
qed

text \<open>Taking a fresh page leaves the address space as it is.\<close>

lemma fresh_page_space:
  assumes sp: "space pos lo hi k" and f: "fresh_pages k = a # as"
  obtains k1 where "AllocateEmptyPage k = Ret a k1" "k1 = k\<lparr>LastAddress := a, mem := memset (mem k) a 0 4096\<rparr>"
    and "vm_inv pos (cr3 k) k1" and "fresh_pages k1 = as" and "is_frame a" and "LastAddress k < a"
    and "unat a + 8192 \<le> 2 ^ 52"
    and "\<And>v. translate (mem k1) (cr3 k) v = translate (mem k) (cr3 k) v"
proof -
  let ?m = "memset (mem k) a 0 4096"
  let ?k1 = "k\<lparr>LastAddress := a, mem := ?m\<rparr>"
  note inv = space_base(1) [OF sp]
  have wf: "memmap_wf (entries (MemoryMap k))" "FreeListLength k = 0"
    and below: "\<And>t. t \<in> dom pos \<Longrightarrow> t \<le> LastAddress k" using inv by (auto simp: vm_inv_def)
  have fr: "is_frame a" "LastAddress k < a" using fresh_page_frame [OF wf(1) f] by blast+
  have keep: "?m x = mem k x" if "t \<in> dom pos" "offs t x < 4096" for t x
  proof -
    have "is_frame t" using inv that(1) pt_tree_frame by (auto simp: vm_inv_def)
    moreover have "t \<noteq> a" using below [OF that(1)] fr(2) by auto
    ultimately show ?thesis using frames_apart [of t a x] fr(1) that(2) by (simp add: memset_apply)
  qed
  note F = vm_inv_frame [OF inv keep]
  have "vm_inv pos (cr3 k) (k\<lparr>mem := ?m\<rparr>)" using F(1) by simp
  then have "vm_inv pos (cr3 k) ?k1" using below fr(2) by (force simp: vm_inv_def)
  moreover have "fresh_pages ?k1 = as" using fresh_pages_advance [OF wf(1) f] by (simp add: fresh_pages_def)
  moreover have "AllocateEmptyPage k = Ret a ?k1" using AllocateEmptyPage_fresh [OF wf(2) f] .
  moreover have "translate (mem ?k1) (cr3 k) v = translate (mem k) (cr3 k) v" for v using F(2) by simp
  ultimately show ?thesis using that fr fresh_page_room [OF wf(1) f] by blast
qed

text \<open>Bytes in frames that are handed out, and are not tables afterwards, are untouched.\<close>

lemma owned_after:
  assumes o: "owned_byte pos k p" and a: "LastAddress k < a" "is_frame a"
    and k1: "k1 = k\<lparr>LastAddress := a, mem := memset (mem k) a 0 4096\<rparr>"
    and ext: "vm_ext pos k1 pos' k'" and inv: "vm_inv pos' root k'"
  shows "owned_byte pos' k' p" and "mem k' p = mem k p" and "\<not> offs a p < 4096"
proof -
  obtain g where g: "is_frame g" "g \<noteq> 0" "g \<le> LastAddress k" "g \<notin> dom pos" "offs g p < 4096"
    using o by (auto simp: owned_byte_def)
  have ga: "g \<noteq> a" using g(3) a(1) by auto
  have "LastAddress k1 = a" by (simp add: k1)
  then have new: "a < t" if "t \<in> dom pos'" "t \<notin> dom pos" for t using ext that by (simp add: vm_ext_def)
  have gn: "g \<notin> dom pos'"
  proof
    assume "g \<in> dom pos'"
    then have "a < g" using new g(4) by blast
    then show False using g(3) a(1) by simp
  qed
  have la: "a \<le> LastAddress k'" using ext \<open>LastAddress k1 = a\<close> by (simp add: vm_ext_def)
  then have "g \<le> LastAddress k'" using g(3) a(1) by (meson order.strict_implies_order order_trans)
  then show o': "owned_byte pos' k' p" using g gn by (auto simp: owned_byte_def)
  show na: "\<not> offs a p < 4096" using frames_apart [OF g(1) a(2) ga g(5)] .
  have "mem k' p = mem k1 p" using vm_ext_mem [OF ext] owned_byteD(2) [OF inv o'] by blast
  then show "mem k' p = mem k p" using na by (simp add: k1 memset_apply)
qed

lemma in_range_page:
  assumes "4096 dvd hi" "hi + 4096 \<le> 2 ^ 64" "lo \<le> hi"
  shows "in_range lo (hi + 4096) x \<longleftrightarrow> in_range lo hi x \<or> unat x div 4096 = hi div 4096"
proof -
  obtain q where q: "hi = 4096 * q" using assms(1) by blast
  have "unat x div 4096 = q \<longleftrightarrow> 4096 * q \<le> unat x \<and> unat x < 4096 * q + 4096" by linarith
  then show ?thesis using assms(3) by (auto simp: in_range_def q)
qed

lemma grow_page:
  assumes sp: "space pos lo hi k" and hi: "hi + 4096 < 2 ^ 64"
    and N: "affords_plus N (Suc d) pos k" "prefix_paths (wn hi) \<subseteq> N"
  obtains a k1 k' pos' where "AllocateEmptyPage k = Ret a k1"
    and "MapMemory (Pml4 k1) (wn hi) a 4096 k1 = Some (Ret () k')"
    and "space pos' lo (hi + 4096) k'" and "affords_plus N d pos' k'"
    and "\<exists>m l e. k' = k\<lparr>mem := m, LastAddress := l, CurrentPageTableEntry := e\<rparr>"
    and "\<And>x. in_range lo hi x \<Longrightarrow> vmem k' x = vmem k x"
proof -
  obtain a as where f: "fresh_pages k = a # as" using N(1) by (cases "fresh_pages k") (auto simp: affords_plus_def)
  obtain k1 where k1: "AllocateEmptyPage k = Ret a k1" and k1': "k1 = k\<lparr>LastAddress := a, mem := memset (mem k) a 0 4096\<rparr>"
    and i1: "vm_inv pos (cr3 k) k1" and f1: "fresh_pages k1 = as" and fa: "is_frame a" and la: "LastAddress k < a"
    and room: "unat a + 8192 \<le> 2 ^ 52"
    and t1: "\<And>v. translate (mem k1) (cr3 k) v = translate (mem k) (cr3 k) v"
    using fresh_page_space [OF sp f] by blast
  note B = space_base [OF sp]
  have uhi: "unat (wn hi) = hi" using hi by (intro unat_word_of_nat64) simp
  have up: "2 ^ 64 - 2 ^ 47 \<le> unat (wn hi)" using B(3,5) uhi by simp
  have pc: "page_count 4096 = 1" by (simp add: page_count_def)
  have rp: "range_paths (wn hi) (page_count 4096) \<subseteq> N" using N(2) by (auto simp: pc range_paths_def)
  have N1: "affords_plus N d pos k1" using N(1) f f1 by (simp add: affords_plus_def)
  have pa: "page_aligned a" "unat a + unat (4096 :: u64) + 4096 \<le> 2 ^ 52" "unat (4096 :: u64) \<le> 2 ^ 48"
    using fa room by (auto simp: is_frame_def)
  obtain k' pos' where M: "MapMemory (cr3 k) (wn hi) a 4096 k1 = Some (Ret () k')" "vm_inv pos' (cr3 k) k'"
    "vm_ext pos k1 pos' k'" "affords_plus N d pos' k'"
    and T0: "\<forall>v'. translate (mem k') (cr3 k) v' = (if page_dist (wn hi) v' < page_count 4096
      then Some (a + word_of_nat (page_dist (wn hi) v') * 4096 + (v' AND 0xFFF)) else translate (mem k1) (cr3 k) v')"
    using MapMemory_plus [OF i1 N1 rp pa] by blast
  have T: "translate (mem k') (cr3 k) v = (if vpn (wn hi) = vpn v then Some (a + (v AND 0xFFF)) else translate (mem k) (cr3 k) v)" for v
  proof -
    have "page_dist (wn hi) v = 0 \<longleftrightarrow> vpn (wn hi) = vpn v" using page_dist_zero [of "wn hi" v] by simp
    then show ?thesis using T0 t1 pc by (cases "vpn (wn hi) = vpn v") simp_all
  qed
  have c: "cr3 k1 = cr3 k" "Pml4 k1 = cr3 k" using sp by (simp_all add: k1' space_def)
  obtain m l e where k'1: "k' = k1\<lparr>mem := m, LastAddress := l, CurrentPageTableEntry := e\<rparr>"
    using M(3) by (auto simp: vm_ext_def)
  have ex: "\<exists>m l e. k' = k\<lparr>mem := m, LastAddress := l, CurrentPageTableEntry := e\<rparr>"
    unfolding k'1 k1' by (intro exI [of _ m] exI [of _ l] exI [of _ e]) simp
  have c': "cr3 k' = cr3 k" "Pml4 k' = cr3 k" using c by (simp_all add: k'1)
  have Tk: "translate (mem k') (cr3 k') v = translate (mem k') (cr3 k) v" for v using c' by simp
  have same: "vpn (wn hi) = vpn x \<longleftrightarrow> unat x div 4096 = hi div 4096" if "in_range lo (hi + 4096) x" for x
    using upper_same_page [OF up, of x] that B(3) uhi by (auto simp: in_range_def)
  have notnew: "unat x div 4096 \<noteq> hi div 4096" if "in_range lo hi x" for x
  proof -
    obtain q where q: "hi = 4096 * q" using B(4) by blast
    then show ?thesis using that by (auto simp: in_range_def)
  qed
  have old: "translate (mem k') (cr3 k) x = translate (mem k) (cr3 k) x" if "in_range lo hi x" for x
    using T [of x] same [of x] notnew [OF that] that by (simp add: in_range_def)
  note O = owned_after [OF _ la fa k1' M(3,2)]
  have adom: "a \<notin> dom pos'" "a \<le> LastAddress k'"
  proof -
    have l1: "LastAddress k1 = a" by (simp add: k1')
    then show "a \<le> LastAddress k'" using M(3) by (simp add: vm_ext_def)
    have "a \<notin> dom pos" using space_base(1) [OF sp] la by (force simp: vm_inv_def)
    moreover have "a < t" if "t \<in> dom pos'" "t \<notin> dom pos" for t using M(3) l1 that by (simp add: vm_ext_def)
    ultimately show "a \<notin> dom pos'" by blast
  qed
  have an0: "a \<noteq> 0" using la by auto
  have lowbits: "offs a (a + (x AND 0xFFF)) < 4096" for x :: u64
  proof -
    have "offs a (a + (x AND 0xFFF)) = unat (x AND 0xFFF)" by (simp add: offs_def)
    then show ?thesis by (simp add: unat_and_FFF)
  qed
  have newb: "owned_byte pos' k' (a + (x AND 0xFFF))" for x :: u64
    unfolding owned_byte_def using fa an0 adom lowbits by blast
  have split: "in_range lo (hi + 4096) x \<longleftrightarrow> in_range lo hi x \<or> unat x div 4096 = hi div 4096" for x
    using in_range_page [OF B(4) _ B(5)] hi by simp
  have new: "translate (mem k') (cr3 k) x = Some (a + (x AND 0xFFF))" if "unat x div 4096 = hi div 4096" for x
    using T [of x] same [of x] split [of x] that by simp
  have inj_new: "x = y" if "unat x div 4096 = unat y div 4096" "a + (x AND 0xFFF) = a + (y AND 0xFFF)" for x y :: u64
  proof -
    have "unat (x AND 0xFFF) = unat (y AND 0xFFF)" using that(2) by simp
    then have "unat x mod 4096 = unat y mod 4096" by (simp add: unat_and_FFF)
    then have "unat x = unat y" using that(1) by (metis div_mult_mod_eq)
    then show ?thesis by (simp add: word_unat_eq_iff)
  qed
  have cross: "translate (mem k') (cr3 k) x \<noteq> Some (a + (y AND 0xFFF))" if x: "in_range lo hi x" for x y
    using B(6) [OF x] old [OF x] O(3) lowbits [of y] by auto
  have "space pos' lo (hi + 4096) k'"
    unfolding space_def Tk
  proof (intro conjI allI impI)
    show "vm_inv pos' (cr3 k') k'" "Pml4 k' = cr3 k'" using M(2) c' by simp_all
    have "a < t" if "t \<in> dom pos'" "t \<notin> dom pos" for t using M(3) that by (simp add: vm_ext_def k1')
    then show "0 \<notin> dom pos'" using B(2) by force
    show "4096 dvd lo" "4096 dvd hi + 4096" "2 ^ 64 - 2 ^ 47 \<le> lo" "lo \<le> hi + 4096"
      using sp by (auto simp: space_def)
    show "\<exists>p. translate (mem k') (cr3 k) x = Some p \<and> owned_byte pos' k' p" if "in_range lo (hi + 4096) x" for x
      using that B(6) [of x] old [of x] O(1) new [of x] newb [of x] unfolding split by metis
    show "x = y" if ix: "in_range lo (hi + 4096) x" and iy: "in_range lo (hi + 4096) y"
      and eq: "translate (mem k') (cr3 k) x = translate (mem k') (cr3 k) y" for x y
    proof -
      consider "in_range lo hi x" "in_range lo hi y" | "in_range lo hi x" "unat y div 4096 = hi div 4096"
        | "unat x div 4096 = hi div 4096" "in_range lo hi y" | "unat x div 4096 = hi div 4096" "unat y div 4096 = hi div 4096"
        using ix iy unfolding split by blast
      then show ?thesis
      proof cases
        case 1
        then show ?thesis using B(7) old eq by metis
      next
        case 2
        then show ?thesis using cross new eq by metis
      next
        case 3
        then show ?thesis using cross new eq by metis
      next
        case 4
        then show ?thesis using inj_new [of x y] new [of x] new [of y] eq by simp
      qed
    qed
    show "translate (mem k') (cr3 k) x = Some x" if "unat x < 4096" for x
      using T [of x] upper_not_low [OF up that] B(8) [OF that] by simp
  qed
  moreover have "vmem k' x = vmem k x" if x: "in_range lo hi x" for x
  proof -
    obtain p where p: "translate (mem k) (cr3 k) x = Some p" "owned_byte pos k p" using B(6) [OF x] by blast
    then show ?thesis using old [OF x] O(2) [OF p(2)] c' by (simp add: vmem_def)
  qed
  ultimately show ?thesis using that [OF k1 _ _ M(4) ex] M(1) c by simp
qed

subsection \<open>Many pages\<close>

lemma ptm_fields_trans:
  assumes "\<exists>m l e. k1 = (k :: 'a ptm_scheme)\<lparr>mem := m, LastAddress := l, CurrentPageTableEntry := e\<rparr>"
    and "\<exists>m l e. k2 = k1\<lparr>mem := m, LastAddress := l, CurrentPageTableEntry := e\<rparr>"
  shows "\<exists>m l e. k2 = k\<lparr>mem := m, LastAddress := l, CurrentPageTableEntry := e\<rparr>"
proof -
  obtain m l e where "k1 = k\<lparr>mem := m, LastAddress := l, CurrentPageTableEntry := e\<rparr>" using assms(1) by blast
  moreover obtain m' l' e' where "k2 = k1\<lparr>mem := m', LastAddress := l', CurrentPageTableEntry := e'\<rparr>" using assms(2) by blast
  ultimately have "k2 = k\<lparr>mem := m', LastAddress := l', CurrentPageTableEntry := e'\<rparr>" by simp
  then show ?thesis by blast
qed

lemma map_pages_ok:
  assumes "space pos lo hi k" "hi + 4096 * n < 2 ^ 64" "affords_plus N (n + d) pos k" "range_paths (wn hi) n \<subseteq> N"
  shows "\<exists>k' pos'. map_pages (wn hi) n k = Some (Ret () k') \<and> space pos' lo (hi + 4096 * n) k' \<and>
           affords_plus N d pos' k' \<and>
           (\<exists>m l e. k' = k\<lparr>mem := m, LastAddress := l, CurrentPageTableEntry := e\<rparr>) \<and>
           (\<forall>x. in_range lo hi x \<longrightarrow> vmem k' x = vmem k x)"
  using assms
proof (induction n arbitrary: pos hi k)
  case 0
  have "k = k\<lparr>mem := mem k, LastAddress := LastAddress k, CurrentPageTableEntry := CurrentPageTableEntry k\<rparr>" by simp
  then have "\<exists>m l e. k = k\<lparr>mem := m, LastAddress := l, CurrentPageTableEntry := e\<rparr>" by metis
  then show ?case using 0 by auto
next
  case (Suc n)
  have pp: "prefix_paths (wn hi) \<subseteq> N" "range_paths (wn (hi + 4096)) n \<subseteq> N"
    using Suc.prems(4) unfolding range_paths_Suc by simp_all
  have h: "hi + 4096 < 2 ^ 64" and N1: "affords_plus N (Suc (n + d)) pos k" and b: "hi + 4096 + 4096 * n < 2 ^ 64"
    using Suc.prems by simp_all
  obtain a k1 k2 pos2 where s: "AllocateEmptyPage k = Ret a k1" "MapMemory (Pml4 k1) (wn hi) a 4096 k1 = Some (Ret () k2)"
    "space pos2 lo (hi + 4096) k2" "affords_plus N (n + d) pos2 k2"
    "\<exists>m l e. k2 = k\<lparr>mem := m, LastAddress := l, CurrentPageTableEntry := e\<rparr>"
    "\<And>x. in_range lo hi x \<Longrightarrow> vmem k2 x = vmem k x"
    by (rule grow_page [OF Suc.prems(1) h N1 pp(1)]) (rule that)
  obtain k' pos' where r: "map_pages (wn (hi + 4096)) n k2 = Some (Ret () k')"
    "space pos' lo (hi + 4096 + 4096 * n) k'" "affords_plus N d pos' k'"
    "\<exists>m l e. k' = k2\<lparr>mem := m, LastAddress := l, CurrentPageTableEntry := e\<rparr>"
    "\<forall>x. in_range lo (hi + 4096) x \<longrightarrow> vmem k' x = vmem k2 x"
    using Suc.IH [OF s(3) b s(4) pp(2)] by blast
  have "map_pages (wn hi) (Suc n) k = Some (Ret () k')" using s(1,2) r(1) by (simp add: then_run_def)
  moreover have "vmem k' x = vmem k x" if "in_range lo hi x" for x
    using that s(6) r(5) by (simp add: in_range_def)
  moreover have "space pos' lo (hi + 4096 * Suc n) k'" using r(2) by (simp add: algebra_simps)
  ultimately show ?case using r(3) ptm_fields_trans [OF s(5) r(4)] by blast
qed

lemma space_HeapEnd [simp]: "space pos lo hi (k\<lparr>HeapEnd := e\<rparr>) = space pos lo hi k"
  by (simp add: space_def vm_inv_def owned_byte_def)

lemma vmem_HeapEnd [simp]: "vmem (k\<lparr>HeapEnd := e\<rparr>) = vmem k"
  by (simp add: vmem_def cong: option.case_cong)

lemma affords_plus_HeapEnd [simp]: "affords_plus N d pos (k\<lparr>HeapEnd := e\<rparr>) = affords_plus N d pos k"
  by (simp add: affords_plus_def fresh_pages_def)

lemma ExpandHeap_loop_ok:
  assumes "space pos lo hi k" "hi = unat (HeapEnd k)" "hi + 4096 * n < 2 ^ 64" "affords_plus N (n + d) pos k"
    "range_paths (wn hi) n \<subseteq> N"
  shows "\<exists>k' pos'. ExpandHeap_loop n k = Some (Ret () k') \<and> space pos' lo (hi + 4096 * n) k' \<and>
           affords_plus N d pos' k' \<and>
           (\<exists>m l e. k' = k\<lparr>mem := m, LastAddress := l, CurrentPageTableEntry := e, HeapEnd := wn (hi + 4096 * n)\<rparr>) \<and>
           (\<forall>x. in_range lo hi x \<longrightarrow> vmem k' x = vmem k x)"
  using assms
proof (induction n arbitrary: pos hi k)
  case 0
  have "k = k\<lparr>mem := mem k, LastAddress := LastAddress k, CurrentPageTableEntry := CurrentPageTableEntry k,
      HeapEnd := wn (hi + 4096 * 0)\<rparr>" using 0(2) by simp
  then have "\<exists>m l e. k = k\<lparr>mem := m, LastAddress := l, CurrentPageTableEntry := e, HeapEnd := wn (hi + 4096 * 0)\<rparr>" by (intro exI)
  moreover have "ExpandHeap_loop 0 k = Some (Ret () k)" "space pos lo (hi + 4096 * 0) k" "affords_plus N d pos k"
    using 0(1,4) by simp_all
  ultimately show ?case by blast
next
  case (Suc n)
  have pp: "prefix_paths (wn hi) \<subseteq> N" "range_paths (wn (hi + 4096)) n \<subseteq> N"
    using Suc.prems(5) unfolding range_paths_Suc by simp_all
  have h: "hi + 4096 < 2 ^ 64" and N1: "affords_plus N (Suc (n + d)) pos k" and b: "hi + 4096 + 4096 * n < 2 ^ 64"
    using Suc.prems by simp_all
  obtain a k1 k2 pos2 where s: "AllocateEmptyPage k = Ret a k1" "MapMemory (Pml4 k1) (wn hi) a 4096 k1 = Some (Ret () k2)"
    "space pos2 lo (hi + 4096) k2" "affords_plus N (n + d) pos2 k2"
    and f2: "\<exists>m l e. k2 = k\<lparr>mem := m, LastAddress := l, CurrentPageTableEntry := e\<rparr>"
    and v2: "\<And>x. in_range lo hi x \<Longrightarrow> vmem k2 x = vmem k x"
    by (rule grow_page [OF Suc.prems(1) h N1 pp(1)]) (rule that)
  obtain m l e where k2: "k2 = k\<lparr>mem := m, LastAddress := l, CurrentPageTableEntry := e\<rparr>" using f2 by blast
  define k3 where "k3 = k2\<lparr>HeapEnd := HeapEnd k2 + 4096\<rparr>"
  have hi: "wn hi = HeapEnd k" using Suc.prems(2) by simp
  have "HeapEnd k3 = wn (hi + 4096)" using hi by (simp add: k3_def k2)
  then have u3: "hi + 4096 = unat (HeapEnd k3)" using Suc.prems(3) unat_word_of_nat64 [of "hi + 4096"] by simp
  have s3: "space pos2 lo (hi + 4096) k3" "affords_plus N (n + d) pos2 k3" using s(3,4) by (simp_all add: k3_def)
  obtain k' pos' where r: "ExpandHeap_loop n k3 = Some (Ret () k')"
    "space pos' lo (hi + 4096 + 4096 * n) k'" "affords_plus N d pos' k'"
    and f': "\<exists>m l e. k' = k3\<lparr>mem := m, LastAddress := l, CurrentPageTableEntry := e, HeapEnd := wn (hi + 4096 + 4096 * n)\<rparr>"
    and v': "\<forall>x. in_range lo (hi + 4096) x \<longrightarrow> vmem k' x = vmem k3 x"
    using Suc.IH [OF s3(1) u3 b s3(2) pp(2)] by blast
  have e1: "HeapEnd k1 = HeapEnd k"
  proof -
    obtain b bs where "fresh_pages k = b # bs"
      using N1 by (cases "fresh_pages k") (auto simp: affords_plus_def)
    moreover have "FreeListLength k = 0" using Suc.prems(1) by (simp add: space_def vm_inv_def)
    ultimately show ?thesis using s(1) AllocateEmptyPage_fresh [of k b bs] by auto
  qed
  have "ExpandHeap_loop (Suc n) k = Some (Ret () k')"
    using s(1,2) r(1) e1 hi by (simp add: then_run_def k3_def)
  moreover have "vmem k' x = vmem k x" if "in_range lo hi x" for x
    using that v2 v' by (simp add: in_range_def k3_def)
  moreover have "space pos' lo (hi + 4096 * Suc n) k'" using r(2) by (simp add: algebra_simps)
  moreover have "\<exists>m l e. k' = k\<lparr>mem := m, LastAddress := l, CurrentPageTableEntry := e, HeapEnd := wn (hi + 4096 * Suc n)\<rparr>"
  proof -
    obtain m' l' e' where "k' = k3\<lparr>mem := m', LastAddress := l', CurrentPageTableEntry := e', HeapEnd := wn (hi + 4096 + 4096 * n)\<rparr>"
      using f' by blast
    then have "k' = k\<lparr>mem := m', LastAddress := l', CurrentPageTableEntry := e', HeapEnd := wn (hi + 4096 * Suc n)\<rparr>"
      by (simp add: k3_def k2 algebra_simps)
    then show ?thesis by blast
  qed
  ultimately show ?case using r(3) by blast
qed

end
