(* ===== verification/HeapCorrect.thy ===== *)
theory HeapCorrect
  imports HeapGrow
begin

text \<open>
  The heap against its specification. Abstractly the heap is a list of segments, each with
  the length of its payload and whether it is free; the addresses follow from the lengths.
  \<open>heap_rel\<close> says that the headers in virtual memory spell out such a list. The operations
  on lists (\<open>alloc_spec\<close>, \<open>free_spec\<close>, \<open>expand_spec\<close>) are the specification, and the results
  are that the code refines them, keeps the invariant, and leaves the payload of every
  allocated block untouched.
\<close>

type_synonym segs = "(nat \<times> bool) list"

fun extent :: "segs \<Rightarrow> nat" where
  "extent [] = 0"
| "extent ((n, f) # ss) = 32 + n + extent ss"

fun hdrs :: "nat \<Rightarrow> segs \<Rightarrow> nat list" where
  "hdrs a [] = []"
| "hdrs a ((n, f) # ss) = a # hdrs (a + 32 + n) ss"

fun last_hdr :: "nat \<Rightarrow> nat \<Rightarrow> segs \<Rightarrow> nat" where
  "last_hdr p a [] = p"
| "last_hdr p a ((n, f) # ss) = last_hdr a (a + 32 + n) ss"

fun chain :: "(nat \<Rightarrow> hdr) \<Rightarrow> nat \<Rightarrow> nat \<Rightarrow> segs \<Rightarrow> nat \<Rightarrow> bool" where
  "chain H p a [] e = True"
| "chain H p a ((n, f) # ss) e =
     (H a = \<lparr>hLen = n, hNext = (if ss = [] then e else a + 32 + n), hLast = p, hFree = f\<rparr> \<and>
      chain H a (a + 32 + n) ss e)"

lemma extent_append [simp]: "extent (xs @ ys) = extent xs + extent ys"
  by (induction xs rule: extent.induct) auto

lemma hdrs_append: "hdrs a (xs @ ys) = hdrs a xs @ hdrs (a + extent xs) ys"
  by (induction xs arbitrary: a rule: extent.induct) (auto simp: algebra_simps)

lemma last_hdr_append: "last_hdr p a (xs @ ys) = last_hdr (last_hdr p a xs) (a + extent xs) ys"
  by (induction xs arbitrary: p a rule: extent.induct) (auto simp: algebra_simps)

lemma chain_append:
  "chain H p a (xs @ ys) e \<longleftrightarrow>
   chain H p a xs (if ys = [] then e else a + extent xs) \<and> chain H (last_hdr p a xs) (a + extent xs) ys e"
  by (induction xs arbitrary: p a rule: extent.induct) (auto simp: algebra_simps)

lemma hdrs_range: "h \<in> set (hdrs a ss) \<Longrightarrow> a \<le> h \<and> h + 32 \<le> a + extent ss"
  by (induction ss arbitrary: a rule: extent.induct) fastforce+

lemma hdrs_spaced: "spaced (set (hdrs a ss))"
proof (induction ss arbitrary: a rule: extent.induct)
  case 1
  then show ?case by (simp add: spaced_def)
next
  case (2 n f ss)
  have "a + 32 \<le> h" if "h \<in> set (hdrs (a + 32 + n) ss)" for h using hdrs_range [OF that] by simp
  then show ?case using 2 [of "a + 32 + n"] unfolding spaced_def hdrs.simps by auto
qed

lemma last_hdr_in: "ss \<noteq> [] \<Longrightarrow> last_hdr p a ss \<in> set (hdrs a ss)"
proof (induction ss arbitrary: p a rule: extent.induct)
  case (2 n f ss)
  then show ?case by (cases ss) auto
qed simp

lemma last_hdr_prev: "ss \<noteq> [] \<Longrightarrow> last_hdr p a ss = last_hdr q a ss"
  by (cases ss) auto

lemma chain_cong: "(\<And>h. h \<in> set (hdrs a ss) \<Longrightarrow> H' h = H h) \<Longrightarrow> chain H' p a ss e = chain H p a ss e"
  by (induction ss arbitrary: p a rule: extent.induct) auto

lemma chain_upd_below: "h < a \<Longrightarrow> chain (H(h := v)) p a ss e = chain H p a ss e"
  by (rule chain_cong) (use hdrs_range in fastforce)

lemma chain_upd_above: "a + extent ss \<le> h \<Longrightarrow> chain (H(h := v)) p a ss e = chain H p a ss e"
  by (rule chain_cong) (use hdrs_range in fastforce)

text \<open>Redirecting the back link of the first segment of a list.\<close>

lemma chain_relink:
  "chain H p a ss e \<Longrightarrow> ss \<noteq> [] \<Longrightarrow> chain (H(a := (H a)\<lparr>hLast := q\<rparr>)) q a ss e"
  by (cases ss) (auto simp: chain_upd_below)

lemma chain_set_free:
  assumes "chain H p s (xs @ (n, f) # ys) e" and "a = s + extent xs"
  shows "chain (H(a := (H a)\<lparr>hFree := b\<rparr>)) p s (xs @ (n, b) # ys) e"
  using assms by (auto simp: chain_append chain_upd_below chain_upd_above)

lemma chain_combined:
  assumes c: "chain H p s (xs @ (n, f) # (n2, f2) # ys) 0" and a: "a = s + extent xs"
  shows "chain (combined a H) p s (xs @ (n + n2 + 32, f) # ys) 0"
proof -
  let ?nx = "a + 32 + n" and ?nn = "if ys = [] then 0 else a + 32 + n + 32 + n2"
  have x: "chain H p s xs a" and ha: "H a = \<lparr>hLen = n, hNext = ?nx, hLast = last_hdr p s xs, hFree = f\<rparr>"
    and hx: "H ?nx = \<lparr>hLen = n2, hNext = ?nn, hLast = a, hFree = f2\<rparr>"
    and y: "chain H ?nx (?nx + 32 + n2) ys 0"
    using c a by (auto simp: chain_append)
  show ?thesis
  proof (cases "ys = []")
    case True
    then have "combined a H = H(a := \<lparr>hLen = n + n2 + 32, hNext = 0, hLast = last_hdr p s xs, hFree = f\<rparr>)"
      using ha hx by (simp add: combined_def Let_def)
    then show ?thesis using x True a by (simp add: chain_append chain_upd_above)
  next
    case False
    let ?H1 = "H(?nn := (H ?nn)\<lparr>hLast := a\<rparr>)"
    have "combined a H = ?H1(a := \<lparr>hLen = n + n2 + 32, hNext = ?nn, hLast = last_hdr p s xs, hFree = f\<rparr>)"
      using ha hx False by (simp add: combined_def Let_def)
    moreover have "chain ?H1 a ?nn ys 0" using chain_relink [OF y False, of a] False by simp
    moreover have "a + 32 + (n + n2 + 32) = ?nn" using False by simp
    ultimately show ?thesis using x False a by (simp add: chain_append chain_upd_above chain_upd_below algebra_simps)
  qed
qed

lemma chain_split:
  assumes c: "chain H p s (xs @ (n, f) # ys) 0" and a: "a = s + extent xs" and sz: "sz + 32 \<le> n"
  shows "chain (split_hdrs a sz H) p s (xs @ (sz, f) # (n - sz - 32, f) # ys) 0"
proof -
  let ?nx = "if ys = [] then 0 else a + 32 + n" and ?new = "a + sz + 32"
  have x: "chain H p s xs a" and ha: "H a = \<lparr>hLen = n, hNext = ?nx, hLast = last_hdr p s xs, hFree = f\<rparr>"
    and y: "chain H a (a + 32 + n) ys 0"
    using c a by (auto simp: chain_append)
  let ?N = "\<lparr>hLen = n - sz - 32, hNext = ?nx, hLast = a, hFree = f\<rparr>"
  let ?A = "\<lparr>hLen = sz, hNext = ?new, hLast = last_hdr p s xs, hFree = f\<rparr>"
  show ?thesis
  proof (cases "ys = []")
    case True
    then have "split_hdrs a sz H = H(?new := ?N, a := ?A)" using ha by (simp add: split_hdrs_def Let_def)
    then show ?thesis using x True a by (simp add: chain_append chain_upd_above algebra_simps)
  next
    case False
    let ?H1 = "H(?nx := (H ?nx)\<lparr>hLast := ?new\<rparr>)"
    have "split_hdrs a sz H = ?H1(?new := ?N, a := ?A)" using ha False by (simp add: split_hdrs_def Let_def)
    moreover have "chain ?H1 ?new ?nx ys 0" using chain_relink [OF y False, of ?new] False by simp
    moreover have "?new + 32 + (n - sz - 32) = ?nx" using False sz by simp
    ultimately show ?thesis using x False a sz
      by (simp add: chain_append chain_upd_above chain_upd_below algebra_simps)
  qed
qed

subsection \<open>The abstraction relation\<close>

text \<open>No two neighbours are both free.\<close>

definition coalesced :: "segs \<Rightarrow> bool" where
  "coalesced ss = successively (\<lambda>x y. \<not> (snd x \<and> snd y)) ss"

definition seg_ok :: "segs \<Rightarrow> bool" where
  "seg_ok ss \<longleftrightarrow> ss \<noteq> [] \<and> coalesced ss \<and> (\<forall>(n, f)\<in>set ss. 16 \<le> n \<and> n mod 16 = 0)"

definition heap_rel :: "(u64 \<rightharpoonup> u64 list) \<Rightarrow> segs \<Rightarrow> 'a heap_scheme \<Rightarrow> bool" where
  "heap_rel pos ss k \<longleftrightarrow>
     heap_space pos k \<and> seg_ok ss \<and> 0 < unat (HeapStart k) \<and>
     unat (HeapStart k) + extent ss = unat (HeapEnd k) \<and> extent ss < 2 ^ 63 \<and>
     chain (hdr_at (vmem k)) 0 (unat (HeapStart k)) ss 0 \<and>
     LastHeapHDR k = wn (last_hdr 0 (unat (HeapStart k)) ss)"

text \<open>What a heap operation without growth may change besides memory: \<^verbatim>\<open>LastHeapHDR\<close>.\<close>

definition heap_frame :: "'a heap_scheme \<Rightarrow> 'a heap_scheme \<Rightarrow> bool" where
  "heap_frame k k' \<longleftrightarrow> (\<exists>m l. k' = k\<lparr>mem := m, LastHeapHDR := l\<rparr>)"

text \<open>The blocks of a list of segments: header address, payload length, free or not.\<close>

fun blocks :: "nat \<Rightarrow> segs \<Rightarrow> (nat \<times> nat \<times> bool) set" where
  "blocks a [] = {}"
| "blocks a ((n, f) # ss) = insert (a, n, f) (blocks (a + 32 + n) ss)"

lemma blocks_append: "blocks a (xs @ ys) = blocks a xs \<union> blocks (a + extent xs) ys"
  by (induction xs arbitrary: a rule: extent.induct) (auto simp: algebra_simps)

lemma blocks_range: "(h, n, f) \<in> blocks a ss \<Longrightarrow> a \<le> h \<and> h + 32 + n \<le> a + extent ss"
  by (induction ss arbitrary: a rule: extent.induct) fastforce+

lemma blocks_hdrs: "(h, n, f) \<in> blocks a ss \<Longrightarrow> h \<in> set (hdrs a ss)"
  by (induction ss arbitrary: a rule: extent.induct) auto

lemma blocks_apart:
  "(h, n, f) \<in> blocks a ss \<Longrightarrow> h' \<in> set (hdrs a ss) \<Longrightarrow> h' \<noteq> h \<Longrightarrow> h' + 32 \<le> h \<or> h + 32 + n \<le> h'"
proof (induction ss arbitrary: a rule: extent.induct)
  case 1
  then show ?case by simp
next
  case (2 m g ss)
  consider "(h, n, f) = (a, m, g)" "h' \<in> set (hdrs (a + 32 + m) ss)" | "(h, n, f) \<in> blocks (a + 32 + m) ss" "h' = a"
    | "(h, n, f) \<in> blocks (a + 32 + m) ss" "h' \<in> set (hdrs (a + 32 + m) ss)"
    using 2 by auto
  then show ?case
  proof cases
    case 1
    then show ?thesis using hdrs_range [of h' "a + 32 + m" ss] by auto
  next
    case 2
    then show ?thesis using blocks_range [of h n f "a + 32 + m" ss] by auto
  next
    case 3
    then show ?thesis using "2.IH" "2.prems"(3) by blast
  qed
qed

text \<open>The payload of the allocated blocks is the same in two states.\<close>

definition payload_kept :: "(nat \<times> nat \<times> bool) set \<Rightarrow> 'a heap_scheme \<Rightarrow> 'a heap_scheme \<Rightarrow> bool" where
  "payload_kept B k k' \<longleftrightarrow>
     (\<forall>h n. (h, n, False) \<in> B \<longrightarrow> (\<forall>i<n. vmem k' (wn (h + 32 + i)) = vmem k (wn (h + 32 + i))))"

lemma payload_kept_trans: "payload_kept B k k1 \<Longrightarrow> payload_kept B k1 k2 \<Longrightarrow> payload_kept B k k2"
  by (simp add: payload_kept_def)

lemma heap_rel_start:
  assumes "heap_rel pos ss k"
  shows "hst (set (hdrs (unat (HeapStart k)) ss)) pos k k (hdr_at (vmem k)) (last_hdr 0 (unat (HeapStart k)) ss)"
proof -
  let ?s = "unat (HeapStart k)"
  have ne: "ss \<noteq> []" using assms by (simp add: heap_rel_def seg_ok_def)
  have L: "last_hdr 0 ?s ss + 32 \<le> unat (HeapEnd k)"
    using hdrs_range [OF last_hdr_in [OF ne], of ?s 0] assms by (simp add: heap_rel_def)
  then have "last_hdr 0 ?s ss < 2 ^ 64" using below_word [of "last_hdr 0 ?s ss" "HeapEnd k"] by simp
  moreover have "\<exists>m. k = k\<lparr>mem := m, LastHeapHDR := wn (last_hdr 0 ?s ss)\<rparr>"
  proof
    have e: "wn (last_hdr 0 ?s ss) = LastHeapHDR k" using assms by (simp add: heap_rel_def)
    show "k = k\<lparr>mem := mem k, LastHeapHDR := wn (last_hdr 0 ?s ss)\<rparr>" unfolding e by simp
  qed
  moreover have "\<forall>a\<in>set (hdrs ?s ss). ?s \<le> a \<and> a + 32 \<le> unat (HeapEnd k)"
  proof
    fix a
    assume "a \<in> set (hdrs ?s ss)"
    then show "?s \<le> a \<and> a + 32 \<le> unat (HeapEnd k)" using hdrs_range [of a ?s ss] assms by (simp add: heap_rel_def)
  qed
  moreover have "heap_space pos k" using assms by (simp add: heap_rel_def)
  ultimately show ?thesis unfolding hst_def using hdrs_spaced [of ?s ss] by blast
qed

text \<open>Adding a header address in the middle of a free payload.\<close>

lemma hst_insert:
  assumes "hst A pos k k H l" "spaced (insert a A)" "unat (HeapStart k) \<le> a" "a + 32 \<le> unat (HeapEnd k)"
    and "\<And>h. h \<in> A \<Longrightarrow> H h = hdr_at (vmem k) h"
  shows "hst (insert a A) pos k k (hdr_at (vmem k)) l"
  using assms by (simp add: hst_def)

lemma hst_heap_rel:
  assumes S: "hst A pos k k' H l" and ok: "seg_ok ss" and sub: "set (hdrs (unat (HeapStart k)) ss) \<subseteq> A"
    and c: "chain H 0 (unat (HeapStart k)) ss 0" and l: "l = last_hdr 0 (unat (HeapStart k)) ss"
    and pos: "0 < unat (HeapStart k)" and t: "unat (HeapStart k) + extent ss = unat (HeapEnd k)" "extent ss < 2 ^ 63"
  shows "heap_rel pos ss k'" and "heap_frame k k'"
proof -
  obtain m where k': "k' = k\<lparr>mem := m, LastHeapHDR := wn l\<rparr>" using S by (auto simp: hst_def)
  show "heap_frame k k'" unfolding heap_frame_def k' by blast
  have "chain (hdr_at (vmem k')) 0 (unat (HeapStart k)) ss 0 = chain H 0 (unat (HeapStart k)) ss 0"
    by (rule chain_cong) (use S sub in \<open>auto simp: hst_def\<close>)
  then show "heap_rel pos ss k'"
    using S ok c l pos t unfolding heap_rel_def by (auto simp: hst_def k')
qed

lemma hst_payload:
  assumes S: "hst A pos k k' H l" and B: "\<And>h n. (h, n, False) \<in> B \<Longrightarrow> unat (HeapStart k) \<le> h \<and> h + 32 + n \<le> unat (HeapEnd k)"
    and apart: "\<And>h n a. (h, n, False) \<in> B \<Longrightarrow> a \<in> A \<Longrightarrow> a + 32 \<le> h + 32 \<or> h + 32 + n \<le> a"
  shows "payload_kept B k k'"
  unfolding payload_kept_def
proof (intro allI impI)
  fix h n i
  assume b: "(h, n, False) \<in> B" and i: "i < n"
  have lt: "h + 32 + i < 2 ^ 64" using B [OF b] i below_word [of "h + 32 + i" "HeapEnd k"] by simp
  have u: "unat (wn (h + 32 + i)) = h + 32 + i" using lt by (rule unat_word_of_nat64)
  have "in_heap k (wn (h + 32 + i))" using B [OF b] i u by (simp add: in_heap_def in_range_def)
  moreover have "\<not> offs (wn a) (wn (h + 32 + i)) < 32" if a: "a \<in> A" for a
  proof -
    have "unat (wn a) + 32 \<le> 2 ^ 64" using hst_range(1) [OF S a] hst_bound(3) [OF S a] by simp
    then show ?thesis using offs_range [of "wn a" 32 "wn (h + 32 + i)"] hst_range(1) [OF S a] apart [OF b a] u i by auto
  qed
  ultimately show "vmem k' (wn (h + 32 + i)) = vmem k (wn (h + 32 + i))"
    using S by (simp add: hst_def)
qed

subsection \<open>One turn of the search\<close>

definition taken :: "nat \<Rightarrow> nat \<Rightarrow> segs" where
  "taken sz n = (if sz + 48 \<le> n then [(sz, False), (n - sz - 32, True)] else [(n, False)])"

lemma extent_taken [simp]: "sz \<le> n \<Longrightarrow> extent (taken sz n) = 32 + n"
  by (simp add: taken_def)

lemma coalesced_taken: "coalesced (xs @ (n, True) # ys) \<Longrightarrow> coalesced (xs @ taken sz n @ ys)"
  by (cases ys) (auto simp: coalesced_def successively_append_iff successively_Cons taken_def)

lemma chain_at:
  "chain H p s (xs @ (n, f) # ys) 0 \<Longrightarrow>
   H (s + extent xs) = \<lparr>hLen = n, hNext = (if ys = [] then 0 else s + extent xs + 32 + n),
                      hLast = last_hdr p s xs, hFree = f\<rparr>"
  by (simp add: chain_append)

lemma heap_rel_at:
  assumes "heap_rel pos (xs @ (n, f) # ys) k" and "a = unat (HeapStart k) + extent xs"
  shows "hdr_at (vmem k) a = \<lparr>hLen = n, hNext = (if ys = [] then 0 else a + 32 + n),
           hLast = last_hdr 0 (unat (HeapStart k)) xs, hFree = f\<rparr>"
    and "a \<in> set (hdrs (unat (HeapStart k)) (xs @ (n, f) # ys))" and "a + 32 + n < 2 ^ 64" and "n < 2 ^ 63"
proof -
  have t: "unat (HeapStart k) + extent (xs @ (n, f) # ys) = unat (HeapEnd k)" "extent (xs @ (n, f) # ys) < 2 ^ 63"
    using assms by (auto simp: heap_rel_def)
  then show "n < 2 ^ 63" by simp
  have "a + 32 + n \<le> unat (HeapEnd k)" using t assms(2) by simp
  then show "a + 32 + n < 2 ^ 64" by (rule below_word)
  show "a \<in> set (hdrs (unat (HeapStart k)) (xs @ (n, f) # ys))" using assms(2) by (simp add: hdrs_append)
  show "hdr_at (vmem k) a = \<lparr>hLen = n, hNext = (if ys = [] then 0 else a + 32 + n),
           hLast = last_hdr 0 (unat (HeapStart k)) xs, hFree = f\<rparr>"
    using assms chain_at [of "hdr_at (vmem k)" 0 "unat (HeapStart k)" xs n f ys] by (simp add: heap_rel_def)
qed

lemma wn_less_iff: "n < 2 ^ 64 \<Longrightarrow> n' < 2 ^ 64 \<Longrightarrow> wn n < wn n' \<longleftrightarrow> n < n'"
  by (simp add: word_less_nat_alt unat_word_of_nat64)

lemma turn_next:
  assumes R: "heap_rel pos (xs @ (n, f) # ys) k" and a: "a = unat (HeapStart k) + extent xs"
    and sz: "\<not> (f \<and> sz \<le> n)" "sz < 2 ^ 64"
  shows "malloc_turn (wn a) (wn sz) k = Ret (if ys = [] then Inl None else Inr (wn (a + 32 + n))) k"
proof -
  note S = heap_rel_start [OF R] and at = heap_rel_at [OF R a]
  note g = hst_get [OF S at(2), unfolded at(1)]
  have n: "n < 2 ^ 64" using at(4) by simp
  have nx: "malloc_next (wn a) k = Ret (if ys = [] then Inl None else Inr (wn (a + 32 + n))) k"
    using g(2) wn_0_iff [OF at(3)] by (simp add: malloc_next_def)
  show ?thesis
  proof (cases f)
    case False
    then show ?thesis using nx g(4) by (simp add: malloc_turn_def)
  next
    case True
    then have "\<not> wn sz < wn n" "wn n \<noteq> wn sz" using sz n wn_less_iff [of sz n] wn_eq_iff [of n sz] by auto
    then show ?thesis using nx g(1,4) by (simp add: malloc_turn_def)
  qed
qed

lemma blocks_unique: "(h, n, f) \<in> blocks a ss \<Longrightarrow> (h, n', f') \<in> blocks a ss \<Longrightarrow> n' = n \<and> f' = f"
proof (induction ss arbitrary: a rule: extent.induct)
  case 1
  then show ?case by simp
next
  case (2 m g ss)
  then show ?case using blocks_range [of h _ _ "a + 32 + m" ss] by fastforce
qed

text \<open>A payload is clear of every header, and of a new header inside a free block.\<close>

lemma payload_apart:
  assumes "(h, m, False) \<in> blocks s ss" and "b \<in> set (hdrs s ss)"
  shows "b + 32 \<le> h + 32 \<or> h + 32 + m \<le> b"
  using blocks_apart [OF assms] by (cases "b = h") auto

lemma payload_apart_new:
  assumes "(h, m, False) \<in> blocks s ss" and "(a, n, True) \<in> blocks s ss" and "a < new" "new \<le> a + n"
  shows "new + 32 \<le> h + 32 \<or> h + 32 + m \<le> new"
proof -
  have "h \<noteq> a" using blocks_unique [OF assms(1), of n True] assms(2) by auto
  then show ?thesis
    using blocks_apart [OF assms(1) blocks_hdrs [OF assms(2)]] blocks_apart [OF assms(2) blocks_hdrs [OF assms(1)]]
      assms(3,4) by auto
qed

lemma last_hdr_mid: "last_hdr p s (xs @ (n, f) # ys) = last_hdr (s + extent xs) (s + extent xs + 32 + n) ys"
  by (simp add: last_hdr_append)

lemma last_hdr_eq_iff: "last_hdr a (a + 32 + n) ys = a \<longleftrightarrow> ys = []"
  using last_hdr_in [of ys a "a + 32 + n"] hdrs_range [of "last_hdr a (a + 32 + n) ys" "a + 32 + n" ys] by fastforce

lemma spaced_split:
  assumes "spaced (set (hdrs s (xs @ (n, f) # ys)))" and "sz + 64 \<le> 32 + n"
  shows "spaced (insert (s + extent xs + sz + 32) (set (hdrs s (xs @ (n, f) # ys))))"
proof -
  let ?new = "s + extent xs + sz + 32"
  have "h + 32 \<le> ?new \<or> ?new + 32 \<le> h" if h: "h \<in> set (hdrs s (xs @ (n, f) # ys))" for h
  proof -
    consider "h \<in> set (hdrs s xs)" | "h = s + extent xs" | "h \<in> set (hdrs (s + extent xs + 32 + n) ys)"
      using h by (auto simp: hdrs_append)
    then show ?thesis
    proof cases
      case 1
      then show ?thesis using hdrs_range [of h s xs] by simp
    next
      case 2
      then show ?thesis by simp
    next
      case 3
      then show ?thesis using hdrs_range [of h "s + extent xs + 32 + n" ys] assms(2) by simp
    qed
  qed
  then show ?thesis using assms(1) unfolding spaced_def by blast
qed

lemma turn_found:
  assumes R: "heap_rel pos (xs @ (n, True) # ys) k" and s: "s = unat (HeapStart k)" and a: "a = s + extent xs"
    and sz: "sz \<le> n" "16 \<le> sz" "sz mod 16 = 0"
  obtains k' where "malloc_turn (wn a) (wn sz) k = Ret (Inl (Some (wn (a + 32)))) k'"
    and "heap_rel pos (xs @ taken sz n @ ys) k'" and "heap_frame k k'"
    and "payload_kept (blocks s (xs @ (n, True) # ys)) k k'"
proof -
  let ?ss = "xs @ (n, True) # ys" and ?ss' = "xs @ taken sz n @ ys"
  note a' = a [unfolded s]
  note S = heap_rel_start [OF R] and at = heap_rel_at [OF R a']
  have R': "seg_ok ?ss" "0 < s" "s + extent ?ss = unat (HeapEnd k)" "extent ?ss < 2 ^ 63"
    "chain (hdr_at (vmem k)) 0 s ?ss 0"
    using R by (simp_all add: heap_rel_def s)
  note g = hst_get [OF S at(2), unfolded at(1)]
  have b: "n < 2 ^ 64" "sz < 2 ^ 64" using at(4) sz(1) by simp_all
  have "16 dvd n" "16 dvd sz" using R'(1) sz(3) by (auto simp: seg_ok_def)
  then have "16 dvd n - sz - 32" by (intro dvd_diff_nat) simp_all
  then have "(n - sz - 32) mod 16 = 0" by simp
  moreover have "coalesced ?ss'" using R'(1) coalesced_taken by (simp add: seg_ok_def)
  ultimately have ok': "seg_ok ?ss'" using R'(1) sz by (auto simp: seg_ok_def taken_def)
  define new where "new = a + sz + 32"
  define cut where "cut = (sz + 48 \<le> n)"
  define A where "A = (if cut then insert new (set (hdrs s ?ss)) else set (hdrs s ?ss))"
  have SA: "hst A pos k k (hdr_at (vmem k)) (last_hdr 0 s ?ss)"
  proof (cases cut)
    case True
    then have "new + 32 \<le> unat (HeapEnd k)" "s \<le> new" using R'(3) a by (auto simp: new_def cut_def)
    then show ?thesis using True spaced_split [OF hdrs_spaced, of sz n s xs True ys] hst_insert [OF S, of new] a
      by (simp add: A_def new_def cut_def s)
  next
    case False
    then show ?thesis using S by (simp add: A_def s)
  qed
  have aA: "a \<in> A" using at(2) by (simp add: A_def s)
  define H1 where "H1 = (if cut then split_hdrs a sz (hdr_at (vmem k)) else hdr_at (vmem k))"
  define l1 where "l1 = (if cut \<and> ys = [] then new else last_hdr 0 s ?ss)"
  have last: "last_hdr 0 s ?ss = last_hdr a (a + 32 + n) ys" using a by (simp add: last_hdr_mid)
  have l1: "l1 = last_hdr 0 s ?ss'"
    using sz(1) a last_hdr_prev [of ys new "new + 32 + (n - sz - 32)" a]
    by (auto simp: l1_def last taken_def cut_def new_def last_hdr_append algebra_simps)
  obtain r k1 where k1: "(if sz < n then SegmentHeaderSplit (wn a) (wn sz) k else Ret 0 k) = Ret r k1"
    and S1: "hst A pos k k1 H1 l1"
  proof (cases cut)
    case True
    then have c: "sz + 48 \<le> n" by (simp add: cut_def)
    have nv: "hNext (hdr_at (vmem k) a) = (if ys = [] then 0 else a + 32 + n)" using at(1) by simp
    have nx: "hNext (hdr_at (vmem k) a) = 0 \<or> hNext (hdr_at (vmem k) a) \<in> A \<and>
        hNext (hdr_at (vmem k) a) \<noteq> a \<and> hNext (hdr_at (vmem k) a) \<noteq> new"
      unfolding nv using True c a by (cases ys) (auto simp: A_def new_def hdrs_append)
    have "new \<in> A" using True by (simp add: A_def)
    then have "wp (SegmentHeaderSplit (wn a) (wn sz) k)
        (\<lambda>_ k'. hst A pos k k' (split_hdrs a sz (hdr_at (vmem k))) (if last_hdr 0 s ?ss = a then new else last_hdr 0 s ?ss))"
      using c sz(2) at(4) nx by (intro split_cut [OF SA aA]) (auto simp: at(1) new_def)
    then show ?thesis using that True c
      by (auto simp: wp_def H1_def l1_def last last_hdr_eq_iff)
  next
    case False
    then have "(if sz < n then SegmentHeaderSplit (wn a) (wn sz) k else Ret 0 k) = Ret 0 k"
      using split_keep [OF SA aA, of sz] at by (simp add: cut_def)
    then show ?thesis using that SA False by (simp add: H1_def l1_def)
  qed
  have c1: "chain H1 0 s (xs @ (if cut then (sz, True) # (n - sz - 32, True) # ys else (n, True) # ys)) 0"
    using chain_split [OF R'(5) a, of sz] R'(5) by (auto simp: H1_def cut_def)
  obtain k2 where k2: "set_IsFree (wn a) False k1 = Ret () k2"
    and S2: "hst A pos k k2 (H1(a := (H1 a)\<lparr>hFree := False\<rparr>)) l1"
    using wp_set(4) [OF S1 aA b(2), of False "\<lambda>_ k'. hst A pos k k' (H1(a := (H1 a)\<lparr>hFree := False\<rparr>)) l1"]
    by (auto simp: wp_def)
  have c2: "chain (H1(a := (H1 a)\<lparr>hFree := False\<rparr>)) 0 s ?ss' 0"
    using chain_set_free [OF _ a, of H1 0 _ True _ 0 False] c1 by (auto simp: taken_def cut_def split: if_splits)
  have sub: "set (hdrs (unat (HeapStart k)) ?ss') \<subseteq> A"
    using a s by (auto simp: A_def taken_def cut_def new_def hdrs_append algebra_simps)
  have tot: "unat (HeapStart k) + extent ?ss' = unat (HeapEnd k)" "extent ?ss' < 2 ^ 63"
    using R'(3,4) sz(1) s by simp_all
  have pos: "0 < unat (HeapStart k)" using R'(2) s by simp
  note F = hst_heap_rel [OF S2 ok' sub c2 [unfolded s] l1 [unfolded s] pos tot]
  have "malloc_turn (wn a) (wn sz) k = Ret (Inl (Some (wn (a + 32)))) k2"
    using k1 k2 g sz(1) wn_less_iff [OF b(2,1)] wn_eq_iff [OF b]
    by (auto simp: malloc_turn_def sizeof_HeapSegmentHeader_def split: if_splits)
  moreover have "payload_kept (blocks s ?ss) k k2"
  proof (rule hst_payload [OF S2])
    fix h m
    assume B: "(h, m, False) \<in> blocks s ?ss"
    then show "unat (HeapStart k) \<le> h \<and> h + 32 + m \<le> unat (HeapEnd k)"
      using blocks_range [OF B] R'(3) s by simp
    fix b
    assume "b \<in> A"
    moreover have "(a, n, True) \<in> blocks s ?ss" using a by (simp add: blocks_append)
    ultimately show "b + 32 \<le> h + 32 \<or> h + 32 + m \<le> b"
      using payload_apart [OF B, of b] payload_apart_new [OF B, of a n new]
      by (auto simp: A_def new_def cut_def split: if_splits)
  qed
  ultimately show ?thesis using that F by blast
qed

subsection \<open>The search\<close>

text \<open>
  First fit: the first free segment that is long enough is taken, split when what remains
  has room for a header and sixteen bytes. The result is the distance of the block's header
  from the start of the list, and the new list.
\<close>

fun alloc_spec :: "nat \<Rightarrow> segs \<Rightarrow> (nat \<times> segs) option" where
  "alloc_spec sz [] = None"
| "alloc_spec sz ((n, f) # ss) =
     (if f \<and> sz \<le> n then Some (0, taken sz n @ ss)
      else map_option (\<lambda>(d, ss'). (32 + n + d, (n, f) # ss')) (alloc_spec sz ss))"

lemma search_ok:
  assumes "heap_rel pos (xs @ ys) k" "ys \<noteq> []" "s = unat (HeapStart k)"
    and sz: "16 \<le> sz" "sz mod 16 = 0" "sz < 2 ^ 64"
  shows "case alloc_spec sz ys of
      None \<Rightarrow> malloc_search (wn (s + extent xs)) (wn sz) k = Some (Ret None k)
    | Some (d, ys') \<Rightarrow> \<exists>k'. malloc_search (wn (s + extent xs)) (wn sz) k = Some (Ret (Some (wn (s + extent xs + d + 32))) k') \<and>
        heap_rel pos (xs @ ys') k' \<and> heap_frame k k' \<and> payload_kept (blocks s (xs @ ys)) k k'"
  using assms(1,2)
proof (induction ys arbitrary: xs)
  case Nil
  then show ?case by simp
next
  case (Cons y ys)
  obtain n f where y: "y = (n, f)" by (cases y)
  note R = Cons.prems(1) [unfolded y]
  show ?case
  proof (cases "f \<and> sz \<le> n")
    case True
    then have f: "f = True" by simp
    obtain k' where "malloc_turn (wn (s + extent xs)) (wn sz) k = Ret (Inl (Some (wn (s + extent xs + 32)))) k'"
      "heap_rel pos (xs @ taken sz n @ ys) k'" "heap_frame k k'"
      "payload_kept (blocks s (xs @ (n, True) # ys)) k k'"
      using turn_found [OF R [unfolded f] assms(3) refl _ sz(1,2)] True by blast
    then show ?thesis using True f by (subst malloc_search.simps) (auto simp: y)
  next
    case False
    have turn: "malloc_turn (wn (s + extent xs)) (wn sz) k =
        Ret (if ys = [] then Inl None else Inr (wn (s + extent xs + 32 + n))) k"
      using turn_next [OF R _ False sz(3)] assms(3) by simp
    show ?thesis
    proof (cases "ys = []")
      case True
      then show ?thesis using turn False by (subst malloc_search.simps) (auto simp: y)
    next
      case ne: False
      have step: "malloc_search (wn (s + extent xs)) (wn sz) k = malloc_search (wn (s + extent (xs @ [(n, f)]))) (wn sz) k"
        using turn ne by (subst malloc_search.simps) (simp add: algebra_simps)
      have R2: "heap_rel pos ((xs @ [(n, f)]) @ ys) k" using R by simp
      show ?thesis
        using Cons.IH [OF R2 ne] False unfolding step y
        by (auto simp: algebra_simps split: option.splits)
    qed
  qed
qed

subsection \<open>Joining neighbours\<close>

fun join_next :: "nat \<times> bool \<Rightarrow> segs \<Rightarrow> segs" where
  "join_next (n, f) ((m, True) # ys) = (n + m + 32, f) # ys"
| "join_next x ys = x # ys"

definition join_prev :: "segs \<Rightarrow> segs \<Rightarrow> segs" where
  "join_prev xs ys = (if xs \<noteq> [] \<and> snd (last xs) then butlast xs @ join_next (last xs) ys else xs @ ys)"

definition free_spec :: "segs \<Rightarrow> nat \<Rightarrow> segs \<Rightarrow> segs" where
  "free_spec xs n ys = join_prev xs (join_next (n, True) ys)"

text \<open>A state in the middle of an operation that started in \<open>k0\<close>: the headers spell out \<open>ss\<close>.\<close>

definition hchain :: "nat set \<Rightarrow> (u64 \<rightharpoonup> u64 list) \<Rightarrow> 'a heap_scheme \<Rightarrow> 'a heap_scheme \<Rightarrow> segs \<Rightarrow> bool" where
  "hchain A pos k0 k ss \<longleftrightarrow>
     0 < unat (HeapStart k0) \<and> unat (HeapStart k0) + extent ss = unat (HeapEnd k0) \<and> extent ss < 2 ^ 63 \<and>
     set (hdrs (unat (HeapStart k0)) ss) \<subseteq> A \<and>
     (\<exists>H. hst A pos k0 k H (last_hdr 0 (unat (HeapStart k0)) ss) \<and> chain H 0 (unat (HeapStart k0)) ss 0)"

lemma extent_join_next [simp]: "extent (join_next x ys) = extent (x # ys)"
  by (induction x ys rule: join_next.induct) auto

lemma hdrs_join_next: "set (hdrs a (join_next x ys)) \<subseteq> set (hdrs a (x # ys))"
  by (induction x ys rule: join_next.induct) (auto simp: algebra_simps)

lemma join_next_nonempty [simp]: "join_next x ys \<noteq> []"
  by (induction x ys rule: join_next.induct) auto

lemma combine_forward_ok:
  assumes C: "hchain A pos k0 k (xs @ (n, f) # ys)" and a: "a = unat (HeapStart k0) + extent xs"
  shows "\<exists>k'. SegmentHeaderCombineForward (wn a) k = Ret () k' \<and> hchain A pos k0 k' (xs @ join_next (n, f) ys)"
proof -
  let ?s = "unat (HeapStart k0)" and ?ss = "xs @ (n, f) # ys"
  obtain H where S: "hst A pos k0 k H (last_hdr 0 ?s ?ss)" and c: "chain H 0 ?s ?ss 0"
    using C by (auto simp: hchain_def)
  have sub: "set (hdrs ?s ?ss) \<subseteq> A" using C by (simp add: hchain_def)
  have aA: "a \<in> A" using sub a by (auto simp: hdrs_append)
  have Ha: "H a = \<lparr>hLen = n, hNext = (if ys = [] then 0 else a + 32 + n), hLast = last_hdr 0 ?s xs, hFree = f\<rparr>"
    using chain_at [OF c] a by simp
  show ?thesis
  proof (cases "\<exists>m zs. ys = (m, True) # zs")
    case False
    then have j: "join_next (n, f) ys = (n, f) # ys" by (cases "(n, f, ys)" rule: prod_cases3) (cases ys; auto)
    have "hNext (H a) = 0 \<or> hNext (H a) \<in> A \<and> \<not> hFree (H (hNext (H a)))"
    proof (cases ys)
      case Nil
      then show ?thesis using Ha by simp
    next
      case (Cons y zs)
      obtain m g where y: "y = (m, g)" by (cases y)
      have "H (a + 32 + n) = \<lparr>hLen = m, hNext = (if zs = [] then 0 else a + 32 + n + 32 + m), hLast = a, hFree = g\<rparr>"
        using c a Cons y by (simp add: chain_append)
      then show ?thesis using Ha Cons y False sub a by (auto simp: hdrs_append)
    qed
    then show ?thesis using combine_stop [OF S aA] C j by auto
  next
    case True
    then obtain m zs where ys: "ys = (m, True) # zs" by blast
    let ?nx = "a + 32 + n" and ?nn = "if zs = [] then 0 else a + 32 + n + 32 + m"
    have Hx: "H ?nx = \<lparr>hLen = m, hNext = ?nn, hLast = a, hFree = True\<rparr>"
      using c a ys by (simp add: chain_append)
    have nx: "?nx = hNext (H a)" "?nx \<noteq> 0" "?nx \<in> A" "hFree (H ?nx)" "?nx \<noteq> a"
      using Ha ys Hx sub a by (auto simp: hdrs_append)
    have nn: "?nn = hNext (H ?nx)" "?nn = 0 \<or> ?nn \<in> A \<and> ?nn \<noteq> a \<and> ?nn \<noteq> ?nx"
      using Hx sub a ys by (cases zs, auto simp: hdrs_append algebra_simps)+
    have len: "hLen (H a) + hLen (H ?nx) + 32 < 2 ^ 64" using Ha Hx C ys by (simp add: hchain_def)
    let ?l = "if last_hdr 0 ?s ?ss = ?nx then a else last_hdr 0 ?s ?ss"
    obtain k' where k': "SegmentHeaderCombineForward (wn a) k = Ret () k'" "hst A pos k0 k' (combined a H) ?l"
      using combine_join [OF S aA nx nn len] by (auto simp: wp_def)
    have "chain (combined a H) 0 ?s (xs @ (n + m + 32, f) # zs) 0"
      using chain_combined [OF _ a] c ys by blast
    moreover have "?l = last_hdr 0 ?s (xs @ (n + m + 32, f) # zs)"
      using last_hdr_eq_iff [of ?nx m zs] last_hdr_prev [of zs a "a + 32 + n + 32 + m" ?nx] a ys
      by (auto simp: last_hdr_append algebra_simps)
    moreover have "set (hdrs ?s (xs @ join_next (n, f) ys)) \<subseteq> A"
      using sub hdrs_join_next [of "?s + extent xs" "(n, f)" ys] by (auto simp: hdrs_append)
    moreover have "extent (xs @ join_next (n, f) ys) = extent ?ss" by simp
    ultimately have "hchain A pos k0 k' (xs @ join_next (n, f) ys)"
      using C k'(2) ys unfolding hchain_def by auto
    then show ?thesis using k'(1) by blast
  qed
qed

lemma combine_backward_ok:
  assumes C: "hchain A pos k0 k (xs @ (n, f) # ys)" and a: "a = unat (HeapStart k0) + extent xs"
  shows "\<exists>k'. SegmentHeaderCombineBackward (wn a) k = Ret () k' \<and> hchain A pos k0 k' (join_prev xs ((n, f) # ys))"
proof -
  let ?s = "unat (HeapStart k0)" and ?ss = "xs @ (n, f) # ys"
  obtain H where S: "hst A pos k0 k H (last_hdr 0 ?s ?ss)" and c: "chain H 0 ?s ?ss 0"
    using C by (auto simp: hchain_def)
  have sub: "set (hdrs ?s ?ss) \<subseteq> A" and pos: "0 < ?s" using C by (simp_all add: hchain_def)
  have aA: "a \<in> A" using sub a by (auto simp: hdrs_append)
  have Ha: "hLast (H a) = last_hdr 0 ?s xs" using chain_at [OF c] a by simp
  show ?thesis
  proof (cases xs rule: rev_cases)
    case Nil
    then show ?thesis using hst_get(3) [OF S aA] Ha C
      by (auto simp: SegmentHeaderCombineBackward_def join_prev_def)
  next
    case (snoc ws y)
    obtain m g where y: "y = (m, g)" by (cases y)
    let ?p = "?s + extent ws"
    have la: "hLast (H a) = ?p" using Ha snoc y by (simp add: last_hdr_append)
    have pA: "?p \<in> A" using sub snoc y by (auto simp: hdrs_append)
    have p: "wn ?p \<noteq> 0" using wn_0_iff [of ?p] hst_bound(3) [OF S pA] pos by simp
    have C': "hchain A pos k0 k (ws @ (m, g) # (n, f) # ys)" using C snoc y by simp
    have "hFree (H ?p) = g" using chain_at [of H 0 ?s ws m g "(n, f) # ys"] c snoc y by simp
    then have "SegmentHeaderCombineBackward (wn a) k = (if g then SegmentHeaderCombineForward (wn ?p) k else Ret () k)"
      using hst_get(3) [OF S aA] hst_get(4) [OF S pA] la p by (simp add: SegmentHeaderCombineBackward_def)
    then show ?thesis using combine_forward_ok [OF C' refl] C snoc y by (auto simp: join_prev_def)
  qed
qed

lemma join_next_cases:
  "(\<exists>m zs. ys = (m, True) # zs \<and> join_next (n, f) ys = (n + m + 32, f) # zs) \<or>
   (join_next (n, f) ys = (n, f) # ys \<and> (ys = [] \<or> \<not> snd (hd ys)))"
  by (cases ys) (auto split: bool.split)

lemma seg_ok_join:
  assumes len: "\<forall>(n, f)\<in>set (xs @ (n, g) # ys). 16 \<le> n \<and> n mod 16 = 0"
    and c: "coalesced xs" "coalesced ys"
  shows "seg_ok (join_prev xs (join_next (n, True) ys))"
proof -
  have ge: "16 \<le> m \<and> m mod 16 = 0" if "(m, f) \<in> set xs \<or> (m, f) \<in> set ys \<or> m = n" for m f
    using len that by auto
  have add: "(i + j + 32) mod 16 = 0" if "i mod 16 = 0" "j mod 16 = 0" for i j :: nat using that by presburger
  obtain n' zs where j: "join_next (n, True) ys = (n', True) # zs" and zs: "coalesced zs" "zs = [] \<or> \<not> snd (hd zs)"
    and n': "16 \<le> n'" "n' mod 16 = 0" "set zs \<subseteq> set ys"
    using join_next_cases [of ys n True] c(2) ge add
    by (fastforce simp: coalesced_def successively_Cons)
  have head: "coalesced ((i, True) # zs)" for i using zs by (cases zs) (auto simp: coalesced_def)
  show ?thesis
  proof (cases xs rule: rev_cases)
    case Nil
    then show ?thesis using j head n' ge by (auto simp: join_prev_def seg_ok_def)
  next
    case (snoc ws y)
    obtain m f where y: "y = (m, f)" by (cases y)
    have m: "16 \<le> m" "m mod 16 = 0" using ge [of m f] snoc y by auto
    have ws: "coalesced ws" "ws = [] \<or> \<not> (snd (last ws) \<and> f)"
      using c(1) snoc y by (auto simp: coalesced_def successively_append_iff)
    show ?thesis
    proof (cases f)
      case True
      then have "join_prev xs (join_next (n, True) ys) = ws @ (m + n' + 32, True) # zs"
        using snoc y j by (simp add: join_prev_def)
      moreover have "coalesced (ws @ (m + n' + 32, True) # zs)"
        using ws True head [of "m + n' + 32"] by (auto simp: coalesced_def successively_append_iff)
      ultimately show ?thesis using m n' add [OF m(2) n'(2)] ge snoc by (auto simp: seg_ok_def)
    next
      case False
      then have "join_prev xs (join_next (n, True) ys) = xs @ (n', True) # zs"
        using snoc y j by (simp add: join_prev_def)
      moreover have "coalesced (xs @ (n', True) # zs)"
        using c(1) False snoc y head [of n'] by (auto simp: coalesced_def successively_append_iff)
      ultimately show ?thesis using n' ge by (auto simp: seg_ok_def)
    qed
  qed
qed

lemma hchain_heap_rel:
  assumes "hchain A pos k k' ss" "seg_ok ss"
  shows "heap_rel pos ss k'" and "heap_frame k k'"
proof -
  obtain H where S: "hst A pos k k' H (last_hdr 0 (unat (HeapStart k)) ss)" and c: "chain H 0 (unat (HeapStart k)) ss 0"
    using assms(1) by (auto simp: hchain_def)
  have r: "0 < unat (HeapStart k)" "unat (HeapStart k) + extent ss = unat (HeapEnd k)" "extent ss < 2 ^ 63"
    "set (hdrs (unat (HeapStart k)) ss) \<subseteq> A" using assms(1) by (simp_all add: hchain_def)
  note F = hst_heap_rel [OF S assms(2) r(4) c refl r(1-3)]
  show "heap_rel pos ss k'" "heap_frame k k'" by (fact F)+
qed

lemma hchain_payload:
  assumes "hchain (set (hdrs (unat (HeapStart k)) ss)) pos k k' ss'" "heap_rel pos ss k"
    and "B \<subseteq> blocks (unat (HeapStart k)) ss"
  shows "payload_kept B k k'"
proof -
  obtain H l where S: "hst (set (hdrs (unat (HeapStart k)) ss)) pos k k' H l"
    using assms(1) by (auto simp: hchain_def)
  have e: "unat (HeapStart k) + extent ss = unat (HeapEnd k)" using assms(2) by (simp add: heap_rel_def)
  show ?thesis
    by (rule hst_payload [OF S]) (use assms(3) blocks_range payload_apart in \<open>auto simp flip: e, blast+\<close>)
qed

lemma free_ok:
  assumes R: "heap_rel pos (xs @ (n, False) # ys) k" and s: "s = unat (HeapStart k)" and a: "a = s + extent xs"
  obtains k' where "free (wn (a + 32)) k = Ret () k'" and "heap_rel pos (free_spec xs n ys) k'"
    and "heap_frame k k'" and "payload_kept (blocks s (xs @ (n, False) # ys)) k k'"
proof -
  let ?ss = "xs @ (n, False) # ys"
  define A where "A = set (hdrs s ?ss)"
  note S = heap_rel_start [OF R, folded s, folded A_def]
  have R': "seg_ok ?ss" "0 < s" "s + extent ?ss = unat (HeapEnd k)" "extent ?ss < 2 ^ 63"
    "chain (hdr_at (vmem k)) 0 s ?ss 0"
    using R by (simp_all add: heap_rel_def s)
  have aA: "a \<in> A" using a by (simp add: A_def hdrs_append)
  let ?H1 = "(hdr_at (vmem k))(a := (hdr_at (vmem k) a)\<lparr>hFree := True\<rparr>)"
  obtain k1 where k1: "set_IsFree (wn a) True k = Ret () k1" and S1: "hst A pos k k1 ?H1 (last_hdr 0 s ?ss)"
    using wp_set(4) [OF S aA, of 0 True "\<lambda>_ k'. hst A pos k k' ?H1 (last_hdr 0 s ?ss)"] by (auto simp: wp_def)
  have "chain ?H1 0 s (xs @ (n, True) # ys) 0" using chain_set_free [OF R'(5) a] .
  moreover have "set (hdrs s (xs @ (n, True) # ys)) \<subseteq> A" by (simp add: A_def hdrs_append)
  moreover have "last_hdr 0 s (xs @ (n, True) # ys) = last_hdr 0 s ?ss" by (simp add: last_hdr_append)
  ultimately have C1: "hchain A pos k k1 (xs @ (n, True) # ys)"
    using R' S1 unfolding hchain_def s [symmetric] by auto
  obtain k2 where k2: "SegmentHeaderCombineForward (wn a) k1 = Ret () k2"
    and C2: "hchain A pos k k2 (xs @ join_next (n, True) ys)"
    using combine_forward_ok [OF C1] a s by blast
  obtain n' zs where j: "join_next (n, True) ys = (n', True) # zs" using join_next_cases [of ys n True] by auto
  obtain k3 where k3: "SegmentHeaderCombineBackward (wn a) k2 = Ret () k3"
    and C3: "hchain A pos k k3 (free_spec xs n ys)"
    using combine_backward_ok [OF C2 [unfolded j]] a s unfolding free_spec_def j by blast
  have "coalesced xs" "coalesced ys"
    using R'(1) by (auto simp: seg_ok_def coalesced_def successively_append_iff successively_Cons)
  then have ok: "seg_ok (free_spec xs n ys)"
    unfolding free_spec_def using R'(1) by (intro seg_ok_join [of _ _ False]) (auto simp: seg_ok_def)
  have "free (wn (a + 32)) k = Ret () k3"
    using k1 k2 k3 by (simp add: free_def sizeof_HeapSegmentHeader_def)
  moreover have "payload_kept (blocks s ?ss) k k3"
    using hchain_payload [OF C3 [unfolded A_def s] R] by (simp add: s)
  ultimately show ?thesis using that hchain_heap_rel [OF C3 ok] by blast
qed

subsection \<open>Growing the heap\<close>

definition expand_spec :: "nat \<Rightarrow> segs \<Rightarrow> segs" where
  "expand_spec L ss = join_prev ss [(L - 32, True)]"

lemma chain_set_next:
  assumes "chain H p a ss e" "ss \<noteq> []" "t = last_hdr p a ss"
  shows "chain (H(t := (H t)\<lparr>hNext := e'\<rparr>)) p a ss e'"
  using assms
proof (induction ss arbitrary: p a rule: extent.induct)
  case 1
  then show ?case by simp
next
  case (2 n f ss)
  show ?case
  proof (cases "ss = []")
    case True
    then show ?thesis using 2 by simp
  next
    case False
    have "t \<in> set (hdrs (a + 32 + n) ss)" using 2 False last_hdr_in [of ss a "a + 32 + n"] by simp
    then have "a \<noteq> t" using hdrs_range [of t "a + 32 + n" ss] by auto
    then show ?thesis using 2 False by simp
  qed
qed

lemma heap_rel_grown:
  assumes R: "heap_rel pos ss k" and sp: "space pos1 (unat (HeapStart k)) (unat (HeapEnd k) + L) k1"
    and b: "unat (HeapEnd k) + L < 2 ^ 64" "extent ss + L < 2 ^ 63" "32 \<le> L"
    and f: "\<exists>m l e. k1 = k\<lparr>mem := m, LastAddress := l, CurrentPageTableEntry := e, HeapEnd := wn (unat (HeapEnd k) + L)\<rparr>"
    and v: "\<forall>x. in_range (unat (HeapStart k)) (unat (HeapEnd k)) x \<longrightarrow> vmem k1 x = vmem k x"
  shows "hst (insert (unat (HeapEnd k)) (set (hdrs (unat (HeapStart k)) ss))) pos1 k1 k1 (hdr_at (vmem k1))
      (last_hdr 0 (unat (HeapStart k)) ss)"
    and "chain (hdr_at (vmem k1)) 0 (unat (HeapStart k)) ss 0"
    and "HeapStart k1 = HeapStart k" and "unat (HeapEnd k1) = unat (HeapEnd k) + L"
    and "LastHeapHDR k1 = LastHeapHDR k"
    and "payload_kept (blocks (unat (HeapStart k)) ss) k k1"
proof -
  let ?s = "unat (HeapStart k)" and ?e = "unat (HeapEnd k)"
  have R': "ss \<noteq> []" "?s + extent ss = ?e" "chain (hdr_at (vmem k)) 0 ?s ss 0" "LastHeapHDR k = wn (last_hdr 0 ?s ss)"
    using R by (simp_all add: heap_rel_def seg_ok_def)
  show F: "HeapStart k1 = HeapStart k" "LastHeapHDR k1 = LastHeapHDR k" using f by auto
  have "HeapEnd k1 = wn (?e + L)" using f by auto
  then show E: "unat (HeapEnd k1) = ?e + L" using unat_word_of_nat64 [OF b(1)] by simp
  have same: "vmem k1 (wn x) = vmem k (wn x)" if "?s \<le> x" "x < ?e" for x
  proof -
    have "unat (wn x) = x" using that(2) below_word [of x "HeapEnd k"] by (intro unat_word_of_nat64) simp
    then show ?thesis using v that by (simp add: in_range_def)
  qed
  have hd: "hdr_at (vmem k1) h = hdr_at (vmem k) h" if h: "h \<in> set (hdrs ?s ss)" for h
  proof (rule hdr_at_cong)
    fix x
    assume "offs (wn h) x < 32"
    then show "vmem k1 x = vmem k x"
      using v hst_range(2) [OF heap_rel_start [OF R] h] by (simp add: in_heap_def)
  qed
  show "chain (hdr_at (vmem k1)) 0 ?s ss 0" using chain_cong [of ?s ss "hdr_at (vmem k1)" "hdr_at (vmem k)"] hd R'(3) by simp
  show "payload_kept (blocks ?s ss) k k1"
    unfolding payload_kept_def
  proof (intro allI impI)
    fix h n i
    assume B: "(h, n, False) \<in> blocks ?s ss" and i: "i < n"
    have "?s \<le> h" "h + 32 + n \<le> ?e" using blocks_range [OF B] R'(2) by simp_all
    then show "vmem k1 (wn (h + 32 + i)) = vmem k (wn (h + 32 + i))"
      using i by (intro same) simp_all
  qed
  have "spaced (insert ?e (set (hdrs ?s ss)))"
    using hdrs_spaced [of ?s ss] hdrs_range [of _ ?s ss] R'(2) unfolding spaced_def by fastforce
  moreover have "heap_space pos1 k1" using sp F E by (simp add: heap_space_def)
  moreover have "last_hdr 0 ?s ss < 2 ^ 64"
    using hst_last_bound [OF heap_rel_start [OF R]] .
  moreover have "\<exists>m. k1 = k1\<lparr>mem := m, LastHeapHDR := wn (last_hdr 0 ?s ss)\<rparr>"
  proof
    have e: "wn (last_hdr 0 ?s ss) = LastHeapHDR k1" using R'(4) F by simp
    show "k1 = k1\<lparr>mem := mem k1, LastHeapHDR := wn (last_hdr 0 ?s ss)\<rparr>" unfolding e by simp
  qed
  moreover have "\<forall>a\<in>insert ?e (set (hdrs ?s ss)). unat (HeapStart k1) \<le> a \<and> a + 32 \<le> unat (HeapEnd k1)"
  proof
    fix a
    assume "a \<in> insert ?e (set (hdrs ?s ss))"
    then show "unat (HeapStart k1) \<le> a \<and> a + 32 \<le> unat (HeapEnd k1)"
      using hdrs_range [of a ?s ss] R'(2) F E b(3) by auto
  qed
  ultimately show "hst (insert ?e (set (hdrs ?s ss))) pos1 k1 k1 (hdr_at (vmem k1)) (last_hdr 0 ?s ss)"
    unfolding hst_def by blast
qed

lemma new_segment_ok:
  assumes S: "hst A pos k k H l" and c: "chain H 0 s ss 0" and ne: "ss \<noteq> []" and l: "l = last_hdr 0 s ss"
    and s: "s = unat (HeapStart k)" "0 < s" and e: "e = s + extent ss" and E: "e + L = unat (HeapEnd k)"
    and A: "A = insert e (set (hdrs s ss))" and L: "32 \<le> L" "extent ss + L < 2 ^ 63"
  shows "\<exists>k'. and_then (set_IsFree (wn e) True k) (\<lambda>_ k.
         and_then (set_Last (wn e) (LastHeapHDR k) k) (\<lambda>_ k.
         and_then (set_Next (LastHeapHDR k) (wn e) k) (\<lambda>_ k.
         let k = k\<lparr>LastHeapHDR := wn e\<rparr> in
         and_then (set_Next (wn e) 0 k) (\<lambda>_ k.
         and_then (set_Length (wn e) (wn L - sizeof_HeapSegmentHeader) k) (\<lambda>_ k.
         SegmentHeaderCombineBackward (wn e) k))))) = Ret () k' \<and>
       hchain A pos k k' (expand_spec L ss)"
proof -
  have eA: "e \<in> A" by (simp add: A)
  have lA: "l \<in> A" using last_hdr_in [OF ne] by (simp add: A l)
  have le: "l \<noteq> e" using hdrs_range [OF last_hdr_in [OF ne, of 0 s]] e l by auto
  have b: "e < 2 ^ 64" "l < 2 ^ 64" "L - 32 < 2 ^ 64"
    using hst_bound(3) [OF S eA] hst_last_bound [OF S] L(2) by simp_all
  define H1 where "H1 = H(e := (H e)\<lparr>hFree := True\<rparr>)"
  obtain k1 where k1: "set_IsFree (wn e) True k = Ret () k1" and S1: "hst A pos k k1 H1 l"
    using wp_set(4) [OF S eA b(1), of True "\<lambda>_ k'. hst A pos k k' H1 l"] by (auto simp: wp_def H1_def)
  define H2 where "H2 = H1(e := (H1 e)\<lparr>hLast := l\<rparr>)"
  obtain k2 where k2: "set_Last (wn e) (wn l) k1 = Ret () k2" and S2: "hst A pos k k2 H2 l"
    using wp_set(3) [OF S1 eA b(2), of "\<lambda>_ k'. hst A pos k k' H2 l"] by (auto simp: wp_def H2_def)
  define H3 where "H3 = H2(l := (H2 l)\<lparr>hNext := e\<rparr>)"
  obtain k3 where k3: "set_Next (wn l) (wn e) k2 = Ret () k3" and S3: "hst A pos k k3 H3 l"
    using wp_set(2) [OF S2 lA b(1), of "\<lambda>_ k'. hst A pos k k' H3 l"] by (auto simp: wp_def H3_def)
  define k4 where "k4 = k3\<lparr>LastHeapHDR := wn e\<rparr>"
  have S4: "hst A pos k k4 H3 e" using hst_last(2) [OF S3 b(1)] by (simp add: k4_def)
  define H5 where "H5 = H3(e := (H3 e)\<lparr>hNext := 0\<rparr>)"
  obtain k5 where k5: "set_Next (wn e) (wn 0) k4 = Ret () k5" and S5: "hst A pos k k5 H5 e"
    using wp_set(2) [OF S4 eA, of 0 "\<lambda>_ k'. hst A pos k k' H5 e"] by (auto simp: wp_def H5_def)
  define H6 where "H6 = H5(e := (H5 e)\<lparr>hLen := L - 32\<rparr>)"
  obtain k6 where k6: "set_Length (wn e) (wn (L - 32)) k5 = Ret () k6" and S6: "hst A pos k k6 H6 e"
    using wp_set(1) [OF S5 eA b(3), of "\<lambda>_ k'. hst A pos k k' H6 e"] by (auto simp: wp_def H6_def)
  have H6e: "H6 e = \<lparr>hLen = L - 32, hNext = 0, hLast = l, hFree = True\<rparr>"
    using le by (simp add: H6_def H5_def H3_def H2_def H1_def)
  have link: "chain (H(l := (H l)\<lparr>hNext := e\<rparr>)) 0 s ss e" using chain_set_next [OF c ne l] .
  have "H6 h = (H(l := (H l)\<lparr>hNext := e\<rparr>)) h" if "h \<in> set (hdrs s ss)" for h
    using hdrs_range [OF that] e le by (simp add: H6_def H5_def H3_def H2_def H1_def)
  then have "chain H6 0 s ss e = chain (H(l := (H l)\<lparr>hNext := e\<rparr>)) 0 s ss e" by (rule chain_cong)
  then have "chain H6 0 s ss e" using link by simp
  then have c6: "chain H6 0 s (ss @ [(L - 32, True)]) 0" using H6e e l by (simp add: chain_append)
  have "hchain A pos k k6 (ss @ [(L - 32, True)])"
    unfolding hchain_def
    using s E L e S6 c6 by (auto simp: A hdrs_append last_hdr_append intro!: exI [of _ H6])
  then obtain k7 where k7: "SegmentHeaderCombineBackward (wn e) k6 = Ret () k7"
    "hchain A pos k k7 (expand_spec L ss)"
    using combine_backward_ok [of A pos k k6 ss "L - 32" True "[]" e] e s by (auto simp: expand_spec_def)
  have w: "wn L - 32 = wn (L - 32)" using L(1) by simp
  have la: "LastHeapHDR k1 = wn l" "LastHeapHDR k2 = wn l" using hst_last(1) [OF S1 b(2)] hst_last(1) [OF S2 b(2)] .
  show ?thesis
    by (rule exI [of _ k7]) (simp only: k1 k2 k3 and_then.simps la Let_def k4_def [symmetric] k5 [simplified] w k6
      sizeof_HeapSegmentHeader_def k7 simp_thms)
qed

text \<open>Rounding up to pages, and what \<^verbatim>\<open>ExpandHeap\<close> does to the list.\<close>

definition pages_for :: "nat \<Rightarrow> nat" where
  "pages_for sz = (sz + 4095) div 4096"

lemma round_up_word:
  assumes "0 < c" "sz + c < 2 ^ 64"
  shows "(if wn sz mod wn c \<noteq> 0 then wn sz - wn sz mod wn c + wn c else wn sz) = wn (c * ((sz + c - 1) div c))"
    and "c * ((sz + c - 1) div c) < 2 ^ 64"
proof -
  have u: "unat (wn sz) = sz" "unat (wn c) = c" using assms by (simp_all add: unat_word_of_nat64)
  have m: "wn sz mod wn c = wn (sz mod c)" using word_arith_nat_mod [of "wn sz" "wn c"] u by simp
  obtain q r where qr: "q = sz div c" "r = sz mod c" by simp
  have sz: "sz = c * q + r" "r < c" unfolding qr using assms(1) by simp_all
  have z: "wn r = 0 \<longleftrightarrow> r = 0" using sz assms by (intro wn_0_iff) simp
  have p: "(sz + c - 1) div c = (if r = 0 then q else q + 1)"
  proof (cases "r = 0")
    case True
    then have e: "sz + c - 1 = (c - 1) + c * q" using sz assms(1) by simp
    have "(sz + c - 1) div c = q + (c - 1) div c" unfolding e using assms(1) by (intro div_mult_self2) simp
    then show ?thesis using True assms(1) by simp
  next
    case False
    then have e: "sz + c - 1 = (r - 1) + c * (q + 1)" using sz assms(1) by (simp add: algebra_simps)
    have "(sz + c - 1) div c = (q + 1) + (r - 1) div c" unfolding e using assms(1) by (intro div_mult_self2) simp
    then show ?thesis using False sz(2) by simp
  qed
  show "(if wn sz mod wn c \<noteq> 0 then wn sz - wn sz mod wn c + wn c else wn sz) = wn (c * ((sz + c - 1) div c))"
    unfolding m qr(2) [symmetric] z p using sz(1) by (simp add: algebra_simps)
  have "c * (q + 1) \<le> sz + c" using sz(1) by simp
  then show "c * ((sz + c - 1) div c) < 2 ^ 64" unfolding p using sz assms(2) by (auto split: if_splits)
qed

lemma round_page_eq:
  assumes "sz + 4096 < 2 ^ 64"
  shows "round_page (wn sz) = wn (4096 * pages_for sz)"
    and "wn (4096 * pages_for sz) div 4096 = wn (pages_for sz)"
proof -
  have e: "sz + 4096 - 1 = sz + 4095" by simp
  show "round_page (wn sz) = wn (4096 * pages_for sz)"
    unfolding round_page_def pages_for_def
    by (rule round_up_word(1) [of 4096 sz, unfolded of_nat_numeral e]) (use assms in simp_all)
  have b: "4096 * pages_for sz < 2 ^ 64"
    unfolding pages_for_def by (rule round_up_word(2) [of 4096 sz, unfolded e]) (use assms in simp_all)
  have "wn (4096 * pages_for sz) div 4096 = wn (unat (wn (4096 * pages_for sz)) div unat (4096 :: u64))"
    by (rule word_arith_nat_div)
  also have "\<dots> = wn (pages_for sz)" unfolding unat_word_of_nat64 [OF b] by simp
  finally show "wn (4096 * pages_for sz) div 4096 = wn (pages_for sz)" .
qed

text \<open>The request in the unit of the heap: a multiple of sixteen.\<close>

definition request :: "u64 \<Rightarrow> nat" where
  "request w = 16 * ((unat w + 15) div 16)"

lemma request_eq:
  assumes "unat w + 16 < 2 ^ 64"
  shows "round_16 w = wn (request w)" and "request w < 2 ^ 64" and "request w mod 16 = 0"
    and "unat w \<le> request w" and "request w < unat w + 16"
proof -
  have pos: "x > 0 \<longleftrightarrow> x \<noteq> 0" for x :: u64 by (simp add: word_gt_0)
  have e: "unat w + 16 - 1 = unat w + 15" and w: "wn (unat w) = w" by simp_all
  show "round_16 w = wn (request w)"
    unfolding round_16_def request_def pos
    by (rule round_up_word(1) [of 16 "unat w", unfolded of_nat_numeral e w]) (use assms in simp_all)
  show "request w < 2 ^ 64"
    unfolding request_def by (rule round_up_word(2) [of 16 "unat w", unfolded e]) (use assms in simp_all)
  obtain q where q: "q = (unat w + 15) div 16" by simp
  have "16 * q \<le> unat w + 15" "unat w + 15 < 16 * q + 16"
    unfolding q by (rule times_div_less_eq_dividend, simp add: dividend_less_times_div)
  then show "unat w \<le> request w" "request w < unat w + 16" "request w mod 16 = 0"
    unfolding request_def q [symmetric] by linarith+ simp
qed

lemma request_again:
  assumes "sz mod 16 = 0" "sz + 16 < 2 ^ 64"
  shows "request (wn sz) = sz"
proof -
  obtain q where q: "sz = 16 * q" using assms(1) by auto
  have "unat (wn sz) = sz" using assms(2) by (intro unat_word_of_nat64) simp
  then show ?thesis unfolding request_def using q by simp
qed

lemma pages_for_bounds:
  assumes "0 < sz"
  shows "0 < pages_for sz" and "sz \<le> 4096 * pages_for sz" and "4096 * pages_for sz < sz + 4096"
proof -
  obtain q where q: "q = pages_for sz" by simp
  have "4096 * q \<le> sz + 4095" "sz + 4095 < 4096 * q + 4096" unfolding q pages_for_def by (rule times_div_less_eq_dividend, simp add: dividend_less_times_div)
  then show "0 < pages_for sz" "sz \<le> 4096 * pages_for sz" "4096 * pages_for sz < sz + 4096"
    using assms unfolding q [symmetric] by linarith+
qed

lemma ExpandHeap_ok:
  assumes R: "heap_rel pos ss k" and sz: "0 < sz" "sz + 4096 < 2 ^ 64" and n: "n = pages_for sz"
    and b: "unat (HeapEnd k) + 4096 * n < 2 ^ 64" "extent ss + 4096 * n < 2 ^ 63"
    and N: "affords_plus N (n + d) pos k" "range_paths (HeapEnd k) n \<subseteq> N"
  obtains k' pos' where "ExpandHeap (wn sz) k = Some (Ret () k')" and "heap_rel pos' (expand_spec (4096 * n) ss) k'"
    and "HeapStart k' = HeapStart k" and "HeapEnd k' = HeapEnd k + wn (4096 * n)" and "affords_plus N d pos' k'"
    and "payload_kept (blocks (unat (HeapStart k)) ss) k k'"
proof -
  let ?s = "unat (HeapStart k)" and ?e = "unat (HeapEnd k)" and ?L = "4096 * n"
  note pf = pages_for_bounds [OF sz(1), folded n]
  have R': "heap_space pos k" "seg_ok ss" "0 < ?s" "?s + extent ss = ?e" using R by (simp_all add: heap_rel_def)
  have ne: "ss \<noteq> []" using R'(2) by (simp add: seg_ok_def)
  have rp: "range_paths (wn ?e) n \<subseteq> N" using N(2) by simp
  obtain k1 pos1 where l1: "ExpandHeap_loop n k = Some (Ret () k1)" "space pos1 ?s (?e + ?L) k1"
    "affords_plus N d pos1 k1"
    and f1: "\<exists>m l e. k1 = k\<lparr>mem := m, LastAddress := l, CurrentPageTableEntry := e, HeapEnd := wn (?e + ?L)\<rparr>"
    and v1: "\<forall>x. in_range ?s ?e x \<longrightarrow> vmem k1 x = vmem k x"
    using ExpandHeap_loop_ok [OF R'(1) [unfolded heap_space_def] refl b(1) N(1) rp] by blast
  have L: "32 \<le> ?L" using pf(1) by simp
  note G = heap_rel_grown [OF R l1(2) b L f1 v1]
  have E: "?e + ?L = unat (HeapEnd k1)" using G(4) by simp
  obtain k2 where k2: "and_then (set_IsFree (wn ?e) True k1) (\<lambda>_ k.
         and_then (set_Last (wn ?e) (LastHeapHDR k) k) (\<lambda>_ k.
         and_then (set_Next (LastHeapHDR k) (wn ?e) k) (\<lambda>_ k.
         let k = k\<lparr>LastHeapHDR := wn ?e\<rparr> in
         and_then (set_Next (wn ?e) 0 k) (\<lambda>_ k.
         and_then (set_Length (wn ?e) (wn ?L - sizeof_HeapSegmentHeader) k) (\<lambda>_ k.
         SegmentHeaderCombineBackward (wn ?e) k))))) = Ret () k2"
    and C: "hchain (insert ?e (set (hdrs ?s ss))) pos1 k1 k2 (expand_spec ?L ss)"
    using new_segment_ok [OF G(1,2) ne refl _ R'(3) R'(4) [symmetric] E refl L b(2)] G(3) by auto
  have he: "wn ?e = HeapEnd k" by simp
  have un: "unat (wn n) = n" using b(2) by (intro unat_word_of_nat64) simp
  have run: "ExpandHeap (wn sz) k = Some (Ret () k2)"
    unfolding ExpandHeap_def Let_def round_page_eq [OF sz(2), folded n]
    by (simp only: un l1(1) then_run_def option.case run.case k2 [unfolded he Let_def])
  have "seg_ok (expand_spec ?L ss)"
  proof -
    have "?L - 32 = 16 * (256 * (n - 1) + 254)" using pf(1) by (cases n) simp_all
    then have "16 \<le> ?L - 32" "(?L - 32) mod 16 = 0" by simp_all
    then have "seg_ok (join_prev ss (join_next (?L - 32, True) []))"
      using R'(2) by (intro seg_ok_join [of _ _ True]) (auto simp: seg_ok_def coalesced_def)
    then show ?thesis by (simp add: expand_spec_def)
  qed
  note rel = hchain_heap_rel [OF C this]
  have "payload_kept (blocks ?s ss) k1 k2"
  proof -
    obtain H l where S: "hst (insert ?e (set (hdrs ?s ss))) pos1 k1 k2 H l" using C by (auto simp: hchain_def)
    show ?thesis
    proof (rule hst_payload [OF S])
      fix h m
      assume B: "(h, m, False) \<in> blocks ?s ss"
      note r = blocks_range [OF B, unfolded R'(4)]
      then show "unat (HeapStart k1) \<le> h \<and> h + 32 + m \<le> unat (HeapEnd k1)" using G(3,4) by simp
      fix a
      assume "a \<in> insert ?e (set (hdrs ?s ss))"
      then show "a + 32 \<le> h + 32 \<or> h + 32 + m \<le> a" using payload_apart [OF B, of a] r by auto
    qed
  qed
  then have pay: "payload_kept (blocks ?s ss) k k2" using payload_kept_trans [OF G(6)] by blast
  obtain m l where k2': "k2 = k1\<lparr>mem := m, LastHeapHDR := l\<rparr>" using rel(2) by (auto simp: heap_frame_def)
  have "HeapEnd k1 = HeapEnd k + wn ?L" using f1 by auto
  then have fin: "HeapStart k2 = HeapStart k" "HeapEnd k2 = HeapEnd k + wn ?L" using G(3) by (simp_all add: k2')
  have aff: "affords_plus N d pos1 k2" using l1(3) by (simp add: k2' affords_plus_def fresh_pages_def)
  show ?thesis by (rule that [OF run rel(1) fin aff pay])
qed

subsection \<open>malloc\<close>

definition malloc_spec :: "nat \<Rightarrow> segs \<Rightarrow> (nat \<times> segs) option" where
  "malloc_spec sz ss =
     (let grow = expand_spec (4096 * pages_for sz) in
      case alloc_spec sz ss of
        Some r \<Rightarrow> Some r
      | None \<Rightarrow> (case alloc_spec sz (grow ss) of
                   Some r \<Rightarrow> Some r
                 | None \<Rightarrow> alloc_spec sz (grow (grow ss))))"

lemma malloc_found:
  assumes R: "heap_rel pos ss k" and w: "round_16 w = wn sz" and sz: "16 \<le> sz" "sz mod 16 = 0" "sz < 2 ^ 64"
    and f: "alloc_spec sz ss = Some (d, ss')"
  obtains k' where "malloc w k = Some (Ret (wn (unat (HeapStart k) + d + 32)) k')" and "heap_rel pos ss' k'"
    and "heap_frame k k'" and "payload_kept (blocks (unat (HeapStart k)) ss) k k'"
proof -
  have nz: "wn sz \<noteq> 0" using wn_0_iff [OF sz(3)] sz(1) by simp
  have ne: "ss \<noteq> []" using f by auto
  obtain k' where k': "malloc_search (HeapStart k) (wn sz) k = Some (Ret (Some (wn (unat (HeapStart k) + d + 32))) k')"
    "heap_rel pos ss' k'" "heap_frame k k'" "payload_kept (blocks (unat (HeapStart k)) ss) k k'"
    using search_ok [of pos "[]" ss k, OF _ ne refl sz] R f by auto
  have "malloc w k = Some (Ret (wn (unat (HeapStart k) + d + 32)) k')"
    unfolding malloc.simps [of w k] Let_def w using nz k'(1) by simp
  then show ?thesis using that k'(2-4) by blast
qed

lemma malloc_grow:
  assumes R: "heap_rel pos ss k" and w: "round_16 w = wn sz" and sz: "16 \<le> sz" "sz mod 16 = 0" "sz < 2 ^ 64"
    and f: "alloc_spec sz ss = None" and e: "ExpandHeap (wn sz) k = Some (Ret () k')"
  shows "malloc w k = malloc (wn sz) k'"
proof -
  have nz: "wn sz \<noteq> 0" using wn_0_iff [OF sz(3)] sz(1) by simp
  have ne: "ss \<noteq> []" using R by (simp add: heap_rel_def seg_ok_def)
  have "malloc_search (HeapStart k) (wn sz) k = Some (Ret None k)"
    using search_ok [of pos "[]" ss k, OF _ ne refl sz] R f by auto
  then show ?thesis unfolding malloc.simps [of w k] Let_def w using nz e by simp
qed

lemma alloc_spec_None_iff: "alloc_spec sz ss = None \<longleftrightarrow> (\<forall>(n, f)\<in>set ss. \<not> (f \<and> sz \<le> n))"
  by (induction ss rule: extent.induct) auto

lemma expand_spec_cases:
  assumes "32 \<le> L"
  shows "expand_spec L ss = (if ss \<noteq> [] \<and> snd (last ss) then butlast ss @ [(fst (last ss) + L, True)] else ss @ [(L - 32, True)])"
  using assms by (cases "last ss") (auto simp: expand_spec_def join_prev_def)

lemma alloc_after_two:
  assumes "sz \<le> L" "32 \<le> L"
  shows "alloc_spec sz (expand_spec L (expand_spec L ss)) \<noteq> None"
proof -
  let ?t = "expand_spec L ss"
  have t: "?t \<noteq> []" "snd (last ?t)" "L - 32 \<le> fst (last ?t)" using assms by (auto simp: expand_spec_cases)
  then have "(fst (last ?t) + L, True) \<in> set (expand_spec L ?t)" using assms(2) by (simp add: expand_spec_cases [of L ?t])
  then show ?thesis using assms unfolding alloc_spec_None_iff by fastforce
qed

lemma extent_expand: "32 \<le> L \<Longrightarrow> extent (expand_spec L ss) = extent ss + L"
proof (cases ss rule: rev_cases)
  case (snoc xs y)
  assume "32 \<le> L"
  then show ?thesis using snoc by (cases y) (auto simp: expand_spec_cases)
qed (simp add: expand_spec_cases)

lemma expand_keeps_blocks:
  assumes "(h, n, False) \<in> blocks s ss" "32 \<le> L"
  shows "(h, n, False) \<in> blocks s (expand_spec L ss)"
proof (cases ss rule: rev_cases)
  case Nil
  then show ?thesis using assms by simp
next
  case (snoc xs y)
  then show ?thesis using assms by (cases y) (auto simp: expand_spec_cases blocks_append)
qed

lemma payload_kept_expand:
  assumes "payload_kept (blocks s (expand_spec L ss)) k k'" "32 \<le> L"
  shows "payload_kept (blocks s ss) k k'"
  using assms(1) expand_keeps_blocks [OF _ assms(2)] unfolding payload_kept_def by blast

text \<open>What first fit does to the blocks.\<close>

lemma alloc_spec_split:
  "alloc_spec sz ss = Some (d, ss') \<Longrightarrow>
   \<exists>xs n ys. ss = xs @ (n, True) # ys \<and> sz \<le> n \<and> d = extent xs \<and> ss' = xs @ taken sz n @ ys"
proof (induction ss arbitrary: d ss' rule: extent.induct)
  case (2 m f ss)
  show ?case
  proof (cases "f \<and> sz \<le> m")
    case True
    then show ?thesis using "2.prems" by (intro exI [of _ "[]"]) auto
  next
    case False
    obtain e t where e: "alloc_spec sz ss = Some (e, t)" "d = 32 + m + e" "ss' = (m, f) # t"
      using "2.prems" False by auto
    obtain xs n ys where "ss = xs @ (n, True) # ys" "sz \<le> n" "e = extent xs" "t = xs @ taken sz n @ ys"
      using "2.IH" [OF e(1)] by blast
    then show ?thesis using e(2,3) by (intro exI [of _ "(m, f) # xs"] exI [of _ n] exI [of _ ys]) simp
  qed
qed simp

lemma alloc_spec_blocks:
  assumes "alloc_spec sz ss = Some (d, ss')"
  shows "\<exists>n m. sz \<le> n \<and> n \<le> m \<and> (s + d, n, False) \<in> blocks s ss' \<and> (s + d, m, True) \<in> blocks s ss"
    and "(h, n, False) \<in> blocks s ss \<Longrightarrow> (h, n, False) \<in> blocks s ss'"
proof -
  obtain xs m ys where e: "ss = xs @ (m, True) # ys" "sz \<le> m" "d = extent xs" "ss' = xs @ taken sz m @ ys"
    using alloc_spec_split [OF assms] by blast
  show "\<exists>n m. sz \<le> n \<and> n \<le> m \<and> (s + d, n, False) \<in> blocks s ss' \<and> (s + d, m, True) \<in> blocks s ss"
    using e(2) unfolding e(1,3,4)
    by (intro exI [of _ "if sz + 48 \<le> m then sz else m"] exI [of _ m]) (simp add: taken_def blocks_append)
  show "(h, n, False) \<in> blocks s ss'" if "(h, n, False) \<in> blocks s ss"
    using that e(2) unfolding e(1,4) by (auto simp: blocks_append algebra_simps)
qed

text \<open>Enough room for the two growths \<^verbatim>\<open>malloc\<close> may need.\<close>

definition malloc_room :: "(u64 \<rightharpoonup> u64 list) \<Rightarrow> nat \<Rightarrow> 'a heap_scheme \<Rightarrow> bool" where
  "malloc_room pos sz k \<longleftrightarrow>
     unat (HeapEnd k) + 4096 * (2 * pages_for sz) < 2 ^ 64 \<and>
     affords_plus (range_paths (HeapEnd k) (2 * pages_for sz)) (2 * pages_for sz) pos k"

lemma range_paths_split: "range_paths v (n + m) = range_paths v n \<union> range_paths (v + wn (4096 * n)) m"
proof (induction n arbitrary: v)
  case 0
  then show ?case by (simp add: range_paths_def)
next
  case (Suc n)
  then show ?case by (simp add: range_paths_Suc algebra_simps Un_assoc)
qed

lemma malloc_ok:
  assumes R: "heap_rel pos ss k" and w: "unat w \<noteq> 0" "unat w + 8192 < 2 ^ 64" and sz: "sz = request w"
    and room: "malloc_room pos sz k"
  obtains d ss' k' pos' where "malloc_spec sz ss = Some (d, ss')"
    and "malloc w k = Some (Ret (wn (unat (HeapStart k) + d + 32)) k')" and "heap_rel pos' ss' k'"
    and "HeapStart k' = HeapStart k" and "payload_kept (blocks (unat (HeapStart k)) ss) k k'"
proof -
  let ?s = "unat (HeapStart k)" and ?n = "pages_for sz"
  let ?L = "4096 * ?n" and ?N = "range_paths (HeapEnd k) (2 * pages_for sz)"
  have rq: "round_16 w = wn sz" "sz < 2 ^ 64" "sz mod 16 = 0" "unat w \<le> sz" "sz < unat w + 16"
    using request_eq [of w] w by (simp_all add: sz)
  have z: "16 \<le> sz" using rq(3,4) w(1) by (cases "sz < 16") auto
  note again = request_eq(1) [of "wn sz", unfolded request_again [OF rq(3)]]
  have rq2: "round_16 (wn sz) = wn sz"
    using request_eq(1) [of "wn sz"] request_again [OF rq(3)] unat_word_of_nat64 [OF rq(2)] rq(5) w(2) by simp
  have pf: "0 < ?n" "sz \<le> ?L" "?L < sz + 4096" using pages_for_bounds [of sz] z by simp_all
  have L: "32 \<le> ?L" using pf(1) by simp
  have szb: "0 < sz" "sz + 4096 < 2 ^ 64" using z rq(5) w(2) by simp_all
  have room': "unat (HeapEnd k) + 4096 * (2 * ?n) < 2 ^ 64" "affords_plus ?N (?n + ?n) pos k"
    using room by (simp_all add: malloc_room_def mult_2)
  have up: "2 ^ 64 - 2 ^ 47 \<le> ?s" "?s + extent ss = unat (HeapEnd k)"
    using R by (auto simp: heap_rel_def heap_space_def space_def)
  have ext: "extent ss + 4096 * (2 * ?n) < 2 ^ 63" using up room'(1) by simp
  have Ns: "range_paths (HeapEnd k) ?n \<subseteq> ?N" "range_paths (HeapEnd k + wn ?L) ?n \<subseteq> ?N"
    using range_paths_split [of "HeapEnd k" ?n ?n] by (auto simp: mult_2)
  show ?thesis
  proof (cases "alloc_spec sz ss")
    case (Some r)
    obtain d ss' where r: "r = (d, ss')" by (cases r)
    obtain k' where "malloc w k = Some (Ret (wn (?s + d + 32)) k')" "heap_rel pos ss' k'" "heap_frame k k'"
      "payload_kept (blocks ?s ss) k k'"
      using malloc_found [OF R rq(1) z rq(3,2) Some [unfolded r]] by blast
    moreover have "HeapStart k' = HeapStart k" using \<open>heap_frame k k'\<close> by (auto simp: heap_frame_def)
    moreover have "malloc_spec sz ss = Some (d, ss')" using Some r by (simp add: malloc_spec_def)
    ultimately show ?thesis using that by blast
  next
    case None
    let ?s1 = "expand_spec ?L ss"
    have b1: "unat (HeapEnd k) + ?L < 2 ^ 64" "extent ss + ?L < 2 ^ 63" using room'(1) ext by simp_all
    obtain k1 pos1 where e1: "ExpandHeap (wn sz) k = Some (Ret () k1)" "heap_rel pos1 ?s1 k1"
      "HeapStart k1 = HeapStart k" "HeapEnd k1 = HeapEnd k + wn ?L" "affords_plus ?N ?n pos1 k1"
      "payload_kept (blocks ?s ss) k k1"
      by (rule ExpandHeap_ok [OF R szb refl b1 room'(2) Ns(1)])
    note m1 = malloc_grow [OF R rq(1) z rq(3,2) None e1(1)]
    show ?thesis
    proof (cases "alloc_spec sz ?s1")
      case (Some r)
      obtain d ss' where r: "r = (d, ss')" by (cases r)
      obtain k' where k': "malloc (wn sz) k1 = Some (Ret (wn (?s + d + 32)) k')" "heap_rel pos1 ss' k'" "heap_frame k1 k'"
        "payload_kept (blocks ?s ?s1) k1 k'"
        using malloc_found [OF e1(2) rq2 z rq(3,2) Some [unfolded r]] e1(3) by auto
      have "payload_kept (blocks ?s ss) k1 k'" by (rule payload_kept_expand [OF k'(4) L])
      then have "payload_kept (blocks ?s ss) k k'" using payload_kept_trans [OF e1(6)] by blast
      moreover have "HeapStart k' = HeapStart k" using k'(3) e1(3) by (auto simp: heap_frame_def)
      moreover have "malloc_spec sz ss = Some (d, ss')" using None Some r by (simp add: malloc_spec_def Let_def)
      ultimately show ?thesis using that k'(1,2) m1 by simp
    next
      case N2: None
      let ?s2 = "expand_spec ?L ?s1"
      have "unat (HeapEnd k1) = unat (HeapEnd k) + ?L"
        unfolding e1(4) using room'(1) by (simp add: unat_word_ariths unat_of_nat)
      then have b2: "unat (HeapEnd k1) + ?L < 2 ^ 64" "extent ?s1 + ?L < 2 ^ 63"
        using room'(1) ext extent_expand [OF L, of ss] by simp_all
      have N3: "affords_plus ?N (?n + 0) pos1 k1" "range_paths (HeapEnd k1) ?n \<subseteq> ?N" using e1(4,5) Ns(2) by simp_all
      obtain k2 pos2 where e2: "ExpandHeap (wn sz) k1 = Some (Ret () k2)" "heap_rel pos2 ?s2 k2"
        "HeapStart k2 = HeapStart k1" "payload_kept (blocks ?s ?s1) k1 k2"
        by (rule ExpandHeap_ok [OF e1(2) szb refl b2 N3]) (simp add: e1(3))
      note m2 = malloc_grow [OF e1(2) rq2 z rq(3,2) N2 e2(1)]
      obtain d ss' where r: "alloc_spec sz ?s2 = Some (d, ss')" using alloc_after_two [OF pf(2) L, of ss] by force
      obtain k' where k': "malloc (wn sz) k2 = Some (Ret (wn (?s + d + 32)) k')" "heap_rel pos2 ss' k'" "heap_frame k2 k'"
        "payload_kept (blocks ?s ?s2) k2 k'"
        using malloc_found [OF e2(2) rq2 z rq(3,2) r] e1(3) e2(3) by auto
      have "payload_kept (blocks ?s ss) k1 k2" "payload_kept (blocks ?s ss) k2 k'"
        using payload_kept_expand [OF e2(4) L] payload_kept_expand [OF payload_kept_expand [OF k'(4) L] L] by blast+
      then have "payload_kept (blocks ?s ss) k k'" using payload_kept_trans e1(6) by blast
      moreover have "HeapStart k' = HeapStart k" using k'(3) e1(3) e2(3) by (auto simp: heap_frame_def)
      moreover have "malloc_spec sz ss = Some (d, ss')" using None N2 r by (simp add: malloc_spec_def Let_def)
      ultimately show ?thesis using that k'(1,2) m1 m2 by simp
    qed
  qed
qed

end
