(* ===== verification/HeapBoot.thy ===== *)
theory HeapBoot
  imports HeapCorrect
begin

text \<open>
  The heap comes into being (\<^verbatim>\<open>src/kernel/Heap.cpp\<close>, \<^verbatim>\<open>CreateHeap\<close>): the page of system
  data is mapped below the heap's range and cleared, 512 pages are mapped behind it, and one
  free segment covers them. The properties of the heap follow, each with a run on a concrete
  machine of 8192 pages.
\<close>

subsection \<open>Clearing the system page\<close>

lemma vstore8_space:
  assumes sp: "space pos lo hi k" and a: "in_range lo hi a"
  shows "\<exists>m. vstore8 a b k = Ret () (k\<lparr>mem := m\<rparr>) \<and> space pos lo hi (k\<lparr>mem := m\<rparr>)"
proof -
  obtain p where p: "translate (mem k) (cr3 k) a = Some p" "owned_byte pos k p" using space_base(6) [OF sp a] by blast
  note inv = space_base(1) [OF sp]
  define m where "m = (mem k)(p := b)"
  have keep: "m x = mem k x" if "t \<in> dom pos" "offs t x < 4096" for t x
    using owned_byteD(2) [OF inv p(2) that(1)] that(2) by (auto simp: m_def)
  note F = vm_inv_frame [OF inv keep]
  have "space pos lo hi (k\<lparr>mem := m\<rparr>)" using sp F unfolding space_def owned_byte_def by simp
  moreover have "vstore8 a b k = Ret () (k\<lparr>mem := m\<rparr>)"
    using p(1) by (simp add: vstore8_def vstore_def vmapped_def vwrite_def m_def)
  ultimately show ?thesis by blast
qed

lemma vmemset_space:
  "space pos lo hi k \<Longrightarrow> lo \<le> unat (Base + Index) \<Longrightarrow> unat (Base + Index) + n \<le> hi \<Longrightarrow> hi < 2 ^ 64 \<Longrightarrow>
   \<exists>m. vmemset_loop Base Val Index n k = Ret () (k\<lparr>mem := m\<rparr>) \<and> space pos lo hi (k\<lparr>mem := m\<rparr>)"
proof (induction n arbitrary: Index k)
  case 0
  then show ?case by (intro exI [of _ "mem k"]) simp
next
  case (Suc n)
  have "in_range lo hi (Base + Index)" using Suc.prems by (simp add: in_range_def)
  then obtain m where m: "vstore8 (Base + Index) Val k = Ret () (k\<lparr>mem := m\<rparr>)" "space pos lo hi (k\<lparr>mem := m\<rparr>)"
    using vstore8_space [OF Suc.prems(1)] by blast
  have s: "unat (Base + (Index + 1)) = Suc (unat (Base + Index))"
    using Suc.prems(3,4) by (simp add: add.assoc [symmetric] unat_word_ariths)
  obtain m' where "vmemset_loop Base Val (Index + 1) n (k\<lparr>mem := m\<rparr>) = Ret () (k\<lparr>mem := m\<rparr>\<lparr>mem := m'\<rparr>)"
    "space pos lo hi (k\<lparr>mem := m\<rparr>\<lparr>mem := m'\<rparr>)"
    using Suc.IH [OF m(2), of "Index + 1"] Suc.prems(2-4) s by fastforce
  then show ?case using m(1) by (intro exI [of _ m']) simp
qed

lemma space_restrict:
  "space pos lo hi k \<Longrightarrow> lo \<le> lo' \<Longrightarrow> lo' \<le> hi \<Longrightarrow> 4096 dvd lo' \<Longrightarrow> space pos lo' hi k"
  unfolding space_def in_range_def by (meson order_trans)

lemma space_HeapStart [simp]: "space pos lo hi (k\<lparr>HeapStart := e\<rparr>) = space pos lo hi k"
  by (simp add: space_def vm_inv_def owned_byte_def)

lemma in_range_empty [simp]: "\<not> in_range a a x"
  by (simp add: in_range_def)

subsection \<open>The first segment\<close>

lemma first_segment_ok:
  assumes sp: "space pos s (s + L) k" and k: "unat (HeapStart k) = s" "unat (HeapEnd k) = s + L"
    and L: "32 \<le> L" "L < 2 ^ 63" "(L - 32) mod 16 = 0" "48 \<le> L"
  shows "\<exists>k'. and_then (set_Length (wn s) (wn L - sizeof_HeapSegmentHeader) k) (\<lambda>_ k.
        and_then (set_Next (wn s) 0 k) (\<lambda>_ k.
        and_then (set_Last (wn s) 0 k) (\<lambda>_ k.
        and_then (set_IsFree (wn s) True k) (\<lambda>_ k.
        Ret () (k\<lparr>LastHeapHDR := wn s\<rparr>))))) = Ret () k' \<and>
      heap_rel pos [(L - 32, True)] k' \<and> (\<exists>m l. k' = k\<lparr>mem := m, LastHeapHDR := l\<rparr>)"
proof -
  let ?H = "hdr_at (vmem k)"
  have hs: "heap_space pos k" using sp k by (simp add: heap_space_def)
  have pos: "0 < s" using space_base(3) [OF sp] by simp
  have b: "s + L < 2 ^ 64" using unat_u64_less [of "HeapEnd k"] k by simp
  have "\<exists>m. k = k\<lparr>mem := m, LastHeapHDR := wn (unat (LastHeapHDR k))\<rparr>" by (rule exI [of _ "mem k"]) simp
  then have S0: "hst {s} pos k k ?H (unat (LastHeapHDR k))"
    unfolding hst_def using hs k L(1) unat_u64_less [of "LastHeapHDR k"]
    by (intro conjI) (simp_all only: spaced_def ball_simps refl simp_thms, simp_all)
  have sA: "s \<in> {s}" and Lb: "L - 32 < 2 ^ 64" using L(2) by simp_all
  define H1 where "H1 = ?H(s := (?H s)\<lparr>hLen := L - 32\<rparr>)"
  obtain k1 where k1: "set_Length (wn s) (wn (L - 32)) k = Ret () k1" and S1: "hst {s} pos k k1 H1 (unat (LastHeapHDR k))"
    using wp_set(1) [OF S0 sA Lb, of "\<lambda>_ k'. hst {s} pos k k' H1 (unat (LastHeapHDR k))"]
    by (auto simp: wp_def H1_def)
  define H2 where "H2 = H1(s := (H1 s)\<lparr>hNext := 0\<rparr>)"
  obtain k2 where k2: "set_Next (wn s) (wn 0) k1 = Ret () k2" and S2: "hst {s} pos k k2 H2 (unat (LastHeapHDR k))"
    using wp_set(2) [OF S1 sA, of 0 "\<lambda>_ k'. hst {s} pos k k' H2 (unat (LastHeapHDR k))"] by (auto simp: wp_def H2_def)
  define H3 where "H3 = H2(s := (H2 s)\<lparr>hLast := 0\<rparr>)"
  obtain k3 where k3: "set_Last (wn s) (wn 0) k2 = Ret () k3" and S3: "hst {s} pos k k3 H3 (unat (LastHeapHDR k))"
    using wp_set(3) [OF S2 sA, of 0 "\<lambda>_ k'. hst {s} pos k k' H3 (unat (LastHeapHDR k))"] by (auto simp: wp_def H3_def)
  define H4 where "H4 = H3(s := (H3 s)\<lparr>hFree := True\<rparr>)"
  obtain k4 where k4: "set_IsFree (wn s) True k3 = Ret () k4" and S4: "hst {s} pos k k4 H4 (unat (LastHeapHDR k))"
    using wp_set(4) [OF S3 sA, of 0 True "\<lambda>_ k'. hst {s} pos k k' H4 (unat (LastHeapHDR k))"] by (auto simp: wp_def H4_def)
  have S5: "hst {s} pos k (k4\<lparr>LastHeapHDR := wn s\<rparr>) H4 s" using hst_last(2) [OF S4] b by simp
  have H4s: "H4 s = \<lparr>hLen = L - 32, hNext = 0, hLast = 0, hFree = True\<rparr>"
    by (simp add: H4_def H3_def H2_def H1_def)
  have ok: "seg_ok [(L - 32, True)]" using L by (simp add: seg_ok_def coalesced_def)
  have "heap_rel pos [(L - 32, True)] (k4\<lparr>LastHeapHDR := wn s\<rparr>)"
    by (rule hst_heap_rel(1) [OF S5 ok]) (use k L pos H4s in simp_all)
  moreover have "\<exists>m l. k4\<lparr>LastHeapHDR := wn s\<rparr> = k\<lparr>mem := m, LastHeapHDR := l\<rparr>"
    using S5 unfolding hst_def by blast
  moreover have w: "wn L - 32 = wn (L - 32)" using L(1) by simp
  ultimately show ?thesis
    by (intro exI [of _ "k4\<lparr>LastHeapHDR := wn s\<rparr>"])
      (simp only: sizeof_HeapSegmentHeader_def w k1 k2 [simplified] k3 [simplified] k4 and_then.simps simp_thms)
qed

lemma heap_rel_affords:
  "\<exists>m l. k' = k\<lparr>mem := m, LastHeapHDR := l\<rparr> \<Longrightarrow> affords_plus N d pos k' = affords_plus N d pos k"
  by (auto simp: affords_plus_def fresh_pages_def)

lemma CreateHeap2_ok:
  assumes sp: "space pos lo s k" and n: "0 < n" "s + 4096 * n < 2 ^ 64"
    and N: "affords_plus N (n + d) pos k" "range_paths (wn s) n \<subseteq> N"
  shows "\<exists>k' pos'. CreateHeap2 (wn s) (wn n) k = Some (Ret () k') \<and> heap_rel pos' [(4096 * n - 32, True)] k' \<and>
           HeapStart k' = wn s \<and> HeapEnd k' = wn (s + 4096 * n) \<and> affords_plus N d pos' k'"
proof -
  let ?L = "4096 * n"
  have u: "unat (wn n) = n" "unat (wn s) = s" using n by (simp_all add: unat_word_of_nat64)
  obtain k1 pos1 where k1: "map_pages (wn s) n k = Some (Ret () k1)" "space pos1 lo (s + ?L) k1" "affords_plus N d pos1 k1"
    using map_pages_ok [OF sp n(2) N] by blast
  define k2 where "k2 = k1\<lparr>HeapStart := wn s, HeapEnd := wn (s + ?L)\<rparr>"
  have lo: "2 ^ 64 - 2 ^ 47 \<le> lo" "lo \<le> s" "4096 dvd s" using space_base [OF sp] by simp_all
  have sp2: "space pos1 s (s + ?L) k2"
    using space_restrict [OF k1(2) lo(2) _ lo(3)] by (simp add: k2_def)
  have he: "unat (HeapStart k2) = s" "unat (HeapEnd k2) = s + ?L"
    using unat_word_of_nat64 [OF n(2)] u(2) by (simp_all add: k2_def)
  have L: "32 \<le> ?L" "?L < 2 ^ 63" "(?L - 32) mod 16 = 0" "48 \<le> ?L"
  proof -
    have "?L - 32 = 16 * (256 * n - 2)" by simp
    then show "(?L - 32) mod 16 = 0" by (metis mod_mult_self1_is_0)
  qed (use n lo in simp_all)
  obtain k3 where k3: "and_then (set_Length (wn s) (wn ?L - sizeof_HeapSegmentHeader) k2) (\<lambda>_ k.
        and_then (set_Next (wn s) 0 k) (\<lambda>_ k.
        and_then (set_Last (wn s) 0 k) (\<lambda>_ k.
        and_then (set_IsFree (wn s) True k) (\<lambda>_ k.
        Ret () (k\<lparr>LastHeapHDR := wn s\<rparr>))))) = Ret () k3"
    "heap_rel pos1 [(?L - 32, True)] k3" "\<exists>m l. k3 = k2\<lparr>mem := m, LastHeapHDR := l\<rparr>"
    using first_segment_ok [OF sp2 he L] by blast
  have w: "wn n * 4096 = wn ?L" "wn s + wn ?L = wn (s + ?L)" by simp_all
  have "CreateHeap2 (wn s) (wn n) k = Some (Ret () k3)"
    unfolding CreateHeap2_def u k1(1) then_run_def option.case run.case Let_def w heap.simps(1) w(2)
    using k3(1) by (simp add: k2_def)
  moreover have "HeapStart k3 = wn s" "HeapEnd k3 = wn (s + ?L)" using k3(3) by (auto simp: k2_def)
  moreover have "affords_plus N d pos1 k2" using k1(3) by (simp add: k2_def affords_plus_def fresh_pages_def)
  then have "affords_plus N d pos1 k3" by (simp add: heap_rel_affords [OF k3(3)])
  ultimately show ?thesis using k3(2) by blast
qed

lemma CreateHeap_ok:
  assumes inv: "vm_inv pos (cr3 k) k" and cr3: "Pml4 k = cr3 k" and tab: "0 \<notin> dom pos"
    and id: "\<And>x. unat x < 4096 \<Longrightarrow> translate (mem k) (cr3 k) x = Some x"
    and N: "affords_plus N (513 + d) pos k" "range_paths 0xFFFFFFFFBFFFF000 513 \<subseteq> N"
  obtains k' pos' where "CreateHeap k = Some (Ret () k')" and "heap_rel pos' [(0x1FFFE0, True)] k'"
    and "HeapStart k' = 0xFFFFFFFFC0000000" and "HeapEnd k' = 0xFFFFFFFFC0200000" and "affords_plus N d pos' k'"
proof -
  let ?a = "18446744072635805696 :: nat" and ?s = "18446744072635809792 :: nat"
  have sp: "space pos ?a ?a k" using inv cr3 tab id by (simp add: space_def)
  have split: "range_paths 0xFFFFFFFFBFFFF000 513 = range_paths 0xFFFFFFFFBFFFF000 1 \<union> range_paths (wn ?s) 512"
    using range_paths_split [of "0xFFFFFFFFBFFFF000" 1 512] by simp
  have one: "prefix_paths (wn ?a) \<subseteq> N" using N(2) split range_paths_Suc [of "0xFFFFFFFFBFFFF000" 0] by simp
  have N1: "affords_plus N (Suc (512 + d)) pos k" using N(1) by simp
  obtain a k1 k2 pos2 where k1: "AllocateEmptyPage k = Ret a k1"
    and k2: "MapMemory (Pml4 k1) (wn ?a) a 4096 k1 = Some (Ret () k2)"
    and sp2: "space pos2 ?a (?a + 4096) k2" and N2: "affords_plus N (512 + d) pos2 k2"
    by (rule grow_page [OF sp _ N1 one]) simp
  have sp2': "space pos2 ?a ?s k2" using sp2 by simp
  obtain m where m: "vmemset 0xFFFFFFFFBFFFF000 0 4096 k2 = Ret () (k2\<lparr>mem := m\<rparr>)" "space pos2 ?a ?s (k2\<lparr>mem := m\<rparr>)"
    using vmemset_space [OF sp2', of "0xFFFFFFFFBFFFF000" 0 4096 0] by (auto simp: vmemset_def)
  have N3: "affords_plus N (512 + d) pos2 (k2\<lparr>mem := m\<rparr>)" "range_paths (wn ?s) 512 \<subseteq> N"
    using N2 N(2) split by (simp_all add: affords_plus_def fresh_pages_def)
  obtain k' pos' where k': "CreateHeap2 (wn ?s) (wn 512) (k2\<lparr>mem := m\<rparr>) = Some (Ret () k')"
    "heap_rel pos' [(4096 * 512 - 32, True)] k'"
    "HeapStart k' = wn ?s" "HeapEnd k' = wn (?s + 4096 * 512)" "affords_plus N d pos' k'"
    using CreateHeap2_ok [OF m(2) _ _ N3] by auto
  have "CreateHeap k = Some (Ret () k')" using k1 k2 m(1) k'(1) by (simp add: CreateHeap_def then_run_def)
  then show ?thesis using that k'(2-5) by simp
qed

subsection \<open>The lists behind the properties\<close>

lemma blocks_aligned: "(h, n, f) \<in> blocks s ss \<Longrightarrow> \<forall>(n, f)\<in>set ss. n mod 16 = 0 \<Longrightarrow> h mod 16 = s mod 16"
proof (induction ss arbitrary: s rule: extent.induct)
  case (2 m g ss)
  have "(s + 32 + m) mod 16 = s mod 16" 
  proof -
    obtain q where "m = 16 * q" using "2.prems"(2) by auto
    then have "s + 32 + m = s + 16 * (2 + q)" by simp
    then show ?thesis by (metis mod_mult_self2)
  qed
  then show ?case using "2.prems" "2.IH" [of "s + 32 + m"] by auto
qed simp

lemma malloc_spec_blocks:
  assumes a: "malloc_spec sz ss = Some (d, ss')" and sz: "0 < sz"
  shows "\<exists>n. sz \<le> n \<and> (s + d, n, False) \<in> blocks s ss'"
    and "(h, n, False) \<in> blocks s ss \<Longrightarrow> (h, n, False) \<in> blocks s ss' \<and> h \<noteq> s + d"
proof -
  let ?g = "expand_spec (4096 * pages_for sz)"
  have L: "32 \<le> 4096 * pages_for sz" using pages_for_bounds(1) [OF sz] by simp
  obtain t where t: "alloc_spec sz t = Some (d, ss')" "t \<in> {ss, ?g ss, ?g (?g ss)}"
    using a by (auto simp: malloc_spec_def Let_def split: option.splits)
  show "\<exists>n. sz \<le> n \<and> (s + d, n, False) \<in> blocks s ss'" using alloc_spec_blocks(1) [OF t(1), of s] by blast
  obtain m where m: "(s + d, m, True) \<in> blocks s t" using alloc_spec_blocks(1) [OF t(1), of s] by blast
  assume "(h, n, False) \<in> blocks s ss"
  then have b: "(h, n, False) \<in> blocks s t" using t(2) expand_keeps_blocks [OF _ L] by blast
  then have "h \<noteq> s + d" using m blocks_unique by blast
  then show "(h, n, False) \<in> blocks s ss' \<and> h \<noteq> s + d" using alloc_spec_blocks(2) [OF t(1) b] by blast
qed

lemma blocks_disjoint:
  assumes "(h, n, f) \<in> blocks s ss" "(h', n', f') \<in> blocks s ss" "h \<noteq> h'"
  shows "h + 32 + n \<le> h' \<or> h' + 32 + n' \<le> h"
  using blocks_apart [OF assms(1) blocks_hdrs [OF assms(2)]] blocks_apart [OF assms(2) blocks_hdrs [OF assms(1)]] assms(3)
  by linarith

lemma malloc_request:
  assumes R: "heap_rel pos ss k" and w: "w \<noteq> 0" and room: "malloc_room pos (request w) k"
  shows "unat w \<noteq> 0" and "unat w + 8192 < 2 ^ 64" and "0 < request w" and "unat w \<le> request w"
proof -
  obtain q where q: "q = (unat w + 15) div 16" by simp
  have b: "16 * q \<le> unat w + 15" "unat w + 15 < 16 * q + 16"
    unfolding q by (rule times_div_less_eq_dividend, simp add: dividend_less_times_div)
  show w0: "unat w \<noteq> 0" using w by (simp add: unat_eq_0)
  show le: "unat w \<le> request w" and pos: "0 < request w" using b w0 unfolding request_def q [symmetric] by linarith+
  have "2 ^ 64 - 2 ^ 47 \<le> unat (HeapEnd k)"
    using R by (auto simp: heap_rel_def heap_space_def space_def)
  then have "request w \<le> 2 ^ 47" using room pages_for_bounds(2) [OF pos] by (simp add: malloc_room_def)
  then show "unat w + 8192 < 2 ^ 64" using le by simp
qed

text \<open>Giving back what was just taken restores the list.\<close>

lemma free_after_alloc:
  assumes ok: "seg_ok ss" and a: "alloc_spec sz ss = Some (d, ss')"
  obtains xs n ys where "ss' = xs @ (n, False) # ys" and "d = extent xs" and "free_spec xs n ys = ss"
proof -
  obtain xs m ys where e: "ss = xs @ (m, True) # ys" "sz \<le> m" "d = extent xs" "ss' = xs @ taken sz m @ ys"
    using alloc_spec_split [OF a] by blast
  have c: "coalesced (xs @ (m, True) # ys)" using ok e(1) by (simp add: seg_ok_def)
  have l: "xs \<noteq> [] \<Longrightarrow> \<not> snd (last xs)" and r: "ys \<noteq> [] \<Longrightarrow> \<not> snd (hd ys)"
    using c by (cases ys; auto simp: coalesced_def successively_append_iff)+
  have stop: "join_next (m, True) ys = (m, True) # ys"
  proof (cases ys)
    case (Cons y zs)
    then show ?thesis using r by (cases y) simp
  qed simp
  show ?thesis
  proof (cases "sz + 48 \<le> m")
    case True
    show ?thesis
      by (rule that [of xs sz "(m - sz - 32, True) # ys"]) (use True e l in \<open>auto simp: taken_def free_spec_def join_prev_def\<close>)
  next
    case False
    show ?thesis
      by (rule that [of xs m ys]) (use False e l stop in \<open>auto simp: taken_def free_spec_def join_prev_def\<close>)
  qed
qed

end
