(* ===== verification/HeapProperties.thy ===== *)
theory HeapProperties
  imports HeapBoot
begin

text \<open>
  The properties of the heap (\<^verbatim>\<open>src/kernel/Heap.cpp\<close>): what \<^verbatim>\<open>CreateHeap\<close> sets up, that
  \<^verbatim>\<open>malloc\<close> and \<^verbatim>\<open>free\<close> implement first fit with coalescing on a list of segments, and what a
  caller gets from them. The witnesses run on a machine of 8192 free pages.
\<close>

subsection \<open>A concrete machine\<close>

definition demo_big_map :: limine_memmap_response where
  "demo_big_map = \<lparr>mm_revision = 0, entries = [\<lparr>me_base = 0x1000, me_length = 0x2000000, me_type = 0\<rparr>]\<rparr>"

definition demo_heap :: heap where
  "demo_heap = ptm.extend (demo_ptm\<lparr>MemoryMap := demo_big_map\<rparr>) \<lparr>HeapStart = 0, HeapEnd = 0, LastHeapHDR = 0\<rparr>"

definition demo_heap_root :: heap where
  "demo_heap_root = demo_heap\<lparr>LastAddress := 0x1000, mem := memset (mem demo_heap) 0x1000 0 4096, Pml4 := 0x1000, cr3 := 0x1000\<rparr>"

lemma demo_heap_fields:
  "MemoryMap demo_heap = demo_big_map" "FreeListLength demo_heap = 0" "LastAddress demo_heap = 0"
  by (simp_all add: demo_heap_def ptm.extend_def demo_ptm_def pmm.extend_def demo_pmm_def interrupts.extend_def)

lemma demo_big_map_wf: "memmap_wf (entries demo_big_map)"
  by (simp add: demo_big_map_def is_usable_def limine_memmap_types page_aligned_def)

lemma demo_big_pages: "usable_pages (entries demo_big_map) = map (\<lambda>i. 0x1000 + word_of_nat i * 0x1000) [0..<8192]"
  by (simp add: demo_big_map_def usable_pages_def entry_pages_def is_usable_def limine_memmap_types unat_div)

lemma demo_heap_fresh:
  "\<exists>as. fresh_pages demo_heap = 0x1000 # as \<and> length as = 8191"
proof -
  have "0x1000 + word_of_nat i * 0x1000 \<noteq> (0 :: u64)" if "i < 8192" for i
  proof -
    have "unat (0x1000 + word_of_nat i * 0x1000 :: u64) = 0x1000 + i * 0x1000"
      using that by (simp add: unat_word_ariths unat_of_nat)
    then show ?thesis by (metis add_is_0 unat_0 zero_neq_numeral)
  qed
  then have "fresh_pages demo_heap = map (\<lambda>i. 0x1000 + word_of_nat i * 0x1000) [0..<Suc 8191]"
    unfolding fresh_pages_def demo_heap_fields demo_big_pages by (simp add: filter_id_conv word_gt_0 del: upt_Suc)
  then show ?thesis unfolding upt_conv_Cons [OF zero_less_Suc] by simp
qed

lemma card_range_paths: "finite (range_paths v n)" "card (range_paths v n) \<le> 3 * n"
proof (induction n arbitrary: v)
  case (Suc n)
  have f: "finite (prefix_paths v)" "card (prefix_paths v) \<le> 3" for v
    by (simp_all add: prefix_paths_def card_insert_if)
  { case 1 show ?case using f(1) [of v] Suc(1) [of "v + 4096"] by (simp add: range_paths_Suc) }
  { case 2 show ?case using f(2) [of v] Suc(2) [of "v + 4096"] card_Un_le [of "prefix_paths v" "range_paths (v + 4096) n"]
      by (simp add: range_paths_Suc) }
qed (simp_all add: range_paths_def)

text \<open>Room for the heap's first 600 pages and for page zero.\<close>

definition demo_paths_needed :: "u64 list set" where
  "demo_paths_needed = range_paths 0xFFFFFFFFBFFFF000 600 \<union> range_paths 0 1"

lemma demo_needed: "finite demo_paths_needed" "card demo_paths_needed \<le> 1803" "\<forall>p\<in>demo_paths_needed. length p \<le> 3"
proof -
  note b = card_range_paths [of "0xFFFFFFFFBFFFF000" 600] card_range_paths [of 0 1]
  show "finite demo_paths_needed" using b by (simp add: demo_paths_needed_def)
  show "card demo_paths_needed \<le> 1803"
    using card_Un_le [of "range_paths 0xFFFFFFFFBFFFF000 600" "range_paths 0 1"] b by (simp add: demo_paths_needed_def)
  show "\<forall>p\<in>demo_paths_needed. length p \<le> 3"
    by (auto simp: demo_paths_needed_def range_paths_def prefix_paths_def table_path_def)
qed

lemma demo_sub: "i + n \<le> 600 \<Longrightarrow> range_paths (0xFFFFFFFFBFFFF000 + wn (4096 * i)) n \<subseteq> demo_paths_needed"
proof -
  assume "i + n \<le> 600"
  then obtain j where j: "600 = i + (n + j)" by (metis add.assoc le_Suc_ex)
  show ?thesis
    unfolding demo_paths_needed_def j range_paths_split [of _ i] range_paths_split [of _ n] by blast
qed

lemma demo_mapped:
  obtains k pos where "MapMemory 0x1000 0 0 4096 demo_heap_root = Some (Ret () k)" and "vm_inv pos (cr3 k) k"
    and "Pml4 k = cr3 k" and "0 \<notin> dom pos" and "\<And>x. unat x < 4096 \<Longrightarrow> translate (mem k) (cr3 k) x = Some x"
    and "affords_plus demo_paths_needed 600 pos k" and "cr3 k = 0x1000"
proof -
  obtain as where as: "fresh_pages demo_heap = 0x1000 # as" "length as = 8191" using demo_heap_fresh by blast
  note nr = new_root [OF demo_big_map_wf [folded demo_heap_fields(1)] demo_heap_fields(2) as(1)]
  have inv: "vm_inv [0x1000 \<mapsto> []] 0x1000 demo_heap_root"
    using nr(2) [of "0x1000"] by (simp add: demo_heap_root_def vm_inv_def)
  have "fresh_pages demo_heap_root = as" using nr(3) [of "0x1000"] by (simp add: demo_heap_root_def fresh_pages_def)
  then have N: "affords_plus demo_paths_needed 600 [0x1000 \<mapsto> []] demo_heap_root"
    using demo_needed as(2) card_mono [OF demo_needed(1), of "demo_paths_needed - {[]}"] by (simp add: affords_plus_def)
  have pc: "page_count 4096 = 1" by (simp add: page_count_def)
  have sub: "range_paths 0 (page_count 4096) \<subseteq> demo_paths_needed" by (simp add: pc demo_paths_needed_def)
  obtain k pos where k: "MapMemory 0x1000 0 0 4096 demo_heap_root = Some (Ret () k)" "vm_inv pos 0x1000 k"
    "vm_ext [0x1000 \<mapsto> []] demo_heap_root pos k" "affords_plus demo_paths_needed 600 pos k"
    and T: "\<And>v. translate (mem k) 0x1000 v =
       (if page_dist 0 v < 1 then Some (0 + word_of_nat (page_dist 0 v) * 4096 + (v AND 0xFFF))
        else translate (mem demo_heap_root) 0x1000 v)"
    using MapMemory_plus [OF inv N sub, of 0] unfolding pc by (auto simp: page_aligned_def)
  have c: "cr3 k = 0x1000" "Pml4 k = 0x1000" using k(3) by (auto simp: vm_ext_def demo_heap_root_def)
  have "0 \<notin> dom pos" using k(3) by (force simp: vm_ext_def demo_heap_root_def)
  moreover have "translate (mem k) (cr3 k) x = Some x" if "unat x < 4096" for x
  proof -
    have "unat (x AND 0xFFF) = unat x" using that by (simp add: unat_and_FFF)
    then have x: "x AND 0xFFF = x" by (simp only: word_unat_eq_iff)
    have "vpn x = vpn 0" using that by (simp add: word_unat_eq_iff unat_vpn)
    then show ?thesis using T [of x] x page_dist_zero [of 0 x] c by simp
  qed
  ultimately show ?thesis using that k c by simp
qed

lemma demo_created:
  obtains k0 k pos where "MapMemory 0x1000 0 0 4096 demo_heap_root = Some (Ret () k0)" and "CreateHeap k0 = Some (Ret () k)"
    and "heap_rel pos [(0x1FFFE0, True)] k" and "HeapStart k = 0xFFFFFFFFC0000000" and "HeapEnd k = 0xFFFFFFFFC0200000"
    and "affords_plus demo_paths_needed 87 pos k"
proof -
  obtain k0 pos0 where k0: "MapMemory 0x1000 0 0 4096 demo_heap_root = Some (Ret () k0)" "vm_inv pos0 (cr3 k0) k0"
    "Pml4 k0 = cr3 k0" "0 \<notin> dom pos0" "\<And>x. unat x < 4096 \<Longrightarrow> translate (mem k0) (cr3 k0) x = Some x"
    "affords_plus demo_paths_needed 600 pos0 k0"
    by (rule demo_mapped) blast
  have N: "affords_plus demo_paths_needed (513 + 87) pos0 k0" using k0(6) by simp
  obtain k pos where "CreateHeap k0 = Some (Ret () k)" "heap_rel pos [(0x1FFFE0, True)] k"
    "HeapStart k = 0xFFFFFFFFC0000000" "HeapEnd k = 0xFFFFFFFFC0200000" "affords_plus demo_paths_needed 87 pos k"
    by (rule CreateHeap_ok [OF k0(2-5) N]) (use demo_sub [of 0 513] in simp_all)
  then show ?thesis using that k0(1) by blast
qed

subsection \<open>Properties\<close>

text \<open>
  C4. \<^verbatim>\<open>CreateHeap\<close>. In a well-formed address space whose page zero is mapped to itself, and
  with enough free pages for 513 pages and the tables above them, it returns with the heap's
  invariant established: one free segment of two megabytes less a header at
  \<open>0xFFFFFFFFC0000000\<close>.
\<close>

theorem CreateHeap_one_free_segment:
  assumes "vm_inv pos (cr3 k) k" "Pml4 k = cr3 k" "0 \<notin> dom pos"
    "\<forall>x. unat x < 4096 \<longrightarrow> translate (mem k) (cr3 k) x = Some x"
    "affords_plus (range_paths 0xFFFFFFFFBFFFF000 513) 513 pos k"
  shows "\<exists>k' pos'. CreateHeap k = Some (Ret () k') \<and> heap_rel pos' [(0x1FFFE0, True)] k' \<and>
           HeapStart k' = 0xFFFFFFFFC0000000 \<and> HeapEnd k' = 0xFFFFFFFFC0200000"
proof -
  have N: "affords_plus (range_paths 0xFFFFFFFFBFFFF000 513) (513 + 0) pos k" using assms(5) by simp
  show ?thesis
    by (rule CreateHeap_ok [OF assms(1-3) _ N order_refl]) (use assms(4) in blast)+
qed

lemma affords_plus_mono: "affords_plus N d pos k \<Longrightarrow> N' \<subseteq> N \<Longrightarrow> d' \<le> d \<Longrightarrow> affords_plus N' d' pos k"
proof -
  assume a: "affords_plus N d pos k" "N' \<subseteq> N" "d' \<le> d"
  then have "card (N' - ran pos) \<le> card (N - ran pos)" by (intro card_mono) (auto simp: affords_plus_def)
  then show ?thesis using a by (auto simp: affords_plus_def dest: finite_subset)
qed

theorem CreateHeap_one_free_segment_witness:
  "\<exists>k0 k pos. MapMemory 0x1000 0 0 4096 demo_heap_root = Some (Ret () k0) \<and> CreateHeap k0 = Some (Ret () k) \<and>
     heap_rel pos [(0x1FFFE0, True)] k"
proof -
  obtain k0 pos0 where k0: "MapMemory 0x1000 0 0 4096 demo_heap_root = Some (Ret () k0)" "vm_inv pos0 (cr3 k0) k0"
    "Pml4 k0 = cr3 k0" "0 \<notin> dom pos0" "\<And>x. unat x < 4096 \<Longrightarrow> translate (mem k0) (cr3 k0) x = Some x"
    "affords_plus demo_paths_needed 600 pos0 k0"
    by (rule demo_mapped) blast
  have "affords_plus (range_paths 0xFFFFFFFFBFFFF000 513) 513 pos0 k0"
    using affords_plus_mono [OF k0(6)] demo_sub [of 0 513] by simp
  then show ?thesis using CreateHeap_one_free_segment [OF k0(2-4)] k0(1,5) by blast
qed

text \<open>
  C1. \<^verbatim>\<open>malloc\<close> refines first fit on the list of segments: it returns (at most two calls of
  itself after growing the heap), the address is the one the specification gives, and the
  heap's invariant holds for the specified list. It needs free pages for growing twice.
\<close>

theorem malloc_refines:
  assumes "heap_rel pos ss k" "w \<noteq> 0" "malloc_room pos (request w) k"
  shows "\<exists>d ss' k' pos'. malloc_spec (request w) ss = Some (d, ss') \<and>
           malloc w k = Some (Ret (word_of_nat (unat (HeapStart k) + d + 32)) k') \<and>
           HeapStart k' = HeapStart k \<and> heap_rel pos' ss' k'"
  by (rule malloc_ok [OF assms(1) malloc_request(1,2) [OF assms] refl assms(3)]) blast

lemma demo_room:
  assumes "affords_plus demo_paths_needed 87 pos k" "HeapEnd k = 0xFFFFFFFFC0200000" "pages_for sz \<le> 40"
  shows "malloc_room pos sz k"
proof -
  have "range_paths (HeapEnd k) (2 * pages_for sz) \<subseteq> demo_paths_needed"
    using demo_sub [of 513 "2 * pages_for sz"] assms(2,3) by simp
  then show ?thesis using assms affords_plus_mono [OF assms(1)] by (simp add: malloc_room_def)
qed

theorem malloc_refines_witness:
  "\<exists>k k' pos. heap_rel pos [(0x1FFFE0, True)] (k :: heap) \<and>
     malloc 100 k = Some (Ret 0xFFFFFFFFC0000020 k') \<and> HeapStart k' = 0xFFFFFFFFC0000000"
proof -
  obtain k :: heap and pos where k: "heap_rel pos [(0x1FFFE0, True)] k" "HeapStart k = 0xFFFFFFFFC0000000"
    "HeapEnd k = 0xFFFFFFFFC0200000" "affords_plus demo_paths_needed 87 pos k"
    by (rule demo_created) blast
  have rq: "request 100 = 112" "pages_for 112 = 1" by (simp_all add: request_def pages_for_def)
  have sp: "malloc_spec 112 [(0x1FFFE0, True)] = Some (0, [(112, False), (0x1FFF50, True)])"
    by (simp add: malloc_spec_def taken_def)
  have room: "malloc_room pos (request 100) k" using demo_room [OF k(4,3)] rq by simp
  show ?thesis using malloc_refines [OF k(1) _ room] sp k(1,2) rq by auto
qed

text \<open>
  C3. What a caller of \<^verbatim>\<open>malloc\<close> gets: an address that is a multiple of sixteen with at least
  the requested bytes inside the heap, apart from every block handed out before; those blocks
  stay handed out and their contents are unchanged.
\<close>

theorem malloc_block:
  assumes "heap_rel pos ss k" "w \<noteq> 0" "malloc_room pos (request w) k" "s = unat (HeapStart k)"
  shows "\<exists>a k' pos' ss'. malloc w k = Some (Ret a k') \<and> heap_rel pos' ss' k' \<and> unat a mod 16 = 0 \<and>
           s + 32 \<le> unat a \<and> unat a + unat w \<le> unat (HeapEnd k') \<and>
           (\<exists>n. unat w \<le> n \<and> (unat a - 32, n, False) \<in> blocks s ss') \<and>
           (\<forall>h n. (h, n, False) \<in> blocks s ss \<longrightarrow>
              (h, n, False) \<in> blocks s ss' \<and> (unat a + unat w \<le> h \<or> h + 32 + n \<le> unat a - 32) \<and>
              (\<forall>i<n. vmem k' (word_of_nat (h + 32 + i)) = vmem k (word_of_nat (h + 32 + i))))"
proof -
  note rq = malloc_request [OF assms(1-3)]
  obtain d ss' k' pos' where m: "malloc_spec (request w) ss = Some (d, ss')"
    "malloc w k = Some (Ret (wn (s + d + 32)) k')" "heap_rel pos' ss' k'" "HeapStart k' = HeapStart k"
    "payload_kept (blocks s ss) k k'"
    by (rule malloc_ok [OF assms(1) rq(1,2) refl assms(3)]) (simp add: assms(4))
  have R: "seg_ok ss'" "s + extent ss' = unat (HeapEnd k')" "heap_space pos' k'"
    using m(3,4) assms(4) by (simp_all add: heap_rel_def)
  obtain n where n: "request w \<le> n" "(s + d, n, False) \<in> blocks s ss'"
    using malloc_spec_blocks(1) [OF m(1) rq(3)] by blast
  have r: "s + d + 32 + n \<le> unat (HeapEnd k')" using blocks_range [OF n(2)] R(2) by simp
  have "s + d + 32 < 2 ^ 64" using order_le_less_trans [OF r, of "2 ^ 64"] by simp
  then have ua: "unat (wn (s + d + 32)) = s + d + 32" by (rule unat_word_of_nat64)
  have "4096 dvd s" using R(3) m(4) assms(4) by (simp add: heap_space_def space_def)
  then have "s mod 16 = 0" using dvd_trans [of 16 4096 s] by (simp add: mod_eq_0_iff_dvd)
  then have "(s + d) mod 16 = 0" using blocks_aligned [OF n(2)] R(1) by (auto simp: seg_ok_def)
  then have al: "(s + d + 32) mod 16 = 0" using mod_mult_self1 [of "s + d" 2 16] by simp
  have old: "(h, p, False) \<in> blocks s ss' \<and> (s + d + 32 + unat w \<le> h \<or> h + 32 + p \<le> s + d)"
    if "(h, p, False) \<in> blocks s ss" for h p
    using malloc_spec_blocks(2) [OF m(1) rq(3) that] blocks_disjoint [OF n(2), of h p False] n(1) rq(4) by auto
  show ?thesis
  proof (intro exI conjI)
    show "malloc w k = Some (Ret (wn (s + d + 32)) k')" by (fact m(2))
    show "heap_rel pos' ss' k'" by (fact m(3))
    show "(unat (wn (s + d + 32)) - 32, n, False) \<in> blocks s ss'" using n(2) ua by simp
  qed (use ua al r n(1) rq(4) old m(5) in \<open>auto simp: payload_kept_def\<close>)
qed

theorem malloc_block_witness:
  "\<exists>k k' a. malloc 100 (k :: heap) = Some (Ret a k') \<and> unat a mod 16 = 0 \<and> 0xFFFFFFFFC0000020 \<le> unat a"
proof -
  obtain k :: heap and pos where k: "heap_rel pos [(0x1FFFE0, True)] k" "HeapStart k = 0xFFFFFFFFC0000000"
    "HeapEnd k = 0xFFFFFFFFC0200000" "affords_plus demo_paths_needed 87 pos k"
    by (rule demo_created) blast
  have room: "malloc_room pos (request 100) k"
    using demo_room [OF k(4,3), of "request 100"] by (simp add: request_def pages_for_def)
  show ?thesis using malloc_block [OF k(1) _ room refl] k(2) by fastforce
qed

text \<open>
  C2. \<^verbatim>\<open>free\<close> refines its specification: giving back the block at distance \<open>extent xs\<close> marks
  it free and joins it with its free neighbours, the invariant (no two free neighbours, sound
  links in both directions) holds again, and every other block keeps its contents.
\<close>

theorem free_refines:
  assumes "heap_rel pos (xs @ (n, False) # ys) k" "s = unat (HeapStart k)"
  shows "\<exists>k'. free (word_of_nat (s + extent xs + 32)) k = Ret () k' \<and> heap_rel pos (free_spec xs n ys) k' \<and>
           HeapStart k' = HeapStart k \<and> HeapEnd k' = HeapEnd k \<and>
           payload_kept (blocks s (xs @ (n, False) # ys)) k k'"
proof -
  obtain k' where "free (wn (s + extent xs + 32)) k = Ret () k'" "heap_rel pos (free_spec xs n ys) k'" "heap_frame k k'"
    "payload_kept (blocks s (xs @ (n, False) # ys)) k k'"
    by (rule free_ok [OF assms refl])
  then show ?thesis by (intro exI [of _ k']) (auto simp: heap_frame_def)
qed

text \<open>
  C31. Giving a block back right after taking it leaves the heap's list as it was, whenever the
  heap did not have to grow.
\<close>

theorem malloc_free_roundtrip:
  assumes "heap_rel pos ss k" "unat w + 16 < 2 ^ 64" "w \<noteq> 0" "alloc_spec (request w) ss \<noteq> None"
  shows "\<exists>a k1 k2. malloc w k = Some (Ret a k1) \<and> free a k1 = Ret () k2 \<and> heap_rel pos ss k2"
proof -
  note rq = request_eq [OF assms(2)]
  have "unat w \<noteq> 0" using assms(3) by (simp add: unat_eq_0)
  then have z: "16 \<le> request w" using rq(3,4) by (cases "request w < 16") auto
  obtain d ss' where a: "alloc_spec (request w) ss = Some (d, ss')" using assms(4) by auto
  obtain k1 where k1: "malloc w k = Some (Ret (wn (unat (HeapStart k) + d + 32)) k1)" "heap_rel pos ss' k1" "heap_frame k k1"
    by (rule malloc_found [OF assms(1) rq(1) z rq(3,2) a])
  have ok: "seg_ok ss" using assms(1) by (simp add: heap_rel_def)
  obtain xs n ys where f: "ss' = xs @ (n, False) # ys" "d = extent xs" "free_spec xs n ys = ss"
    by (rule free_after_alloc [OF ok a])
  have s: "unat (HeapStart k) = unat (HeapStart k1)" using k1(3) by (auto simp: heap_frame_def)
  obtain k2 where "free (wn (unat (HeapStart k) + d + 32)) k1 = Ret () k2" "heap_rel pos ss k2"
    using free_ok [OF k1(2) [unfolded f(1)] s refl] f(2,3) by auto
  then show ?thesis using k1(1) by blast
qed

theorem malloc_free_roundtrip_witness:
  "\<exists>k pos a k1 k2. malloc 100 (k :: heap) = Some (Ret a k1) \<and> free a k1 = Ret () k2 \<and>
     heap_rel pos [(0x1FFFE0, True)] k \<and> heap_rel pos [(0x1FFFE0, True)] k2"
proof -
  obtain k :: heap and pos where k: "heap_rel pos [(0x1FFFE0, True)] k" by (rule demo_created) blast
  have a: "alloc_spec (request 100) [(0x1FFFE0, True)] \<noteq> None" by (simp add: request_def)
  show ?thesis using malloc_free_roundtrip [OF k _ _ a] k by fastforce
qed

theorem free_refines_witness:
  "\<exists>k k' pos. heap_rel pos [(112, False), (0x1FFF50, True)] (k :: heap) \<and>
     free 0xFFFFFFFFC0000020 k = Ret () k' \<and> heap_rel pos [(0x1FFFE0, True)] k'"
proof -
  obtain k :: heap and pos where k: "heap_rel pos [(0x1FFFE0, True)] k" "HeapStart k = 0xFFFFFFFFC0000000"
    by (rule demo_created) blast
  have r: "round_16 100 = wn 112" by (simp add: round_16_def word_gt_0)
  have a: "alloc_spec 112 [(0x1FFFE0, True)] = Some (0, [(112, False), (0x1FFF50, True)])" by (simp add: taken_def)
  obtain k1 where k1: "heap_rel pos ([] @ (112, False) # [(0x1FFF50, True)]) k1" "heap_frame k k1"
    by (rule malloc_found [OF k(1) r _ _ _ a]) simp_all
  have s: "18446744072635809792 = unat (HeapStart k1)" using k(2) k1(2) by (auto simp: heap_frame_def)
  show ?thesis using free_refines [OF k1(1) s] k1(1) by (auto simp: free_spec_def join_prev_def)
qed

text \<open>
  The out-of-memory branch of \<^verbatim>\<open>malloc\<close>: a request that rounds to zero, which is zero itself or one of
  the fifteen largest numbers, prints "Out of memory" and halts without touching the heap.
\<close>

lemma malloc_out_of_memory:
  assumes "w = 0 \<or> 2 ^ 64 - 16 < unat w"
  shows "malloc w k = Some (Halt (print_message ''Out of memory'' k))"
proof -
  have "round_16 w = 0"
  proof (cases "w = 0")
    case False
    then have w: "2 ^ 64 - 16 < unat w" using assms by simp
    define j where "j = unat w - 18446744073709551600"
    have j: "unat w = 16 * 1152921504606846975 + j" "0 < j" "j < 16"
      using w less_imp_diff_less unat_u64_less [of w] by (simp_all add: j_def less_diff_conv2 del: unat_u64_less)
    have "unat w mod 16 = j" unfolding j(1) using j(3) by (simp only: mod_mult_self4 mod_less)
    then have m: "w mod 16 = wn j" using j(3) by (simp add: word_unat_eq_iff unat_mod unat_word_of_nat64)
    have "wn j \<noteq> 0" using wn_0_iff [of j] j by simp
    moreover have "w = wn (16 * 1152921504606846975 + j)" unfolding j(1) [symmetric] by simp
    then have "w - wn j + 16 = 0" by simp
    ultimately show ?thesis by (simp add: round_16_def m word_gt_0)
  qed (simp add: round_16_def)
  then show ?thesis by (subst malloc.simps) simp
qed

lemma malloc_out_of_memory_example:
  "malloc 0 demo_heap = Some (Halt (print_message ''Out of memory'' demo_heap)) \<and>
   malloc 0xFFFFFFFFFFFFFFF8 demo_heap = Some (Halt (print_message ''Out of memory'' demo_heap))"
  using malloc_out_of_memory [of 0 demo_heap] malloc_out_of_memory [of "0xFFFFFFFFFFFFFFF8" demo_heap] by simp

end
