(* ===== verification/Ahci.thy ===== *)
theory Ahci
  imports Heap
begin

text \<open>
  The disk driver (\<^verbatim>\<open>kernel/Ahci/Ahci.cpp\<close>, \<^verbatim>\<open>Ahci.h\<close>) with the port instructions of
  \<^verbatim>\<open>kernel/IO/IO.cpp\<close> it uses. What answers on the bus (the registers of the controller, the
  configuration space, the I/O ports) is hardware: it is the parameter \<open>B\<close> of the
  definitions, a device state with its reactions to loads, stores and port instructions, which
  may also write memory. Pages from the page allocator and the tables in them are accessed at
  their physical address, where the kernel's address space maps them. The driver's own
  objects, which live on the heap, are kept in two stores indexed by their address.
\<close>

lemma then_run_bind: "then_run r f = Option.bind r (\<lambda>r. case r of Ret x s \<Rightarrow> f x s | Halt s \<Rightarrow> Some (Halt s))"
  by (simp add: then_run_def split: option.split run.split)

lemma then_run_mono [partial_function_mono]:
  assumes "monotone option.le_fun option_ord r" and "\<And>x s. monotone option.le_fun option_ord (\<lambda>F. f F x s)"
  shows "monotone option.le_fun option_ord (\<lambda>F. then_run (r F) (f F))"
proof -
  have "monotone option.le_fun option_ord (\<lambda>F. case y of Ret x s \<Rightarrow> f F x s | Halt s \<Rightarrow> Some (Halt s))" for y
    using assms(2) by (cases y) (simp_all add: option.const_mono)
  then show ?thesis unfolding then_run_bind using assms(1) by (intro bind_mono)
qed

subsection \<open>Constants and structures\<close>

definition ATA_DEV_Busy :: u32 where "ATA_DEV_Busy = 0x80"
definition ATA_DEV_DRQ :: u32 where "ATA_DEV_DRQ = 0x08"
definition HBA_PxIS_TFES :: u32 where "HBA_PxIS_TFES = push_bit 30 1"
definition ATA_CommandReadDMA_EX :: u8 where "ATA_CommandReadDMA_EX = 0x25"
definition HBA_PortDevicePresent :: u8 where "HBA_PortDevicePresent = 0x3"
definition HBA_PortIPM_Active :: u8 where "HBA_PortIPM_Active = 0x1"
definition SATA_SIG_Atapi :: u32 where "SATA_SIG_Atapi = 0xEB140101"
definition SATA_SIG_ATA :: u32 where "SATA_SIG_ATA = 0x00000101"
definition SATA_SIG_Semb :: u32 where "SATA_SIG_Semb = 0xC33C0101"
definition SATA_SIG_PM :: u32 where "SATA_SIG_PM = 0x96690101"
definition HBA_PxCmdCR :: u32 where "HBA_PxCmdCR = 0x8000"
definition HBA_PxCmdFRE :: u32 where "HBA_PxCmdFRE = 0x0010"
definition HBA_PxCmdSt :: u32 where "HBA_PxCmdSt = 0x0001"
definition HBA_PxCmdFR :: u32 where "HBA_PxCmdFR = 0x1000"

datatype PortType = PT_None | SATA | Semb | PM | SATA_Pi

datatype FIS_Type = REG_H2D | REG_D2H | DMA_Act | DMA_Setup | Data | Bist | PIO_Setup | DevBits

fun FIS_Type_code :: "FIS_Type \<Rightarrow> u8" where
  "FIS_Type_code REG_H2D = 0x27"
| "FIS_Type_code REG_D2H = 0x34"
| "FIS_Type_code DMA_Act = 0x39"
| "FIS_Type_code DMA_Setup = 0x41"
| "FIS_Type_code Data = 0x46"
| "FIS_Type_code Bist = 0x58"
| "FIS_Type_code PIO_Setup = 0x5F"
| "FIS_Type_code DevBits = 0xA1"

text \<open>The registers of a port the driver uses, by their offset in \<^verbatim>\<open>HBA_Port\<close>.\<close>

datatype HBA_Port =
  CommandListBase | CommandListBaseUpper | FIS_BaseAddress | FIS_BaseAddressUpper | InterruptStatus |
  InterruptEnable | CommandStatus | Port_RSV0 | TaskFileData | Signature | SATA_Status | SATA_Control |
  SATA_Error | SATA_Active | CommandIssue | SATA_Notification | FIS_SwitchControl

fun reg_offset :: "HBA_Port \<Rightarrow> u64" where
  "reg_offset CommandListBase = 0x00"
| "reg_offset CommandListBaseUpper = 0x04"
| "reg_offset FIS_BaseAddress = 0x08"
| "reg_offset FIS_BaseAddressUpper = 0x0C"
| "reg_offset InterruptStatus = 0x10"
| "reg_offset InterruptEnable = 0x14"
| "reg_offset CommandStatus = 0x18"
| "reg_offset Port_RSV0 = 0x1C"
| "reg_offset TaskFileData = 0x20"
| "reg_offset Signature = 0x24"
| "reg_offset SATA_Status = 0x28"
| "reg_offset SATA_Control = 0x2C"
| "reg_offset SATA_Error = 0x30"
| "reg_offset SATA_Active = 0x34"
| "reg_offset CommandIssue = 0x38"
| "reg_offset SATA_Notification = 0x3C"
| "reg_offset FIS_SwitchControl = 0x40"

definition sizeof_HBA_Port :: u64 where "sizeof_HBA_Port = 0x80"

text \<open>Offsets in \<^verbatim>\<open>HBA_Memory\<close>.\<close>

definition HBA_PortsImplemented :: u64 where "HBA_PortsImplemented = 0x0C"
definition HBA_Ports :: u64 where "HBA_Ports = 0x100"

record Port =
  HBA :: u64
  Type :: PortType
  Buffer :: u64
  PortNumber :: u8

definition sizeof_Port :: u64 where "sizeof_Port = 32"

record AhciDriver =
  PciBaseAddress :: u64
  ABAR :: u64
  Ports :: "u64 list"
  PortCount :: u8

definition sizeof_AhciDriver :: u64 where "sizeof_AhciDriver = 280"
definition offset_PortCount :: u64 where "offset_PortCount = 272"

subsection \<open>The bus\<close>

record 'd bus =
  bus_load :: "nat \<Rightarrow> u64 \<Rightarrow> memory \<Rightarrow> 'd \<Rightarrow> u64 \<times> memory \<times> 'd"
  bus_store :: "nat \<Rightarrow> u64 \<Rightarrow> u64 \<Rightarrow> memory \<Rightarrow> 'd \<Rightarrow> memory \<times> 'd"
  port_in :: "u16 \<Rightarrow> memory \<Rightarrow> 'd \<Rightarrow> u8 \<times> memory \<times> 'd"
  port_out :: "u16 \<Rightarrow> u8 \<Rightarrow> memory \<Rightarrow> 'd \<Rightarrow> memory \<times> 'd"

record 'd machine = heap +
  device :: 'd
  Ahci_Buffer :: u64
  Root :: u64
  RootBuffer :: u64
  port_objs :: "u64 \<Rightarrow> Port option"
  driver_objs :: "u64 \<Rightarrow> AhciDriver option"

definition mmio_load :: "'d bus \<Rightarrow> nat \<Rightarrow> u64 \<Rightarrow> ('d, 'a) machine_scheme \<Rightarrow> (u64, ('d, 'a) machine_scheme) run" where
  "mmio_load B w a k = (case bus_load B w a (mem k) (device k) of (v, m, d) \<Rightarrow> Ret v (k\<lparr>mem := m, device := d\<rparr>))"

definition mmio_store :: "'d bus \<Rightarrow> nat \<Rightarrow> u64 \<Rightarrow> u64 \<Rightarrow> ('d, 'a) machine_scheme \<Rightarrow> (unit, ('d, 'a) machine_scheme) run" where
  "mmio_store B w a v k = (case bus_store B w a v (mem k) (device k) of (m, d) \<Rightarrow> Ret () (k\<lparr>mem := m, device := d\<rparr>))"

definition OutB :: "'d bus \<Rightarrow> u16 \<Rightarrow> u8 \<Rightarrow> ('d, 'a) machine_scheme \<Rightarrow> (unit, ('d, 'a) machine_scheme) run" where
  "OutB B port val k = (case port_out B port val (mem k) (device k) of (m, d) \<Rightarrow> Ret () (k\<lparr>mem := m, device := d\<rparr>))"

definition InB :: "'d bus \<Rightarrow> u16 \<Rightarrow> ('d, 'a) machine_scheme \<Rightarrow> (u8, ('d, 'a) machine_scheme) run" where
  "InB B port k = (case port_in B port (mem k) (device k) of (v, m, d) \<Rightarrow> Ret v (k\<lparr>mem := m, device := d\<rparr>))"

definition IO_Wait :: "'d bus \<Rightarrow> ('d, 'a) machine_scheme \<Rightarrow> (unit, ('d, 'a) machine_scheme) run" where
  "IO_Wait B k = OutB B 0x80 0 k"

definition get_reg :: "'d bus \<Rightarrow> u64 \<Rightarrow> HBA_Port \<Rightarrow> ('d, 'a) machine_scheme \<Rightarrow> (u32, ('d, 'a) machine_scheme) run" where
  "get_reg B hba r k = and_then (mmio_load B 4 (hba + reg_offset r) k) (\<lambda>v k. Ret (ucast v) k)"

definition set_reg :: "'d bus \<Rightarrow> u64 \<Rightarrow> HBA_Port \<Rightarrow> u32 \<Rightarrow> ('d, 'a) machine_scheme \<Rightarrow> (unit, ('d, 'a) machine_scheme) run" where
  "set_reg B hba r v k = mmio_store B 4 (hba + reg_offset r) (ucast v) k"

subsection \<open>Starting and stopping a port\<close>

partial_function (option) StopCommand_loop ::
  "'d bus \<Rightarrow> u64 \<Rightarrow> ('d, 'a) machine_scheme \<Rightarrow> (unit, ('d, 'a) machine_scheme) run option" where
  "StopCommand_loop B hba k =
     then_run (Some (get_reg B hba CommandStatus k)) (\<lambda>c k.
     if c AND HBA_PxCmdFR \<noteq> 0 then StopCommand_loop B hba k else
     then_run (Some (get_reg B hba CommandStatus k)) (\<lambda>c k.
     if c AND HBA_PxCmdCR \<noteq> 0 then StopCommand_loop B hba k else Some (Ret () k)))"

definition StopCommand :: "'d bus \<Rightarrow> u64 \<Rightarrow> ('d, 'a) machine_scheme \<Rightarrow> (unit, ('d, 'a) machine_scheme) run option" where
  "StopCommand B hba k =
     then_run (Some (get_reg B hba CommandStatus k)) (\<lambda>c k.
     then_run (Some (set_reg B hba CommandStatus (c AND NOT HBA_PxCmdSt) k)) (\<lambda>_ k.
     then_run (Some (get_reg B hba CommandStatus k)) (\<lambda>c k.
     then_run (Some (set_reg B hba CommandStatus (c AND NOT HBA_PxCmdFRE) k)) (\<lambda>_ k.
     StopCommand_loop B hba k))))"

partial_function (option) StartCommand_loop ::
  "'d bus \<Rightarrow> u64 \<Rightarrow> ('d, 'a) machine_scheme \<Rightarrow> (unit, ('d, 'a) machine_scheme) run option" where
  "StartCommand_loop B hba k =
     then_run (Some (get_reg B hba CommandStatus k)) (\<lambda>c k.
     if c AND HBA_PxCmdCR \<noteq> 0 then StartCommand_loop B hba k else Some (Ret () k))"

definition StartCommand :: "'d bus \<Rightarrow> u64 \<Rightarrow> ('d, 'a) machine_scheme \<Rightarrow> (unit, ('d, 'a) machine_scheme) run option" where
  "StartCommand B hba k =
     then_run (StartCommand_loop B hba k) (\<lambda>_ k.
     then_run (Some (get_reg B hba CommandStatus k)) (\<lambda>c k.
     then_run (Some (set_reg B hba CommandStatus (c OR HBA_PxCmdFRE) k)) (\<lambda>_ k.
     then_run (Some (get_reg B hba CommandStatus k)) (\<lambda>c k.
     Some (set_reg B hba CommandStatus (c OR HBA_PxCmdSt) k)))))"

subsection \<open>Setting up a port\<close>

definition sizeof_HBA_CommandHeader :: u64 where "sizeof_HBA_CommandHeader = 32"

definition set_PrdtLength :: "u64 \<Rightarrow> u16 \<Rightarrow> memory \<Rightarrow> memory" where
  "set_PrdtLength h v m = store16 m (h + 2) v"

definition set_CommandTableBase :: "u64 \<Rightarrow> u64 \<Rightarrow> memory \<Rightarrow> memory" where
  "set_CommandTableBase h a m = store32 (store32 m (h + 8) (ucast a)) (h + 12) (ucast (drop_bit 32 a))"

fun Configure_loop :: "u64 \<Rightarrow> u64 \<Rightarrow> nat \<Rightarrow> ('d, 'a) machine_scheme \<Rightarrow> (unit, ('d, 'a) machine_scheme) run" where
  "Configure_loop CommandHeader Index 0 k = Ret () k"
| "Configure_loop CommandHeader Index (Suc n) k =
     (let h = CommandHeader + Index * sizeof_HBA_CommandHeader;
          k = k\<lparr>mem := set_PrdtLength h 8 (mem k)\<rparr>
      in and_then (AllocateEmptyPage k) (\<lambda>CommandTableAddress k.
         let Address = CommandTableAddress + push_bit 8 Index;
             k = k\<lparr>mem := set_CommandTableBase h Address (mem k)\<rparr>;
             k = k\<lparr>mem := memset (mem k) CommandTableAddress 0 256\<rparr>
         in Configure_loop CommandHeader (Index + 1) n k))"

definition Configure :: "'d bus \<Rightarrow> u64 \<Rightarrow> ('d, 'a) machine_scheme \<Rightarrow> (unit, ('d, 'a) machine_scheme) run option" where
  "Configure B hba k =
     then_run (StopCommand B hba k) (\<lambda>_ k.
     then_run (Some (AllocateEmptyPage k)) (\<lambda>NewBase k.
     then_run (Some (set_reg B hba CommandListBase (ucast NewBase) k)) (\<lambda>_ k.
     then_run (Some (set_reg B hba CommandListBaseUpper (ucast (drop_bit 32 NewBase)) k)) (\<lambda>_ k.
     let k = k\<lparr>mem := memset (mem k) NewBase 0 1024\<rparr> in
     then_run (Some (AllocateEmptyPage k)) (\<lambda>FIS_Base k.
     then_run (Some (set_reg B hba FIS_BaseAddress (ucast FIS_Base) k)) (\<lambda>_ k.
     then_run (Some (set_reg B hba FIS_BaseAddressUpper (ucast (drop_bit 32 FIS_Base)) k)) (\<lambda>_ k.
     let k = k\<lparr>mem := memset (mem k) FIS_Base 0 256\<rparr> in
     then_run (Some (get_reg B hba CommandListBase k)) (\<lambda>lo k.
     then_run (Some (get_reg B hba CommandListBaseUpper k)) (\<lambda>hi k.
     then_run (Some (Configure_loop (ucast lo + push_bit 32 (ucast hi)) 0 32 k)) (\<lambda>_ k.
     StartCommand B hba k))))))))))"

subsection \<open>Reading sectors\<close>

text \<open>The bit fields of a command header, of an entry of its table and of a command.\<close>

definition set_command_header :: "u64 \<Rightarrow> memory \<Rightarrow> memory" where
  "set_command_header h m =
     (let m = m(h := (m h AND 0xE0) OR 5);
          m = m(h := m h AND NOT 0x40)
      in set_PrdtLength h 1 m)"

definition set_prdt :: "u64 \<Rightarrow> u64 \<Rightarrow> u32 \<Rightarrow> memory \<Rightarrow> memory" where
  "set_prdt e Buf SectorCount m =
     (let m = store32 m e (ucast Buf);
          m = store32 m (e + 4) (ucast (drop_bit 32 Buf));
          m = store32 m (e + 12) ((load32 m (e + 12) AND NOT 0x3FFFFF) OR ((push_bit 9 SectorCount - 1) AND 0x3FFFFF))
      in store32 m (e + 12) (load32 m (e + 12) OR 0x80000000))"

definition set_command_fis :: "u64 \<Rightarrow> u64 \<Rightarrow> u32 \<Rightarrow> memory \<Rightarrow> memory" where
  "set_command_fis f Sector SectorCount m =
     (let SectorLow = (ucast Sector :: u32);
          SectorHigh = (ucast (drop_bit 32 Sector) :: u32);
          m = m(f := FIS_Type_code REG_H2D);
          m = m(f + 1 := m (f + 1) OR 0x80);
          m = m(f + 2 := ATA_CommandReadDMA_EX);
          m = m(f + 4 := ucast SectorLow);
          m = m(f + 5 := ucast (drop_bit 8 SectorLow));
          m = m(f + 6 := ucast (drop_bit 16 SectorLow));
          m = m(f + 8 := ucast SectorHigh);
          m = m(f + 9 := ucast (drop_bit 8 SectorHigh));
          m = m(f + 10 := ucast (drop_bit 16 SectorHigh));
          m = m(f + 7 := push_bit 6 1);
          m = m(f + 12 := ucast (SectorCount AND 0xFF))
      in m(f + 13 := ucast (drop_bit 8 SectorCount AND 0xFF)))"

definition build_command :: "u64 \<Rightarrow> u64 \<Rightarrow> u32 \<Rightarrow> u64 \<Rightarrow> memory \<Rightarrow> memory" where
  "build_command CommandHeader Sector SectorCount Buf m =
     (let m = set_command_header CommandHeader m;
          CommandTable = ucast (load32 m (CommandHeader + 8));
          m = memset m CommandTable 0 (128 + (ucast (load16 m (CommandHeader + 2)) - 1) * 16);
          m = set_prdt (CommandTable + 128) Buf SectorCount m
      in set_command_fis CommandTable Sector SectorCount m)"

text \<open>Waiting while the device is busy: at most \<open>n\<close> more rounds.\<close>

fun spin_wait :: "'d bus \<Rightarrow> u64 \<Rightarrow> u64 \<Rightarrow> nat \<Rightarrow> ('d, 'a) machine_scheme \<Rightarrow> (u64, ('d, 'a) machine_scheme) run" where
  "spin_wait B hba Spin n k =
     and_then (get_reg B hba TaskFileData k) (\<lambda>t k.
     if t AND (ATA_DEV_Busy OR ATA_DEV_DRQ) = 0 then Ret Spin k
     else (case n of
             0 \<Rightarrow> Ret Spin k
           | Suc n \<Rightarrow> and_then (IO_Wait B k) (\<lambda>_ k. spin_wait B hba (Spin + 1) n k)))"

partial_function (option) Read_wait ::
  "'d bus \<Rightarrow> u64 \<Rightarrow> ('d, 'a) machine_scheme \<Rightarrow> (bool, ('d, 'a) machine_scheme) run option" where
  "Read_wait B hba k =
     then_run (Some (IO_Wait B k)) (\<lambda>_ k.
     then_run (Some (get_reg B hba CommandIssue k)) (\<lambda>c k.
     if c = 0 then Some (Ret True k) else
     then_run (Some (get_reg B hba InterruptStatus k)) (\<lambda>s k.
     if s AND HBA_PxIS_TFES \<noteq> 0 then Some (Ret False k) else Read_wait B hba k)))"

definition Read :: "'d bus \<Rightarrow> u64 \<Rightarrow> u64 \<Rightarrow> u32 \<Rightarrow> u64 \<Rightarrow> ('d, 'a) machine_scheme \<Rightarrow> (bool, ('d, 'a) machine_scheme) run option" where
  "Read B hba Sector SectorCount Buf k =
     then_run (MapMemory (Pml4 k) Buf Buf 4096 k) (\<lambda>_ k.
     then_run (Some (set_reg B hba InterruptStatus (-1) k)) (\<lambda>_ k.
     then_run (Some (get_reg B hba CommandListBase k)) (\<lambda>clb k.
     let k = k\<lparr>mem := build_command (ucast clb) Sector SectorCount Buf (mem k)\<rparr> in
     then_run (Some (spin_wait B hba 0 10000 k)) (\<lambda>Spin k.
     if Spin = 100 then Some (Ret False k) else
     then_run (Some (set_reg B hba CommandIssue 1 k)) (\<lambda>_ k.
     Read_wait B hba k)))))"

subsection \<open>Finding the ports\<close>

definition GetPortType :: "'d bus \<Rightarrow> u64 \<Rightarrow> ('d, 'a) machine_scheme \<Rightarrow> (PortType, ('d, 'a) machine_scheme) run" where
  "GetPortType B hba k =
     and_then (get_reg B hba SATA_Status k) (\<lambda>Status k.
     let InterfacePowerManagement = (if drop_bit 8 Status \<noteq> 0 \<and> (0b111 :: u32) \<noteq> 0 then 1 else 0 :: u8);
         DeviceDetection = (ucast (Status AND 0b111) :: u8)
     in if DeviceDetection \<noteq> HBA_PortDevicePresent \<or> InterfacePowerManagement \<noteq> HBA_PortIPM_Active
        then Ret PT_None k else
        and_then (get_reg B hba Signature k) (\<lambda>s k.
        if s = SATA_SIG_Atapi then Ret SATA_Pi k else
        and_then (get_reg B hba Signature k) (\<lambda>s k.
        if s = SATA_SIG_ATA then Ret SATA k else
        and_then (get_reg B hba Signature k) (\<lambda>s k.
        if s = SATA_SIG_PM then Ret PM k else
        and_then (get_reg B hba Signature k) (\<lambda>s k.
        if s = SATA_SIG_Semb then Ret Semb k else Ret PT_None k)))))"

text \<open>An index past the array of ports is undefined: \<open>None\<close>, as is not returning.\<close>

fun ProbePorts_loop ::
  "'d bus \<Rightarrow> u32 \<Rightarrow> nat \<Rightarrow> nat \<Rightarrow> AhciDriver \<Rightarrow> ('d, 'a) machine_scheme \<Rightarrow> (AhciDriver, ('d, 'a) machine_scheme) run option" where
  "ProbePorts_loop B PortsImplemented Index 0 D k = Some (Ret D k)"
| "ProbePorts_loop B PortsImplemented Index (Suc n) D k =
     (if \<not> bit PortsImplemented Index then ProbePorts_loop B PortsImplemented (Index + 1) n D k
      else
        let hba = ABAR D + HBA_Ports + word_of_nat Index * sizeof_HBA_Port in
        then_run (Some (GetPortType B hba k)) (\<lambda>ty k.
        if \<not> (ty = SATA \<or> ty = SATA_Pi) then ProbePorts_loop B PortsImplemented (Index + 1) n D k
        else
          then_run (malloc sizeof_Port k) (\<lambda>p k.
          if length (Ports D) \<le> unat (PortCount D) then None
          else
            let D' = D\<lparr>Ports := (Ports D)[unat (PortCount D) := p]\<rparr>;
                obj = \<lparr>HBA = hba, Type = ty, Buffer = 0, PortNumber = PortCount D\<rparr>;
                k = k\<lparr>port_objs := (port_objs k)(p \<mapsto> obj)\<rparr>
            in ProbePorts_loop B PortsImplemented (Index + 1) n (D'\<lparr>PortCount := PortCount D + 1\<rparr>) k)))"

definition ProbePorts :: "'d bus \<Rightarrow> AhciDriver \<Rightarrow> ('d, 'a) machine_scheme \<Rightarrow> (AhciDriver, ('d, 'a) machine_scheme) run option" where
  "ProbePorts B D k =
     then_run (Some (mmio_load B 4 (ABAR D + HBA_PortsImplemented) k)) (\<lambda>v k.
     ProbePorts_loop B (ucast v) 0 32 D k)"

text \<open>Comparing a run of memory with a string literal.\<close>

fun memcmp_literal :: "u64 \<Rightarrow> u8 list \<Rightarrow> memory \<Rightarrow> int" where
  "memcmp_literal a [] m = 0"
| "memcmp_literal a (b # bs) m =
     (if m a < b then -1 else if m a > b then 1 else memcmp_literal (a + 1) bs m)"

definition ROOT_label :: "u8 list" where
  "ROOT_label = [0x52, 0x4F, 0x4F, 0x54]"

fun find_root :: "u64 \<Rightarrow> u64 \<Rightarrow> nat \<Rightarrow> nat \<Rightarrow> ('d, 'a) machine_scheme \<Rightarrow> ('d, 'a) machine_scheme" where
  "find_root p Buf i 0 k = k"
| "find_root p Buf i (Suc n) k =
     find_root p Buf (i + 1) n
       (if memcmp_literal (Buf + word_of_nat i) ROOT_label (mem k) = 0 then k\<lparr>Root := p\<rparr> else k)"

fun probe_root :: "'d bus \<Rightarrow> u64 \<Rightarrow> nat \<Rightarrow> ('d, 'a) machine_scheme \<Rightarrow> (unit, ('d, 'a) machine_scheme) run option" where
  "probe_root B p 0 k = Some (Ret () k)"
| "probe_root B p (Suc n) k =
     (case port_objs k p of
        None \<Rightarrow> None
      | Some P \<Rightarrow>
          let k = k\<lparr>mem := memset (mem k) (Buffer P) 0 512\<rparr> in
          then_run (Read B (HBA P) 0 1 (Buffer P) k) (\<lambda>ok k.
          let k = (if ok then find_root p (Buffer P) 0 512 k else k) in probe_root B p n k))"

fun configure_ports ::
  "'d bus \<Rightarrow> AhciDriver \<Rightarrow> nat \<Rightarrow> nat \<Rightarrow> ('d, 'a) machine_scheme \<Rightarrow> (unit, ('d, 'a) machine_scheme) run option" where
  "configure_ports B D Index 0 k = Some (Ret () k)"
| "configure_ports B D Index (Suc n) k =
     (if length (Ports D) \<le> Index then None
      else case port_objs k (Ports D ! Index) of
        None \<Rightarrow> None
      | Some P \<Rightarrow>
          then_run (Configure B (HBA P) k) (\<lambda>_ k.
          let p = Ports D ! Index;
              k = k\<lparr>port_objs := (port_objs k)(p \<mapsto> P\<lparr>Buffer := Ahci_Buffer k\<rparr>)\<rparr>
          in then_run (probe_root B p 1000 k) (\<lambda>_ k. configure_ports B D (Index + 1) n k)))"

definition offset_BAR5 :: u64 where "offset_BAR5 = 36"

text \<open>
  The constructor on the memory \<open>this\<close> that \<^verbatim>\<open>new\<close> got from the heap: the members it does not
  set keep what the memory held.
\<close>

definition new_AhciDriver :: "'d bus \<Rightarrow> u64 \<Rightarrow> ('d, 'a) machine_scheme \<Rightarrow> (u64, ('d, 'a) machine_scheme) run option" where
  "new_AhciDriver B Base_Address k =
     then_run (malloc sizeof_AhciDriver k) (\<lambda>this k.
     let D = \<lparr>PciBaseAddress = 0, ABAR = 0,
              Ports = map (\<lambda>i. load64 (vmem k) (this + 16 + 8 * word_of_nat i)) [0..<32],
              PortCount = vmem k (this + offset_PortCount)\<rparr>
     in then_run (Some (AllocateEmptyPage k)) (\<lambda>buf k.
        let k = k\<lparr>Ahci_Buffer := buf\<rparr>;
            D = D\<lparr>PciBaseAddress := Base_Address\<rparr>
        in then_run (Some (mmio_load B 4 (PciBaseAddress D + offset_BAR5) k)) (\<lambda>bar k.
           let D = D\<lparr>ABAR := ucast (ucast bar :: u32)\<rparr> in
           then_run (MapMemory (Pml4 k) (ABAR D) (ABAR D) 4096 k) (\<lambda>_ k.
           then_run (ProbePorts B D k) (\<lambda>D k.
           then_run (configure_ports B D 0 (unat (PortCount D)) k) (\<lambda>_ k.
           Some (Ret this (k\<lparr>driver_objs := (driver_objs k)(this \<mapsto> D)\<rparr>))))))))"

subsection \<open>Lemmas\<close>

lemma get_reg_eq:
  "get_reg B hba r k = Ret (ucast (fst (bus_load B 4 (hba + reg_offset r) (mem k) (device k))))
     (k\<lparr>mem := fst (snd (bus_load B 4 (hba + reg_offset r) (mem k) (device k))),
        device := snd (snd (bus_load B 4 (hba + reg_offset r) (mem k) (device k)))\<rparr>)"
  by (simp add: get_reg_def mmio_load_def split_beta)

lemma set_reg_eq:
  "set_reg B hba r v k = Ret ()
     (k\<lparr>mem := fst (bus_store B 4 (hba + reg_offset r) (ucast v) (mem k) (device k)),
        device := snd (bus_store B 4 (hba + reg_offset r) (ucast v) (mem k) (device k))\<rparr>)"
  by (simp add: set_reg_def mmio_store_def split_beta)

lemma IO_Wait_eq:
  "IO_Wait B k = Ret () (k\<lparr>mem := fst (port_out B 0x80 0 (mem k) (device k)), device := snd (port_out B 0x80 0 (mem k) (device k))\<rparr>)"
  by (simp add: IO_Wait_def OutB_def split_beta)

lemma then_run_Some [simp]: "then_run (Some (Ret x s)) f = f x s" "then_run (Some (Halt s)) f = Some (Halt s)"
  by (simp_all add: then_run_def)

declare spin_wait.simps [simp del]

text \<open>One poll of the completion loop and the runs of the loop.\<close>

inductive completes :: "'d bus \<Rightarrow> u64 \<Rightarrow> ('d, 'a) machine_scheme \<Rightarrow> bool \<Rightarrow> ('d, 'a) machine_scheme \<Rightarrow> bool"
  for B hba where
  finished: "IO_Wait B k = Ret () k1 \<Longrightarrow> get_reg B hba CommandIssue k1 = Ret 0 k2 \<Longrightarrow> completes B hba k True k2"
| failed: "IO_Wait B k = Ret () k1 \<Longrightarrow> get_reg B hba CommandIssue k1 = Ret c k2 \<Longrightarrow> c \<noteq> 0 \<Longrightarrow>
    get_reg B hba InterruptStatus k2 = Ret s k3 \<Longrightarrow> s AND HBA_PxIS_TFES \<noteq> 0 \<Longrightarrow> completes B hba k False k3"
| busy: "IO_Wait B k = Ret () k1 \<Longrightarrow> get_reg B hba CommandIssue k1 = Ret c k2 \<Longrightarrow> c \<noteq> 0 \<Longrightarrow>
    get_reg B hba InterruptStatus k2 = Ret s k3 \<Longrightarrow> s AND HBA_PxIS_TFES = 0 \<Longrightarrow>
    completes B hba k3 r k' \<Longrightarrow> completes B hba k r k'"

lemma Read_wait_completes: "completes B hba k r k' \<Longrightarrow> Read_wait B hba k = Some (Ret r k')"
proof (induction rule: completes.induct)
  case (finished k k1 k2)
  then show ?case by (subst Read_wait.simps) simp
next
  case (failed k k1 c k2 s k3)
  then show ?case by (subst Read_wait.simps) simp
next
  case (busy k k1 c k2 s k3 r k')
  then show ?case by (subst Read_wait.simps) simp
qed

lemma completes_Read_wait: "Read_wait B hba k = Some x \<Longrightarrow> \<exists>r k'. x = Ret r k' \<and> completes B hba k r k'"
proof (induction rule: Read_wait.raw_induct [rotated 1, consumes 1])
  case (1 f B hba k x)
  obtain k1 where k1: "IO_Wait B k = Ret () k1" by (simp add: IO_Wait_eq)
  obtain c k2 where k2: "get_reg B hba CommandIssue k1 = Ret c k2" by (simp add: get_reg_eq)
  obtain s k3 where k3: "get_reg B hba InterruptStatus k2 = Ret s k3" by (simp add: get_reg_eq)
  show ?case
  proof (cases "c = 0")
    case True
    then have "x = Ret True k2" using 1(2) k1 k2 by simp
    then show ?thesis using completes.finished [OF k1] k2 True by blast
  next
    case c: False
    show ?thesis
    proof (cases "s AND HBA_PxIS_TFES = 0")
      case False
      then have "x = Ret False k3" using 1(2) k1 k2 k3 c by simp
      then show ?thesis using completes.failed [OF k1 k2 c k3 False] by blast
    next
      case True
      then have "f B hba k3 = Some x" using 1(2) k1 k2 k3 c by simp
      then obtain r k' where "x = Ret r k'" "completes B hba k3 r k'" using 1(1) by blast
      then show ?thesis using completes.busy [OF k1 k2 c k3 True] by blast
    qed
  qed
qed

subsection \<open>The command in memory\<close>

lemma load32_store32_disjoint [mem_frame]: "disjoint_ranges a 4 b 4 \<Longrightarrow> load32 (store32 m b v) a = load32 m a"
  by (simp add: load32_def store32_def load_le_store_le_disjoint)

lemma prdt_fields: "disjoint_ranges e 4 (e + 4) 4" "disjoint_ranges e 4 (e + 12) 4" "disjoint_ranges (e + 4) 4 (e + 12) 4"
  using offs_field [of 4 4 e] offs_field [of 12 4 e] by (auto simp: disjoint_ranges_def)

lemma set_prdt_loads:
  shows "load32 (set_prdt e Buf n m) e = ucast Buf" and "load32 (set_prdt e Buf n m) (e + 4) = ucast (drop_bit 32 Buf)"
    and "load32 (set_prdt e Buf n m) (e + 12) AND 0x3FFFFF = (push_bit 9 n - 1) AND 0x3FFFFF"
    and "bit (load32 (set_prdt e Buf n m) (e + 12)) 31"
proof -
  show "load32 (set_prdt e Buf n m) e = ucast Buf" "load32 (set_prdt e Buf n m) (e + 4) = ucast (drop_bit 32 Buf)"
    by (simp_all add: set_prdt_def Let_def load32_store32_disjoint prdt_fields)
  have e: "load32 (set_prdt e Buf n m) (e + 12) =
      ((w AND NOT 0x3FFFFF) OR ((push_bit 9 n - 1) AND 0x3FFFFF)) OR 0x80000000"
    if "w = load32 (store32 (store32 m e (ucast Buf)) (e + 4) (ucast (drop_bit 32 Buf))) (e + 12)" for w
    by (simp add: set_prdt_def Let_def that)
  show "load32 (set_prdt e Buf n m) (e + 12) AND 0x3FFFFF = (push_bit 9 n - 1) AND 0x3FFFFF"
    unfolding e [OF refl] by (simp add: bit.conj_disj_distrib2 and.assoc)
  show "bit (load32 (set_prdt e Buf n m) (e + 12)) 31" unfolding e [OF refl] by (simp add: bit_or_iff)
qed

lemma set_command_fis_other: "\<not> offs f x < 20 \<Longrightarrow> set_command_fis f Sector n m x = m x"
proof -
  assume a: "\<not> offs f x < 20"
  have "x \<noteq> f + word_of_nat i" if "i < 20" for i using a that offs_add_right [of i f] by auto
  from this [of 0] this [of 1] this [of 2] this [of 4] this [of 5] this [of 6] this [of 7] this [of 8] this [of 9]
    this [of 10] this [of 12] this [of 13]
  show ?thesis by (simp add: set_command_fis_def Let_def)
qed

text \<open>The sector number as the device reads it from the command.\<close>

definition fis_lba :: "u64 \<Rightarrow> memory \<Rightarrow> nat" where
  "fis_lba f m =
     unat (m (f + 4)) + 2 ^ 8 * unat (m (f + 5)) + 2 ^ 16 * unat (m (f + 6)) +
     2 ^ 24 * unat (m (f + 8)) + 2 ^ 32 * unat (m (f + 9)) + 2 ^ 40 * unat (m (f + 10))"

definition fis_count :: "u64 \<Rightarrow> memory \<Rightarrow> nat" where
  "fis_count f m = unat (m (f + 12)) + 2 ^ 8 * unat (m (f + 13))"

lemma unat_shift: "unat (drop_bit i w) = unat w div 2 ^ i"
  by (subst unat_drop_bit_eq) (rule drop_bit_eq_div)

lemma unat_and_FF: "unat (x AND 0xFF :: u32) = unat x mod 256"
proof -
  have "x AND 0xFF = take_bit 8 x" by (simp add: take_bit_eq_mask mask_eq_exp_minus_1)
  then have x: "x AND 0xFF = take_bit 8 x" .
  show ?thesis unfolding x unsigned_take_bit_eq by (simp add: take_bit_eq_mod)
qed

lemma byte_of_u32: "unat (ucast (drop_bit i (w :: u32)) :: u8) = unat w div 2 ^ i mod 256"
  by (simp add: unat_shift unsigned_ucast_eq take_bit_eq_mod)

lemma byte_sum: "n mod 256 + 256 * (n div 256 mod 256) + 65536 * (n div 65536 mod 256) = n mod (16777216 :: nat)"
proof -
  have "n mod 16777216 = n mod 65536 + 65536 * (n div 65536 mod 256)" using mod_mult2_eq [of n 65536 256] by simp
  moreover have "n mod 65536 = n mod 256 + 256 * (n div 256 mod 256)" using mod_mult2_eq [of n 256 256] by simp
  ultimately show ?thesis by simp
qed

lemma fis_fields:
  fixes Sector :: u64 and n :: u32
  assumes m'_def: "m' = set_command_fis f Sector n m"
  shows "fis_lba f m' = unat Sector mod 2 ^ 24 + 2 ^ 24 * (unat Sector div 2 ^ 32 mod 2 ^ 24)"
    and "fis_count f m' = unat n mod 2 ^ 16"
    and "m' f = 0x27" and "bit (m' (f + 1)) 7" and "m' (f + 2) = 0x25" and "m' (f + 7) = 0x40"
proof -
  show "m' f = 0x27" "bit (m' (f + 1)) 7" "m' (f + 2) = 0x25" "m' (f + 7) = 0x40"
    by (simp_all add: m'_def set_command_fis_def Let_def ATA_CommandReadDMA_EX_def bit_or_iff)
  let ?lo = "ucast Sector :: u32" and ?hi = "ucast (drop_bit 32 Sector) :: u32"
  have lo: "unat ?lo = unat Sector mod 2 ^ 32" by (simp add: unsigned_ucast_eq take_bit_eq_mod)
  have hi: "unat ?hi = unat Sector div 2 ^ 32"
    using unat_u64_less [of Sector] by (simp add: unsigned_ucast_eq take_bit_eq_mod unat_shift div_less_iff_less_mult)
  have "fis_lba f m' = (unat ?lo mod 256 + 256 * (unat ?lo div 256 mod 256) + 65536 * (unat ?lo div 65536 mod 256)) +
      2 ^ 24 * (unat ?hi mod 256 + 256 * (unat ?hi div 256 mod 256) + 65536 * (unat ?hi div 65536 mod 256))"
    using byte_of_u32 [of 0 ?lo] byte_of_u32 [of 8 ?lo] byte_of_u32 [of 16 ?lo]
      byte_of_u32 [of 0 ?hi] byte_of_u32 [of 8 ?hi] byte_of_u32 [of 16 ?hi]
    by (simp add: fis_lba_def m'_def set_command_fis_def Let_def)
  also have "\<dots> = unat Sector mod 2 ^ 24 + 2 ^ 24 * (unat Sector div 2 ^ 32 mod 2 ^ 24)"
    unfolding byte_sum lo hi by (simp add: mod_mod_cancel)
  finally show "fis_lba f m' = unat Sector mod 2 ^ 24 + 2 ^ 24 * (unat Sector div 2 ^ 32 mod 2 ^ 24)" .
  have c: "unat (ucast (n AND 0xFF) :: u8) = unat n mod 256" "unat (ucast (drop_bit 8 n AND 0xFF) :: u8) = unat n div 256 mod 256"
    by (simp_all add: unsigned_ucast_eq unat_and_FF unat_shift take_bit_eq_mod)
  have "unat n mod 65536 = unat n mod 256 + 256 * (unat n div 256 mod 256)" using mod_mult2_eq [of "unat n" 256 256] by simp
  then show "fis_count f m' = unat n mod 2 ^ 16"
    using c by (simp add: fis_count_def m'_def set_command_fis_def Let_def)
qed

lemma set_command_header_loads:
  "load16 (set_command_header h m) (h + 2) = 1"
  "load32 (set_command_header h m) (h + 8) = load32 m (h + 8)"
  "\<not> offs h x < 32 \<Longrightarrow> set_command_header h m x = m x"
proof -
  show "load16 (set_command_header h m) (h + 2) = 1" by (simp add: set_command_header_def set_PrdtLength_def Let_def)
  have n: "x \<noteq> h \<and> \<not> offs (h + 2) x < 2" if "\<not> offs h x < 4" for x
    using that offs_field [of 2 2 h x] by auto
  have f: "set_command_header h m x = m x" if "\<not> offs h x < 4" for x
    using n [OF that] by (simp add: set_command_header_def set_PrdtLength_def Let_def store16_apply)
  show "\<not> offs h x < 32 \<Longrightarrow> set_command_header h m x = m x" by (rule f) simp
  show "load32 (set_command_header h m) (h + 8) = load32 m (h + 8)"
    using offs_field [of 8 4 h] by (intro load32_cong f) auto
qed

lemma build_command_layout:
  assumes "ct = ucast (load32 m (h + 8))" "disjoint_ranges h 32 ct 144" "m' = build_command h Sector n Buf m"
  shows "fis_lba ct m' = unat Sector mod 2 ^ 24 + 2 ^ 24 * (unat Sector div 2 ^ 32 mod 2 ^ 24) \<and>
         fis_count ct m' = unat n mod 2 ^ 16 \<and> m' ct = 0x27 \<and> bit (m' (ct + 1)) 7 \<and> m' (ct + 2) = 0x25 \<and>
         load32 m' (ct + 128) = ucast Buf \<and> load32 m' (ct + 132) = ucast (drop_bit 32 Buf) \<and>
         load32 m' (ct + 140) AND 0x3FFFFF = (push_bit 9 n - 1) AND 0x3FFFFF \<and> load16 m' (h + 2) = 1 \<and> load32 m' (h + 8) = load32 m (h + 8)"
proof -
  let ?h = "set_command_header h m"
  let ?m = "set_prdt (ct + 128) Buf n (memset ?h ct 0 128)"
  have m': "m' = set_command_fis ct Sector n ?m"
    unfolding assms(3) build_command_def Let_def set_command_header_loads assms(1) by simp
  note F = fis_fields [OF m']
  have apart: "\<not> offs ct x < 20" if "offs (ct + 128) x < 16" for x using that offs_field [of 128 16 ct x] by auto
  have "load32 m' (ct + 128 + word_of_nat i) = load32 ?m (ct + 128 + word_of_nat i)" if "i + 4 \<le> 16" for i
    unfolding m' using that offs_field [of i 4 "ct + 128"] by (intro load32_cong set_command_fis_other apart) auto
  from this [of 0] this [of 4] this [of 12]
  have P: "load32 m' (ct + 128) = load32 ?m (ct + 128)" "load32 m' (ct + 132) = load32 ?m (ct + 128 + 4)"
    "load32 m' (ct + 140) = load32 ?m (ct + 128 + 12)" by (simp_all add: add.assoc)
  have "m' x = ?h x" if x: "offs h x < 32" for x
  proof -
    have o: "\<not> offs ct x < 144" using assms(2) x by (auto simp: disjoint_ranges_def)
    then have o': "\<not> offs (ct + 128) x < 4" "\<not> offs (ct + 128 + 4) x < 4" "\<not> offs (ct + 128 + 12) x < 4"
      using offs_field [of 128 4 ct x] offs_field [of 132 4 ct x] offs_field [of 140 4 ct x] by (auto simp: add.assoc)
    have "m' x = ?m x" unfolding m' using o by (intro set_command_fis_other) simp
    also have "\<dots> = ?h x" using o o' by (simp add: set_prdt_def Let_def store32_apply memset_apply)
    finally show ?thesis .
  qed
  then have "load16 m' (h + 2) = load16 ?h (h + 2)" "load32 m' (h + 8) = load32 ?h (h + 8)"
    using offs_field [of 2 2 h] offs_field [of 8 4 h] by (auto intro!: load16_cong load32_cong)
  then show ?thesis using F P set_prdt_loads [of "ct + 128" Buf n] set_command_header_loads(1,2) by simp
qed

subsection \<open>Properties\<close>

text \<open>
  C33. The command \<^verbatim>\<open>Port::Read\<close> leaves in memory for the device, for a command table apart from
  the header: a register command that reads with DMA, the count, one entry that points to the
  buffer and asks for \<open>512 * SectorCount\<close> bytes. The sector number in it is right in its low
  24 bits and takes its upper bytes from bit 32 on: bits 24 to 31 of the number are lost.
\<close>

theorem build_command_encodes:
  assumes "ct = ucast (load32 m (h + 8))" "disjoint_ranges h 32 ct 144" "m' = build_command h Sector n Buf m"
  shows "fis_lba ct m' = unat Sector mod 2 ^ 24 + 2 ^ 24 * (unat Sector div 2 ^ 32 mod 2 ^ 24) \<and>
         fis_count ct m' = unat n mod 2 ^ 16 \<and> m' ct = 0x27 \<and> bit (m' (ct + 1)) 7 \<and> m' (ct + 2) = 0x25 \<and>
         load32 m' (ct + 128) = ucast Buf \<and> load32 m' (ct + 132) = ucast (drop_bit 32 Buf) \<and>
         load32 m' (ct + 140) AND 0x3FFFFF = (push_bit 9 n - 1) AND 0x3FFFFF \<and> load16 m' (h + 2) = 1"
  using build_command_layout [OF assms] by blast

theorem build_command_encodes_witness:
  "fis_lba 0x6000 (build_command 0x5000 0x123456 1 0x9000 (store32 (\<lambda>_. 0) 0x5008 0x6000)) = 0x123456 \<and>
   fis_lba 0x6000 (build_command 0x5000 0x1000000 1 0x9000 (store32 (\<lambda>_. 0) 0x5008 0x6000)) = 0"
proof -
  have d: "disjoint_ranges 0x5000 32 0x6000 144" by (rule disjoint_ranges_unat) simp_all
  have l: "0x6000 = (ucast (load32 (store32 (\<lambda>_. 0) 0x5008 0x6000) (0x5000 + 8)) :: u64)" by simp
  show ?thesis using build_command_encodes [OF l d refl, of "0x123456" 1 "0x9000"] build_command_encodes [OF l d refl, of "0x1000000" 1 "0x9000"]
    by simp
qed


lemma spin_busy:
  assumes "\<And>m d. ucast (fst (bus_load B 4 (hba + reg_offset TaskFileData) m d)) AND (ATA_DEV_Busy OR ATA_DEV_DRQ) \<noteq> 0"
  shows "\<exists>k'. spin_wait B hba Spin n k = Ret (Spin + word_of_nat n) k'"
proof (induction n arbitrary: Spin k)
  case 0
  show ?case using assms by (subst spin_wait.simps) (simp add: get_reg_eq)
next
  case (Suc n)
  show ?case
    using assms Suc [of "Spin + 1"] by (subst spin_wait.simps) (simp add: get_reg_eq IO_Wait_eq add.assoc)
qed

text \<open>
  A device that stays busy does not make \<^verbatim>\<open>Port::Read\<close> give up: the busy loop ends after
  10000 rounds, the test for a time-out compares with 100, and the command is issued.
\<close>

lemma Read_ignores_timeout:
  assumes "\<And>m d. ucast (fst (bus_load B 4 (hba + reg_offset TaskFileData) m d)) AND (ATA_DEV_Busy OR ATA_DEV_DRQ) \<noteq> 0"
    and "MapMemory (Pml4 k) Buf Buf 4096 k = Some (Ret () k1)"
  shows "\<exists>k' k''. set_reg B hba CommandIssue 1 k' = Ret () k'' \<and> Read B hba Sector n Buf k = Read_wait B hba k''"
proof -
  obtain k2 where k2: "set_reg B hba InterruptStatus (-1) k1 = Ret () k2" by (simp add: set_reg_eq)
  obtain clb k3 where k3: "get_reg B hba CommandListBase k2 = Ret clb k3" by (simp add: get_reg_eq)
  obtain k4 where k4: "spin_wait B hba 0 10000 (k3\<lparr>mem := build_command (ucast clb) Sector n Buf (mem k3)\<rparr>) = Ret 10000 k4"
    using spin_busy [OF assms(1), of 0 10000] by fastforce
  obtain k5 where k5: "set_reg B hba CommandIssue 1 k4 = Ret () k5" by (simp add: set_reg_eq)
  show ?thesis using assms(2) k2 k3 k4 k5 by (intro exI [of _ k4] exI [of _ k5]) (simp add: Read_def Let_def)
qed

text \<open>
  \<^verbatim>\<open>GetPortType\<close> on a port whose status and signature registers hold still: a device is
  reported when the detection field says present and any bit of the status above the low
  eight is set (the power state itself is not compared), by its signature.
\<close>

lemma GetPortType_class:
  assumes "\<And>m d. bus_load B 4 (hba + reg_offset SATA_Status) m d = (ucast (st :: u32), m, d)"
    and "\<And>m d. bus_load B 4 (hba + reg_offset Signature) m d = (ucast (sg :: u32), m, d)"
  shows "GetPortType B hba k =
    Ret (if st AND 7 \<noteq> 3 \<or> drop_bit 8 st = 0 then PT_None
         else if sg = SATA_SIG_Atapi then SATA_Pi else if sg = SATA_SIG_ATA then SATA
         else if sg = SATA_SIG_PM then PM else if sg = SATA_SIG_Semb then Semb else PT_None) k"
proof -
  have "st AND 7 = take_bit 3 st" by (simp add: take_bit_eq_mask mask_eq_exp_minus_1)
  then have a: "st AND 7 = take_bit 3 st" .
  have "unat (take_bit 3 st) = unat st mod 8" unfolding unsigned_take_bit_eq by (simp add: take_bit_eq_mod)
  then have u: "unat (st AND 7) < 256" unfolding a by (simp add: order_less_trans [OF mod_less_divisor])
  have "unat (ucast (st AND 7) :: u8) = unat (st AND 7)" using u by (simp add: unsigned_ucast_eq take_bit_eq_mod)
  then have c: "(ucast (st AND 7) :: u8) = 3 \<longleftrightarrow> st AND 7 = 3" by (simp add: word_unat_eq_iff)
  have r: "ucast (ucast w :: u64) = w" for w :: u32
    by (rule ucast_up_ucast_id) (simp add: is_up)
  have s: "get_reg B hba SATA_Status k = Ret st k" "get_reg B hba Signature k = Ret sg k"
    using assms r by (simp_all add: get_reg_eq)
  show ?thesis
    by (simp add: GetPortType_def s Let_def HBA_PortDevicePresent_def HBA_PortIPM_Active_def c)
qed

text \<open>A controller that holds still, for the concrete runs: one register file and no reactions.\<close>

definition demo_bus :: "(u64 \<Rightarrow> u64) \<Rightarrow> unit bus" where
  "demo_bus r =
     \<lparr>bus_load = (\<lambda>w a m d. (r a, m, d)), bus_store = (\<lambda>w a v m d. (m, d)),
      port_in = (\<lambda>p m d. (0, m, d)), port_out = (\<lambda>p v m d. (m, d))\<rparr>"

definition demo_machine0 :: "unit machine" where
  "demo_machine0 =
     heap.extend (ptm.extend demo_ptm \<lparr>HeapStart = 0, HeapEnd = 0, LastHeapHDR = 0\<rparr>)
       \<lparr>device = (), Ahci_Buffer = 0, Root = 0, RootBuffer = 0, port_objs = Map.empty, driver_objs = Map.empty\<rparr>"

definition demo_machine :: "unit machine" where
  "demo_machine = demo_machine0\<lparr>LastAddress := 0x1000, mem := memset (mem demo_machine0) 0x1000 0 4096, Pml4 := 0x1000\<rparr>"

lemma GetPortType_class_example:
  "GetPortType (demo_bus (\<lambda>a. if a = 0x128 then 0x613 else 0x101)) 0x100 demo_machine = Ret SATA demo_machine"
  using GetPortType_class [of "demo_bus (\<lambda>a. if a = 0x128 then 0x613 else 0x101)" "0x100" "0x613" "0x101" demo_machine]
  by (simp add: demo_bus_def SATA_SIG_Atapi_def SATA_SIG_ATA_def)

lemma demo_machine_map:
  obtains k1 where "MapMemory (Pml4 demo_machine) 0x9000 0x9000 4096 demo_machine = Some (Ret () k1)"
proof -
  have f: "MemoryMap demo_machine0 = demo_map" "FreeListLength demo_machine0 = 0" "LastAddress demo_machine0 = 0"
    by (simp_all add: demo_machine0_def heap.extend_def ptm.extend_def demo_ptm_def pmm.extend_def demo_pmm_def interrupts.extend_def)
  have fr: "fresh_pages demo_machine0 = 0x1000 # tl (usable_pages (entries demo_map))"
    by (simp add: fresh_pages_def f demo_usable_pages)
  note nr0 = new_root [OF demo_map_wf [folded f(1)] f(2) fr]
  note nr = nr0(2,3) [of "0x1000", folded demo_machine_def]
  have p: "range_paths 0x9000 1 = {[0], [0, 0], [0, 0, 0]}"
    by (simp add: range_paths_def prefix_paths_def table_path_def GetPageTableIndex_def lessThan_Suc)
  have pc: "page_count 4096 = 1" by (simp add: page_count_def)
  have "affords (range_paths 0x9000 1) [0x1000 \<mapsto> []] demo_machine"
    unfolding p by (rule affords_root) (simp_all add: nr(2) demo_usable_pages)
  then have a: "affords (range_paths 0x9000 (page_count 4096)) [0x1000 \<mapsto> []] demo_machine" unfolding pc .
  have "Pml4 demo_machine = 0x1000" by (simp add: demo_machine_def)
  then show ?thesis using that MapMemory_ok [OF nr(1) a order_refl, of "0x9000"] by (auto simp: page_aligned_def)
qed

lemma Read_ignores_timeout_example:
  "\<exists>k' k''. set_reg (demo_bus (\<lambda>_. 0x80)) 0x100 CommandIssue 1 k' = Ret () k'' \<and>
     Read (demo_bus (\<lambda>_. 0x80)) 0x100 0 1 0x9000 demo_machine = Read_wait (demo_bus (\<lambda>_. 0x80)) 0x100 k''"
proof -
  obtain k1 where k1: "MapMemory (Pml4 demo_machine) 0x9000 0x9000 4096 demo_machine = Some (Ret () k1)"
    by (rule demo_machine_map)
  show ?thesis
    by (rule Read_ignores_timeout [OF _ k1]) (simp add: demo_bus_def ATA_DEV_Busy_def ATA_DEV_DRQ_def)
qed

end
