(* ===== verification/Pci.thy ===== *)
theory Pci
  imports Ahci
begin

text \<open>
  Firmware tables, PCI enumeration and the interrupt controllers: \<^verbatim>\<open>kernel/Acpi/Acpi.cpp\<close> and
  \<^verbatim>\<open>kernel/IO/IO.cpp\<close> with their headers. The tables are read from memory; configuration space
  and I/O ports are on the bus. \<^verbatim>\<open>GetAcpi\<close> and \<^verbatim>\<open>GetPci\<close> call each other: the inner call finds
  the pointer to the ACPI data set and returns it.
\<close>

record 'd firmware = "'d machine" +
  RSDP_Request_response :: "limine_rsdp_response option"
  RSDP :: u64
  AcpiData0 :: u64
  Pci_IsReady :: bool

subsection \<open>Layout of the tables\<close>

definition sizeof_SdtHeader :: u64 where "sizeof_SdtHeader = 36"
definition sizeof_MCFG :: u64 where "sizeof_MCFG = 44"
definition sizeof_Acpi :: u64 where "sizeof_Acpi = 16"

definition SdtHeader_Length :: "memory \<Rightarrow> u64 \<Rightarrow> u32" where
  "SdtHeader_Length m t = load32 m (t + 4)"

definition RSDP2_Xsdt :: "memory \<Rightarrow> u64 \<Rightarrow> u64" where
  "RSDP2_Xsdt m r = load64 m (r + 24)"

definition AcpiData_RSDP0 :: "memory \<Rightarrow> u64 \<Rightarrow> u64" where
  "AcpiData_RSDP0 m a = load64 m a"

definition AcpiData_MCFG0 :: "memory \<Rightarrow> u64 \<Rightarrow> u64" where
  "AcpiData_MCFG0 m a = load64 m (a + 8)"

definition Acpi_BaseAddress :: "memory \<Rightarrow> u64 \<Rightarrow> u64" where
  "Acpi_BaseAddress m c = load64 m c"

definition Acpi_FirstBusIndex :: "memory \<Rightarrow> u64 \<Rightarrow> u8" where
  "Acpi_FirstBusIndex m c = m (c + 10)"

definition Acpi_LastBusIndex :: "memory \<Rightarrow> u64 \<Rightarrow> u8" where
  "Acpi_LastBusIndex m c = m (c + 11)"

text \<open>The members of a configuration header the enumeration reads, by width and offset.\<close>

definition Pci_DeviceId :: "'d bus \<Rightarrow> u64 \<Rightarrow> ('d, 'a) machine_scheme \<Rightarrow> (u64, ('d, 'a) machine_scheme) run" where
  "Pci_DeviceId B p k = mmio_load B 2 (p + 2) k"

definition Pci_ProgramInterface :: "'d bus \<Rightarrow> u64 \<Rightarrow> ('d, 'a) machine_scheme \<Rightarrow> (u64, ('d, 'a) machine_scheme) run" where
  "Pci_ProgramInterface B p k = mmio_load B 1 (p + 9) k"

definition Pci_DeviceSubClass :: "'d bus \<Rightarrow> u64 \<Rightarrow> ('d, 'a) machine_scheme \<Rightarrow> (u64, ('d, 'a) machine_scheme) run" where
  "Pci_DeviceSubClass B p k = mmio_load B 1 (p + 10) k"

definition Pci_DeviceClass :: "'d bus \<Rightarrow> u64 \<Rightarrow> ('d, 'a) machine_scheme \<Rightarrow> (u64, ('d, 'a) machine_scheme) run" where
  "Pci_DeviceClass B p k = mmio_load B 1 (p + 11) k"

text \<open>\<^verbatim>\<open>Pci0->DeviceId != 0 && Pci0->DeviceId != 0xFFFF\<close>\<close>

definition Pci_present :: "'d bus \<Rightarrow> u64 \<Rightarrow> ('d, 'a) machine_scheme \<Rightarrow> (bool, ('d, 'a) machine_scheme) run" where
  "Pci_present B p k =
     and_then (Pci_DeviceId B p k) (\<lambda>i k.
     if i = 0 then Ret False k else
     and_then (Pci_DeviceId B p k) (\<lambda>i k. Ret (i \<noteq> 0xFFFF) k))"

subsection \<open>Walking the buses\<close>

definition WalkThroughFunction :: "'d bus \<Rightarrow> u64 \<Rightarrow> u64 \<Rightarrow> ('d, 'a) machine_scheme \<Rightarrow> (unit, ('d, 'a) machine_scheme) run option" where
  "WalkThroughFunction B DeviceAddress FunctionIndex k =
     (let FunctionOffset = push_bit 12 FunctionIndex;
          FunctionAddress = DeviceAddress + FunctionOffset
      in then_run (Some (Pci_present B FunctionAddress k)) (\<lambda>present k.
         if \<not> present then Some (Ret () k) else
         then_run (Some (Pci_DeviceClass B FunctionAddress k)) (\<lambda>c k.
         if c \<noteq> 0x01 then Some (Ret () k) else
         then_run (Some (Pci_DeviceSubClass B FunctionAddress k)) (\<lambda>s k.
         if s \<noteq> 0x06 then Some (Ret () k) else
         then_run (Some (Pci_ProgramInterface B FunctionAddress k)) (\<lambda>p k.
         if p \<noteq> 0x01 then Some (Ret () k) else
         then_run (new_AhciDriver B FunctionAddress k) (\<lambda>_ k. Some (Ret () k)))))))"

fun function_loop :: "'d bus \<Rightarrow> u64 \<Rightarrow> u64 \<Rightarrow> nat \<Rightarrow> ('d, 'a) machine_scheme \<Rightarrow> (unit, ('d, 'a) machine_scheme) run option" where
  "function_loop B DeviceAddress FunctionIndex 0 k = Some (Ret () k)"
| "function_loop B DeviceAddress FunctionIndex (Suc n) k =
     then_run (WalkThroughFunction B DeviceAddress FunctionIndex k) (\<lambda>_ k.
     function_loop B DeviceAddress (FunctionIndex + 1) n k)"

definition WalkThroughDevice :: "'d bus \<Rightarrow> u64 \<Rightarrow> u64 \<Rightarrow> ('d, 'a) machine_scheme \<Rightarrow> (unit, ('d, 'a) machine_scheme) run option" where
  "WalkThroughDevice B BusAddress DeviceIndex k =
     (let DeviceOffset = push_bit 15 DeviceIndex;
          DeviceAddress = BusAddress + DeviceOffset
      in then_run (Some (Pci_present B DeviceAddress k)) (\<lambda>present k.
         if present then function_loop B DeviceAddress 0 8 k else Some (Ret () k)))"

fun device_loop :: "'d bus \<Rightarrow> u64 \<Rightarrow> u64 \<Rightarrow> nat \<Rightarrow> ('d, 'a) machine_scheme \<Rightarrow> (unit, ('d, 'a) machine_scheme) run option" where
  "device_loop B BusAddress DeviceIndex 0 k = Some (Ret () k)"
| "device_loop B BusAddress DeviceIndex (Suc n) k =
     then_run (WalkThroughDevice B BusAddress DeviceIndex k) (\<lambda>_ k.
     device_loop B BusAddress (DeviceIndex + 1) n k)"

definition WalkThroughBus :: "'d bus \<Rightarrow> u64 \<Rightarrow> u64 \<Rightarrow> ('d, 'a) machine_scheme \<Rightarrow> (unit, ('d, 'a) machine_scheme) run option" where
  "WalkThroughBus B BaseAddress BusIndex k =
     (let BusOffset = push_bit 20 BusIndex;
          BusAddress = BaseAddress + BusOffset
      in then_run (Some (Pci_present B BusAddress k)) (\<lambda>present k.
         if present then device_loop B BusAddress 0 32 k else Some (Ret () k)))"

lemma below_byte: "i < unat (b :: u8) \<Longrightarrow> 255 - i < (256 :: nat) - i"
  using unat_u8_less [of b] by linarith

text \<open>The bound is read again on every turn; it is a byte, so the loop ends.\<close>

function bus_loop :: "'d bus \<Rightarrow> u64 \<Rightarrow> nat \<Rightarrow> ('d, 'a) machine_scheme \<Rightarrow> (unit, ('d, 'a) machine_scheme) run option" where
  "bus_loop B DeviceConfiguration BusIndex k =
     (if BusIndex < unat (Acpi_LastBusIndex (mem k) DeviceConfiguration) then
        then_run (WalkThroughBus B (Acpi_BaseAddress (mem k) DeviceConfiguration) (word_of_nat BusIndex) k) (\<lambda>_ k.
        bus_loop B DeviceConfiguration (BusIndex + 1) k)
      else Some (Ret () k))"
  by pat_completeness auto

termination
  by (relation "measure (\<lambda>(B, c, i, k). 256 - i)")
    (simp_all add: below_byte)

declare bus_loop.simps [simp del]

fun item_loop :: "'d bus \<Rightarrow> u64 \<Rightarrow> u64 \<Rightarrow> nat \<Rightarrow> ('d, 'a) machine_scheme \<Rightarrow> (unit, ('d, 'a) machine_scheme) run option" where
  "item_loop B MCFG0 Index 0 k = Some (Ret () k)"
| "item_loop B MCFG0 Index (Suc n) k =
     (let DeviceConfiguration = MCFG0 + sizeof_MCFG + Index * sizeof_Acpi in
      then_run (bus_loop B DeviceConfiguration (unat (Acpi_FirstBusIndex (mem k) DeviceConfiguration)) k) (\<lambda>_ k.
      item_loop B MCFG0 (Index + 1) n k))"

definition WalkThroughPciBus :: "'d bus \<Rightarrow> u64 \<Rightarrow> ('d, 'a) machine_scheme \<Rightarrow> (unit, ('d, 'a) machine_scheme) run option" where
  "WalkThroughPciBus B MCFG0 k =
     (let ItemCount = (ucast (SdtHeader_Length (mem k) MCFG0) - sizeof_MCFG) div sizeof_Acpi
      in item_loop B MCFG0 0 (unat ItemCount) k)"

subsection \<open>ACPI\<close>

definition GetPci_with ::
  "'d bus \<Rightarrow> (('d, 'a) firmware_scheme \<Rightarrow> (u64, ('d, 'a) firmware_scheme) run option) \<Rightarrow>
   ('d, 'a) firmware_scheme \<Rightarrow> (unit, ('d, 'a) firmware_scheme) run option" where
  "GetPci_with B get k =
     (if \<not> Pci_IsReady k then
        then_run (get k) (\<lambda>Acpi0 k.
        then_run (WalkThroughPciBus B (AcpiData_MCFG0 (mem k) Acpi0) k) (\<lambda>_ k.
        Some (Ret () (k\<lparr>Pci_IsReady := True\<rparr>))))
      else Some (Ret () k))"

text \<open>The inner call of \<^verbatim>\<open>GetAcpi\<close>; with a null pointer the two would call each other for ever.\<close>

definition GetAcpi_again :: "('d, 'a) firmware_scheme \<Rightarrow> (u64, ('d, 'a) firmware_scheme) run option" where
  "GetAcpi_again k = (if AcpiData0 k = 0 then None else Some (Ret (AcpiData0 k) k))"

definition MCFG_signature :: "u8 list" where
  "MCFG_signature = [0x4D, 0x43, 0x46, 0x47]"

fun GetAcpi_loop :: "'d bus \<Rightarrow> u64 \<Rightarrow> u64 \<Rightarrow> nat \<Rightarrow> ('d, 'a) firmware_scheme \<Rightarrow> (unit, ('d, 'a) firmware_scheme) run option" where
  "GetAcpi_loop B Xsdt Index 0 k = Some (Ret () k)"
| "GetAcpi_loop B Xsdt Index (Suc n) k =
     (let Item = load64 (mem k) (Xsdt + sizeof_SdtHeader + Index * 8) in
      if memcmp_literal Item MCFG_signature (mem k) = 0 then
        let k = k\<lparr>mem := store64 (mem k) (AcpiData0 k + 8) Item\<rparr> in
        then_run (GetPci_with B GetAcpi_again k) (\<lambda>_ k. GetAcpi_loop B Xsdt (Index + 1) n k)
      else GetAcpi_loop B Xsdt (Index + 1) n k)"

definition GetAcpi :: "'d bus \<Rightarrow> ('d, 'a) firmware_scheme \<Rightarrow> (u64, ('d, 'a) firmware_scheme) run option" where
  "GetAcpi B k =
     (if AcpiData0 k = 0 then
        (case RSDP_Request_response k of
           None \<Rightarrow> Some (Halt k)
         | Some r \<Rightarrow>
             let k = k\<lparr>RSDP := rsdp_address r\<rparr> in
             then_run (Some (AllocateEmptyPage k)) (\<lambda>p k.
             let k = k\<lparr>AcpiData0 := p\<rparr>;
                 k = k\<lparr>mem := store64 (mem k) (AcpiData0 k) (RSDP k)\<rparr>;
                 Xsdt = RSDP2_Xsdt (mem k) (AcpiData_RSDP0 (mem k) (AcpiData0 k));
                 ItemCount = (ucast (SdtHeader_Length (mem k) Xsdt) - sizeof_SdtHeader) div 8
             in then_run (GetAcpi_loop B Xsdt 0 (unat ItemCount) k) (\<lambda>_ k.
                Some (Ret (AcpiData0 k) k))))
      else Some (Ret (AcpiData0 k) k))"

definition GetPci :: "'d bus \<Rightarrow> ('d, 'a) firmware_scheme \<Rightarrow> (unit, ('d, 'a) firmware_scheme) run option" where
  "GetPci B k = GetPci_with B (GetAcpi B) k"

subsection \<open>The interrupt controllers\<close>

definition MasterPIC_CommandPort :: u16 where "MasterPIC_CommandPort = 0x20"
definition SlavePIC_CommandPort :: u16 where "SlavePIC_CommandPort = 0xA0"
definition MasterPIC_DataPort :: u16 where "MasterPIC_DataPort = 0x21"
definition SlavePIC_DataPort :: u16 where "SlavePIC_DataPort = 0xA1"
definition ICW1_Init :: u8 where "ICW1_Init = 0x10"
definition ICW1_ICW4 :: u8 where "ICW1_ICW4 = 0x01"
definition ICW4_8086 :: u8 where "ICW4_8086 = 0x01"
definition PIC_Eoi :: u8 where "PIC_Eoi = 0x20"

definition out_wait :: "'d bus \<Rightarrow> u16 \<Rightarrow> u8 \<Rightarrow> ('d, 'a) machine_scheme \<Rightarrow> (unit, ('d, 'a) machine_scheme) run" where
  "out_wait B p v k = and_then (OutB B p v k) (\<lambda>_ k. IO_Wait B k)"

definition RemapInterruptsForIO :: "'d bus \<Rightarrow> ('d, 'a) machine_scheme \<Rightarrow> (unit, ('d, 'a) machine_scheme) run" where
  "RemapInterruptsForIO B k =
     and_then (InB B MasterPIC_DataPort k) (\<lambda>MasterDataValue k.
     and_then (IO_Wait B k) (\<lambda>_ k.
     and_then (InB B SlavePIC_DataPort k) (\<lambda>SlaveDataValue k.
     and_then (IO_Wait B k) (\<lambda>_ k.
     and_then (out_wait B MasterPIC_CommandPort (ICW1_Init OR ICW1_ICW4) k) (\<lambda>_ k.
     and_then (out_wait B SlavePIC_CommandPort (ICW1_Init OR ICW1_ICW4) k) (\<lambda>_ k.
     and_then (out_wait B MasterPIC_DataPort 0x20 k) (\<lambda>_ k.
     and_then (out_wait B SlavePIC_DataPort 0x28 k) (\<lambda>_ k.
     and_then (out_wait B MasterPIC_DataPort 4 k) (\<lambda>_ k.
     and_then (out_wait B SlavePIC_DataPort 2 k) (\<lambda>_ k.
     and_then (out_wait B MasterPIC_DataPort ICW4_8086 k) (\<lambda>_ k.
     and_then (out_wait B SlavePIC_DataPort ICW4_8086 k) (\<lambda>_ k.
     and_then (out_wait B MasterPIC_DataPort MasterDataValue k) (\<lambda>_ k.
     out_wait B SlavePIC_DataPort SlaveDataValue k)))))))))))))"

definition EndInterruptsForMasterIO :: "'d bus \<Rightarrow> ('d, 'a) machine_scheme \<Rightarrow> (unit, ('d, 'a) machine_scheme) run" where
  "EndInterruptsForMasterIO B k = OutB B MasterPIC_CommandPort PIC_Eoi k"

definition EndInterruptsForSlaveIO :: "'d bus \<Rightarrow> ('d, 'a) machine_scheme \<Rightarrow> (unit, ('d, 'a) machine_scheme) run" where
  "EndInterruptsForSlaveIO B k =
     and_then (OutB B SlavePIC_CommandPort PIC_Eoi k) (\<lambda>_ k. EndInterruptsForMasterIO B k)"

subsection \<open>Remapping the interrupt controllers\<close>

text \<open>
  The reference behaviour of one 8259 controller: a command with bit four set starts the
  initialisation and clears the mask; the next three bytes on the data port are the vector
  base, the cascade wiring and the mode; any other byte on the data port is the mask, which
  is also what the data port reads as.
\<close>

record pic =
  pic_vector :: u8
  pic_cascade :: u8
  pic_mode :: u8
  pic_mask :: u8
  pic_stage :: nat

definition pic_command :: "u8 \<Rightarrow> pic \<Rightarrow> pic" where
  "pic_command v p = (if bit v 4 then p\<lparr>pic_stage := 1, pic_mask := 0\<rparr> else p)"

definition pic_data :: "u8 \<Rightarrow> pic \<Rightarrow> pic" where
  "pic_data v p =
     (if pic_stage p = 1 then p\<lparr>pic_vector := v, pic_stage := 2\<rparr>
      else if pic_stage p = 2 then p\<lparr>pic_cascade := v, pic_stage := 3\<rparr>
      else if pic_stage p = 3 then p\<lparr>pic_mode := v, pic_stage := 0\<rparr>
      else p\<lparr>pic_mask := v\<rparr>)"

definition pic_bus :: "(pic \<times> pic) bus" where
  "pic_bus =
     \<lparr>bus_load = (\<lambda>w a m d. (0, m, d)), bus_store = (\<lambda>w a v m d. (m, d)),
      port_in = (\<lambda>p m d. (if p = 0x21 then pic_mask (fst d) else if p = 0xA1 then pic_mask (snd d) else 0, m, d)),
      port_out = (\<lambda>p v m d.
        (m, if p = 0x20 then (pic_command v (fst d), snd d) else if p = 0x21 then (pic_data v (fst d), snd d)
            else if p = 0xA0 then (fst d, pic_command v (snd d)) else if p = 0xA1 then (fst d, pic_data v (snd d)) else d))\<rparr>"

lemma pic_bus_ports:
  "InB pic_bus MasterPIC_DataPort k = Ret (pic_mask (fst (device k))) k"
  "InB pic_bus SlavePIC_DataPort k = Ret (pic_mask (snd (device k))) k"
  "IO_Wait pic_bus k = Ret () k"
  "out_wait pic_bus MasterPIC_CommandPort v k = Ret () (k\<lparr>device := (pic_command v (fst (device k)), snd (device k))\<rparr>)"
  "out_wait pic_bus MasterPIC_DataPort v k = Ret () (k\<lparr>device := (pic_data v (fst (device k)), snd (device k))\<rparr>)"
  "out_wait pic_bus SlavePIC_CommandPort v k = Ret () (k\<lparr>device := (fst (device k), pic_command v (snd (device k)))\<rparr>)"
  "out_wait pic_bus SlavePIC_DataPort v k = Ret () (k\<lparr>device := (fst (device k), pic_data v (snd (device k)))\<rparr>)"
  by (simp_all add: InB_def OutB_def IO_Wait_def out_wait_def pic_bus_def MasterPIC_DataPort_def SlavePIC_DataPort_def
      MasterPIC_CommandPort_def SlavePIC_CommandPort_def)

lemma pic_initialised:
  "pic_data (pic_mask p) (pic_data ICW4_8086 (pic_data c (pic_data v (pic_command (ICW1_Init OR ICW1_ICW4) p)))) =
     p\<lparr>pic_vector := v, pic_cascade := c, pic_mode := 1, pic_stage := 0\<rparr>"
proof -
  have "pic_command (ICW1_Init OR ICW1_ICW4) p = p\<lparr>pic_stage := 1, pic_mask := 0\<rparr>"
    by (simp add: pic_command_def ICW1_Init_def ICW1_ICW4_def)
  then show ?thesis by (cases p) (simp add: pic_data_def ICW4_8086_def)
qed

text \<open>
  C35. \<^verbatim>\<open>RemapInterruptsForIO\<close> leaves both controllers initialised: hardware interrupts arrive at
  vectors \<open>0x20\<close> and \<open>0x28\<close>, above the processor's exceptions, the cascade is wired to line
  two, the masks are what they were, and nothing else of the machine changed.
\<close>

theorem RemapInterruptsForIO_remaps:
  "RemapInterruptsForIO pic_bus k = Ret ()
     (k\<lparr>device :=
        ((fst (device k))\<lparr>pic_vector := 0x20, pic_cascade := 4, pic_mode := 1, pic_stage := 0\<rparr>,
         (snd (device k))\<lparr>pic_vector := 0x28, pic_cascade := 2, pic_mode := 1, pic_stage := 0\<rparr>)\<rparr>)"
  by (simp add: RemapInterruptsForIO_def pic_bus_ports pic_initialised)

subsection \<open>What the enumeration looks at\<close>

text \<open>
  A configuration space without a disk controller, where every access is written down: the
  functions with a device identifier in \<open>ids\<close> exist.
\<close>

definition trace_bus :: "(u64 \<Rightarrow> u16) \<Rightarrow> (nat \<times> u64) list bus" where
  "trace_bus ids =
     \<lparr>bus_load = (\<lambda>w a m d. (if w = 2 then ucast (ids (a - 2)) else 0, m, d @ [(w, a)])), bus_store = (\<lambda>w a v m d. (m, d)),
      port_in = (\<lambda>p m d. (0, m, d)), port_out = (\<lambda>p v m d. (m, d))\<rparr>"

definition exists_id :: "(u64 \<Rightarrow> u16) \<Rightarrow> u64 \<Rightarrow> bool" where
  "exists_id ids a \<longleftrightarrow> ids a \<noteq> 0 \<and> ids a \<noteq> 0xFFFF"

definition probe_log :: "(u64 \<Rightarrow> u16) \<Rightarrow> u64 \<Rightarrow> (nat \<times> u64) list" where
  "probe_log ids a = (2, a + 2) # (if ids a = 0 then [] else [(2, a + 2)])"

definition function_log :: "(u64 \<Rightarrow> u16) \<Rightarrow> u64 \<Rightarrow> (nat \<times> u64) list" where
  "function_log ids a = probe_log ids a @ (if exists_id ids a then [(1, a + 11)] else [])"

definition device_log :: "(u64 \<Rightarrow> u16) \<Rightarrow> u64 \<Rightarrow> (nat \<times> u64) list" where
  "device_log ids a = probe_log ids a @
     (if exists_id ids a then concat (map (\<lambda>f. function_log ids (a + push_bit 12 (word_of_nat f))) [0..<8]) else [])"

definition bus_log :: "(u64 \<Rightarrow> u16) \<Rightarrow> u64 \<Rightarrow> (nat \<times> u64) list" where
  "bus_log ids a = probe_log ids a @
     (if exists_id ids a then concat (map (\<lambda>d. device_log ids (a + push_bit 15 (word_of_nat d))) [0..<32]) else [])"

lemma trace_load:
  "mmio_load (trace_bus ids) w a k =
     Ret (if w = 2 then ucast (ids (a - 2)) else 0) (k\<lparr>device := device k @ [(w, a)]\<rparr>)"
  by (simp add: mmio_load_def trace_bus_def)

lemma trace_present:
  "Pci_present (trace_bus ids) a k = Ret (exists_id ids a) (k\<lparr>device := device k @ probe_log ids a\<rparr>)"
proof -
  have "(ucast (ids a) :: u64) = 0 \<longleftrightarrow> ids a = 0" "(ucast (ids a) :: u64) = 0xFFFF \<longleftrightarrow> ids a = 0xFFFF"
    by (simp_all add: word_unat_eq_iff unsigned_ucast_eq take_bit_nat_eq_self order_less_trans [OF unat_u16_less])
  then show ?thesis by (simp add: Pci_present_def Pci_DeviceId_def trace_load exists_id_def probe_log_def)
qed

lemma trace_function:
  "WalkThroughFunction (trace_bus ids) d f k =
     Some (Ret () (k\<lparr>device := device k @ function_log ids (d + push_bit 12 f)\<rparr>))"
  by (simp add: WalkThroughFunction_def trace_present Pci_DeviceClass_def trace_load function_log_def Let_def)

lemma concat_upt_Suc: "concat (map g [0..<Suc n]) = g 0 @ concat (map (\<lambda>i. g (Suc i)) [0..<n])"
  unfolding upt_conv_Cons [OF zero_less_Suc] map_Suc_upt [symmetric] by (simp add: comp_def)

lemma trace_functions:
  "function_loop (trace_bus ids) d f n k =
     Some (Ret () (k\<lparr>device := device k @ concat (map (\<lambda>i. function_log ids (d + push_bit 12 (f + word_of_nat i))) [0..<n])\<rparr>))"
  by (induction n arbitrary: f k) (simp_all add: trace_function concat_upt_Suc ac_simps del: upt_Suc)

lemma trace_device:
  "WalkThroughDevice (trace_bus ids) b d k = Some (Ret () (k\<lparr>device := device k @ device_log ids (b + push_bit 15 d)\<rparr>))"
  by (simp add: WalkThroughDevice_def trace_functions trace_present device_log_def Let_def)

lemma trace_devices:
  "device_loop (trace_bus ids) b d n k =
     Some (Ret () (k\<lparr>device := device k @ concat (map (\<lambda>i. device_log ids (b + push_bit 15 (d + word_of_nat i))) [0..<n])\<rparr>))"
  by (induction n arbitrary: d k) (simp_all add: trace_device concat_upt_Suc ac_simps del: upt_Suc)

lemma trace_WalkThroughBus:
  "WalkThroughBus (trace_bus ids) a b k = Some (Ret () (k\<lparr>device := device k @ bus_log ids (a + push_bit 20 b)\<rparr>))"
  by (simp add: WalkThroughBus_def trace_devices trace_present bus_log_def Let_def)

definition entry_log :: "(u64 \<Rightarrow> u16) \<Rightarrow> memory \<Rightarrow> u64 \<Rightarrow> (nat \<times> u64) list" where
  "entry_log ids m c =
     concat (map (\<lambda>b. bus_log ids (Acpi_BaseAddress m c + push_bit 20 (word_of_nat b)))
       [unat (Acpi_FirstBusIndex m c)..<unat (Acpi_LastBusIndex m c)])"

lemma trace_buses:
  "bus_loop (trace_bus ids) c i k =
     Some (Ret () (k\<lparr>device := device k @ concat (map (\<lambda>b. bus_log ids (Acpi_BaseAddress (mem k) c + push_bit 20 (word_of_nat b)))
       [i..<unat (Acpi_LastBusIndex (mem k) c)])\<rparr>))"
proof (induction "unat (Acpi_LastBusIndex (mem k) c) - i" arbitrary: i k)
  case 0
  then show ?case by (subst bus_loop.simps) simp
next
  case (Suc n)
  then have i: "i < unat (Acpi_LastBusIndex (mem k) c)" by simp
  let ?k = "k\<lparr>device := device k @ bus_log ids (Acpi_BaseAddress (mem k) c + push_bit 20 (word_of_nat i))\<rparr>"
  have "n = unat (Acpi_LastBusIndex (mem ?k) c) - Suc i" using Suc(2) by simp
  note IH = Suc(1) [OF this]
  show ?case using i IH by (subst bus_loop.simps) (simp add: trace_WalkThroughBus upt_conv_Cons)
qed


end
