(* ===== verification/Boot.thy ===== *)
theory Boot
  imports HeapProperties Pci
begin

text \<open>
  The kernel's entry (\<^verbatim>\<open>kernel/main.cpp\<close>): \<^verbatim>\<open>_start\<close> and the order in which \<^verbatim>\<open>PrepareKernel\<close>
  brings the components up, and the output hook that the C library calls
  (\<^verbatim>\<open>musl-1.2.3/src/stdio/__stdio_write.c\<close>, which this repository changed). The addresses of the
  fault handlers and of \<^verbatim>\<open>puts_n\<close> are the linker's, parameters here.
\<close>

subsection \<open>Output hook\<close>

text \<open>
  The bytes are printed one by one, each as a string of its own; a zero byte is the empty
  string. Reading past the object is \<open>None\<close>.
\<close>

fun puts_n :: "u8 list \<Rightarrow> nat \<Rightarrow> 'a console_scheme \<Rightarrow> 'a console_scheme option" where
  "puts_n str 0 k = Some k"
| "puts_n [] (Suc n) k = None"
| "puts_n (c # str) (Suc n) k =
     (case fputs [c, 0] stdout k of None \<Rightarrow> None | Some (_, k) \<Rightarrow> puts_n str n k)"

text \<open>A stream of the C library, as far as the write function uses it: the bytes not yet written.\<close>

record FILE =
  wbuffered :: "u8 list"

definition stdio_write :: "FILE \<Rightarrow> u8 list \<Rightarrow> nat \<Rightarrow> 'a console_scheme \<Rightarrow> (nat \<times> FILE \<times> 'a console_scheme) option" where
  "stdio_write f buf len k =
     (case puts_n buf len k of None \<Rightarrow> None | Some k \<Rightarrow> Some (len, f, k))"

subsection \<open>Entry\<close>

definition PrepareKernel ::
  "'d bus \<Rightarrow> u64 \<Rightarrow> u64 \<Rightarrow> u64 \<Rightarrow> ('d, 'a) firmware_scheme \<Rightarrow> (unit, ('d, 'a) firmware_scheme) run option" where
  "PrepareKernel B pf df gp k =
     (let k = CreateGdt k;
          k = CreatePMM k;
          k = CreateIdt k;
          k = RegisterFaults pf df gp k
      in then_run (CreatePTM k) (\<lambda>_ k.
         then_run (CreateHeap k) (\<lambda>_ k.
         then_run (Some (vmemset AddressOfSystemData 0 4096 k)) (\<lambda>_ k.
         then_run (GetAcpi B k) (\<lambda>_ k. Some (Ret () k))))))"

definition start ::
  "'d bus \<Rightarrow> u64 \<Rightarrow> u64 \<Rightarrow> u64 \<Rightarrow> u64 \<Rightarrow> ('d, 'a) firmware_scheme \<Rightarrow> (unit, ('d, 'a) firmware_scheme) run option" where
  "start B pf df gp puts_n_address k =
     (case term_response (terminal_request k) of
        None \<Rightarrow> Some (Halt k)
      | Some r \<Rightarrow>
          if terminal_count r < 1 then Some (Halt k) else
          then_run (PrepareKernel B pf df gp k) (\<lambda>_ k.
          case puts (cstr ''This is a test! :)'') k of
            None \<Rightarrow> None
          | Some (_, k) \<Rightarrow>
              then_run (Some (vstore64 AddressOfSystemData puts_n_address k)) (\<lambda>_ k.
              case puts_n (cstr ''hmmm123'') 7 k of
                None \<Rightarrow> None
              | Some k \<Rightarrow> Some (Halt k))))"

subsection \<open>How many page tables a range needs\<close>

lemma prefix_paths_block:
  assumes "unat v div 2 ^ 21 = unat v' div 2 ^ 21"
  shows "prefix_paths v = prefix_paths v'"
proof -
  have d: "drop_bit 21 v = drop_bit 21 v'" using assms by (simp only: word_unat_eq_iff unat_shift)
  have l: "drop_bit 30 w = drop_bit 9 (drop_bit 21 w)" "drop_bit 39 w = drop_bit 18 (drop_bit 21 w)" for w :: u64
    by (simp_all only: drop_bit_drop_bit) simp_all
  have i: "unat (3 + 9 * 2 :: u64) = 21" "unat (3 + 9 * 3 :: u64) = 30" "unat (3 + 9 * 4 :: u64) = 39" by simp_all
  have "GetPageTableIndex v 2 = GetPageTableIndex v' 2" "GetPageTableIndex v 3 = GetPageTableIndex v' 3"
    "GetPageTableIndex v 4 = GetPageTableIndex v' 4"
    by (simp_all only: GetPageTableIndex_def i l d)
  then show ?thesis by (simp add: prefix_paths_def table_path_def)
qed

lemma card_prefix_paths: "card (prefix_paths v) \<le> 3"
  by (simp add: prefix_paths_def card_insert_if)

lemma card_range_paths_blocks:
  assumes "unat v + 4096 * n \<le> 2 ^ 64"
  shows "card (range_paths v n) \<le> 3 * (n div 512 + 2)"
proof (cases "n = 0")
  case False
  let ?a = "unat v div 2 ^ 21" and ?P = "\<lambda>q. prefix_paths (word_of_nat (q * 2 ^ 21))"
  have "range_paths v n \<subseteq> (\<Union>q\<in>{?a..?a + n div 512 + 1}. ?P q)"
  proof
    fix p assume "p \<in> range_paths v n"
    then obtain j where j: "j < n" "p \<in> prefix_paths (v + word_of_nat j * 4096)" by (auto simp: range_paths_def)
    define q where "q = (unat v + 4096 * j) div 2 ^ 21"
    have u: "unat (v + word_of_nat j * 4096) = unat v + 4096 * j"
      using j(1) assms by (simp add: unat_word_ariths unat_of_nat mult.commute)
    have "q * 2 ^ 21 \<le> unat v + 4096 * j" unfolding q_def by simp
    then have "q * 2 ^ 21 < 2 ^ 64" using j(1) assms by linarith
    then have "unat (word_of_nat (q * 2 ^ 21) :: u64) = q * 2 ^ 21" by (rule unat_word_of_nat64)
    then have "prefix_paths (v + word_of_nat j * 4096) = ?P q"
      by (intro prefix_paths_block) (simp add: u q_def)
    moreover have "?a \<le> q" unfolding q_def by (intro div_le_mono) simp
    moreover have "q \<le> ?a + n div 512 + 1"
    proof -
      obtain r where r: "r = unat v mod 2 ^ 21" "unat v = 2 ^ 21 * ?a + r" "r < 2 ^ 21" by simp
      obtain s where s: "n = 512 * (n div 512) + s" "s < 512" by (metis mod_less_divisor mult_div_mod_eq zero_less_numeral)
      have "unat v + 4096 * j < 2 ^ 21 * (?a + n div 512 + 2)" using r s j(1) by simp
      then show ?thesis unfolding q_def by (simp add: less_mult_imp_div_less mult.commute flip: less_Suc_eq_le)
    qed
    ultimately show "p \<in> (\<Union>q\<in>{?a..?a + n div 512 + 1}. ?P q)" using j(2) by auto
  qed
  moreover have "card (\<Union>q\<in>{?a..?a + n div 512 + 1}. ?P q) \<le> (\<Sum>q\<in>{?a..?a + n div 512 + 1}. card (?P q))"
    by (intro card_UN_le) simp
  moreover have "(\<Sum>q\<in>{?a..?a + n div 512 + 1}. card (?P q)) \<le> of_nat (card {?a..?a + n div 512 + 1}) * 3"
    by (rule sum_bounded_above) (simp only: card_prefix_paths)
  then have "(\<Sum>q\<in>{?a..?a + n div 512 + 1}. card (?P q)) \<le> 3 * (n div 512 + 2)"
    unfolding card_atLeastAtMost by simp
  moreover have "finite (\<Union>q\<in>{?a..?a + n div 512 + 1}. ?P q)" by (simp add: prefix_paths_def)
  ultimately show ?thesis by (meson card_mono order_trans)
qed (simp add: range_paths_def)

subsection \<open>From the entry to the heap\<close>

lemma early_frame:
  fixes k :: "('d, 'a) firmware_scheme"
  assumes "k4 = RegisterFaults pf df gp (CreateIdt (CreatePMM (CreateGdt k)))"
  shows "HHDM_Request_response k4 = HHDM_Request_response k" "KernelAddressRequest_response k4 = KernelAddressRequest_response k"
    and "MemoryMap k4 = MemoryMap k" "FreeListLength k4 = FreeListLength k" "fresh_pages k4 = fresh_pages k"
    and "full_size k4 = full_size k" "kernel_size k4 = kernel_size k"
  unfolding assms
  by (simp_all add: RegisterFaults_def AddHandler_def AddHandler3_def CreateIdt_def CreatePMM_def CreateGdt_def load_gdt_def
      fresh_pages_def full_size_def kernel_size_def Let_def)

lemma range_paths_short: "p \<in> range_paths v n \<Longrightarrow> 0 < length p \<and> length p \<le> 3"
  by (auto simp: range_paths_def prefix_paths_def table_path_def)


definition demo_firmware :: "unit firmware" where
  "demo_firmware =
     machine.extend (heap.extend demo_heap
       \<lparr>device = (), Ahci_Buffer = 0, Root = 0, RootBuffer = 0, port_objs = Map.empty, driver_objs = Map.empty\<rparr>)
       \<lparr>RSDP_Request_response = None, RSDP = 0, AcpiData0 = 0, Pci_IsReady = False\<rparr>"




end
