(* ===== verification/ToString.thy ===== *)
theory ToString
  imports Console "HOL-Library.Signed_Division"
begin

text \<open>
  Numbers as text (\<^verbatim>\<open>kernel/ToString/ToString.cpp\<close>), the log of \<^verbatim>\<open>kernel/Debug/Debug.cpp\<close>
  and the \<^verbatim>\<open>memcmp\<close> of \<^verbatim>\<open>kernel/Memory/Memory.cpp\<close>. A \<^verbatim>\<open>char *out\<close> is the list of the bytes
  from the pointer to the end of its object; a store past the end is \<open>None\<close>. The three
  conversions share their loops up to the base and the character of a digit: the locale
  \<open>digit_writer\<close> says what such a pair of loops writes, once.
\<close>

definition put :: "nat \<Rightarrow> u8 \<Rightarrow> u8 list \<Rightarrow> u8 list option" where
  "put i c out = (if i < length out then Some (out[i := c]) else None)"

lemma word_div_shrinks: "tmp div c > 0 \<Longrightarrow> 1 < unat c \<Longrightarrow> unat (tmp div c) < unat (tmp :: u64)"
proof -
  assume a: "tmp div c > 0" "1 < unat c"
  then have "unat (tmp div c) \<noteq> 0" by (simp add: unat_eq_0 word_gt_0)
  then have "0 < unat tmp" by (cases "unat tmp = 0") (auto simp: unat_div)
  then show ?thesis using a(2) by (simp add: unat_div)
qed

subsection \<open>Unsigned decimal and hexadecimal\<close>

function dec_len :: "u64 \<Rightarrow> u64 \<Rightarrow> u64" where
  "dec_len tmp len = (if tmp div 10 > 0 then dec_len (tmp div 10) (len + 1) else len)"
  by pat_completeness auto

termination
  by (relation "measure (\<lambda>(tmp, len). unat tmp)") (simp_all add: word_div_shrinks)

primrec uint_loop :: "nat \<Rightarrow> u64 \<Rightarrow> u8 list \<Rightarrow> u8 list option" where
  "uint_loop 0 val out = Some out"
| "uint_loop (Suc i) val out =
     (case put i (0x30 + ucast (val mod 10)) out of
        None \<Rightarrow> None
      | Some out \<Rightarrow> uint_loop i (val div 10) out)"

definition uint2str :: "u64 \<Rightarrow> u8 list \<Rightarrow> u8 list option" where
  "uint2str val out =
     (let len = dec_len val 1 in
      case uint_loop (unat len) val out of
        None \<Rightarrow> None
      | Some out \<Rightarrow> put (unat len) 0 out)"

function hex_len :: "u64 \<Rightarrow> u64 \<Rightarrow> u64" where
  "hex_len tmp len = (if tmp div 16 > 0 then hex_len (tmp div 16) (len + 1) else len)"
  by pat_completeness auto

termination
  by (relation "measure (\<lambda>(tmp, len). unat tmp)") (simp_all add: word_div_shrinks)

primrec hex_loop :: "nat \<Rightarrow> u64 \<Rightarrow> u8 list \<Rightarrow> u8 list option" where
  "hex_loop 0 val out = Some out"
| "hex_loop (Suc i) val out =
     (let digit = val mod 16 in
      case put i ((if digit > 9 then 0x41 else 0x30) + ucast (if digit > 9 then digit - 10 else digit)) out of
        None \<Rightarrow> None
      | Some out \<Rightarrow> hex_loop i (val div 16) out)"

definition hex2str :: "u64 \<Rightarrow> u8 list \<Rightarrow> u8 list option" where
  "hex2str val out =
     (let len = hex_len val 1 in
      case hex_loop (unat len) val out of
        None \<Rightarrow> None
      | Some out \<Rightarrow> put (unat len) 0 out)"

subsection \<open>Signed decimal\<close>

text \<open>
  The value is kept as its 64 bits. Negation wraps; the remainder and the quotient in the
  loop are those of C on signed numbers, which truncate towards zero.
\<close>

primrec int_loop :: "nat \<Rightarrow> nat \<Rightarrow> u64 \<Rightarrow> u8 list \<Rightarrow> u8 list option" where
  "int_loop offset 0 val out = Some out"
| "int_loop offset (Suc i) val out =
     (case put (offset + i) (0x30 + word_of_int (sint val smod 10)) out of
        None \<Rightarrow> None
      | Some out \<Rightarrow> int_loop offset i (word_of_int (sint val sdiv 10)) out)"

definition int2str :: "u64 \<Rightarrow> u8 list \<Rightarrow> u8 list option" where
  "int2str val out =
     (case (if sint val < 0 then map_option (\<lambda>out. (out, 1, - val)) (put 0 0x2D out) else Some (out, 0, val)) of
        None \<Rightarrow> None
      | Some (out, offset, val) \<Rightarrow>
          (let len = dec_len val 1 in
           case int_loop offset (unat len) val out of
             None \<Rightarrow> None
           | Some out \<Rightarrow> put (offset + unat len) 0 out))"

subsection \<open>The log\<close>

record debug = console +
  LogNumberStr :: "u8 list"

definition LogNumber :: "u64 \<Rightarrow> bool \<Rightarrow> 'a debug_scheme \<Rightarrow> 'a debug_scheme option" where
  "LogNumber Number IsHex k =
     (case (if \<not> IsHex then uint2str Number (LogNumberStr k) else hex2str Number (LogNumberStr k)) of
        None \<Rightarrow> None
      | Some s \<Rightarrow> map_option snd (fputs s stdout (k\<lparr>LogNumberStr := s\<rparr>)))"

definition LogNumber_int :: "u64 \<Rightarrow> 'a debug_scheme \<Rightarrow> 'a debug_scheme option" where
  "LogNumber_int Number k =
     (case int2str Number (LogNumberStr k) of
        None \<Rightarrow> None
      | Some s \<Rightarrow> map_option snd (fputs s stdout (k\<lparr>LogNumberStr := s\<rparr>)))"

subsection \<open>Comparing memory\<close>

text \<open>
  A null pointer stands for zeros. The index is an \<^verbatim>\<open>int\<close> compared with a \<^verbatim>\<open>size_t\<close>: when it
  would leave the range of \<^verbatim>\<open>int\<close>, the behaviour is undefined, \<open>None\<close> here.
\<close>

function memcmp_loop :: "u64 \<Rightarrow> u64 \<Rightarrow> u64 \<Rightarrow> u64 \<Rightarrow> nat \<Rightarrow> u64 \<Rightarrow> memory \<Rightarrow> int option" where
  "memcmp_loop s1 s2 a b i n m =
     (if i \<ge> 2 ^ 31 then None
      else if word_of_nat i < n then
        (let A = (if s1 \<noteq> 0 then m a else 0);
             B = (if s2 \<noteq> 0 then m b else 0)
         in if A < B then Some (-1)
            else if A > B then Some 1
            else memcmp_loop s1 s2 (if s1 \<noteq> 0 then a + 1 else a) (if s2 \<noteq> 0 then b + 1 else b) (i + 1) n m)
      else Some 0)"
  by pat_completeness auto

termination
  by (relation "measure (\<lambda>(s1, s2, a, b, i, n, m). 2 ^ 31 - i)") auto

definition memcmp :: "u64 \<Rightarrow> u64 \<Rightarrow> u64 \<Rightarrow> memory \<Rightarrow> int option" where
  "memcmp s1 s2 n m = memcmp_loop s1 s2 s1 s2 0 n m"

declare dec_len.simps [simp del] hex_len.simps [simp del] memcmp_loop.simps [simp del]

subsection \<open>Digits\<close>

fun digits :: "nat \<Rightarrow> nat \<Rightarrow> nat list" where
  "digits b n = (if b \<le> 1 \<or> n < b then [n] else digits b (n div b) @ [n mod b])"

declare digits.simps [simp del]

definition undigits :: "nat \<Rightarrow> nat list \<Rightarrow> nat" where
  "undigits b ds = foldl (\<lambda>a d. b * a + d) 0 ds"

lemma undigits_digits: "2 \<le> b \<Longrightarrow> undigits b (digits b n) = n"
proof (induction b n rule: digits.induct)
  case (1 b n)
  show ?case
  proof (cases "n < b")
    case True
    then show ?thesis by (simp add: digits.simps [of b n] undigits_def)
  next
    case False
    then show ?thesis using 1 by (simp add: digits.simps [of b n] undigits_def)
  qed
qed

lemma digits_less: "2 \<le> b \<Longrightarrow> d \<in> set (digits b n) \<Longrightarrow> d < b"
  by (induction b n rule: digits.induct) (subst (asm) (2) digits.simps, auto split: if_splits)

lemma digits_nonempty [simp]: "digits b n \<noteq> []"
  by (subst digits.simps) simp

lemma digits_length: "2 \<le> b \<Longrightarrow> n < b ^ k \<Longrightarrow> 0 < k \<Longrightarrow> length (digits b n) \<le> k"
proof (induction k arbitrary: n)
  case (Suc k)
  show ?case
  proof (cases "n < b")
    case True
    then show ?thesis by (simp add: digits.simps)
  next
    case False
    have "n div b < b ^ k" using Suc.prems by (simp add: less_mult_imp_div_less mult.commute)
    moreover have "0 < k" using Suc.prems False by (cases k) auto
    ultimately show ?thesis using Suc.IH [of "n div b"] Suc.prems False by (subst digits.simps) simp
  qed
qed simp

lemma digits_head: "2 \<le> b \<Longrightarrow> 0 < n \<Longrightarrow> hd (digits b n) \<noteq> 0"
proof (induction b n rule: digits.induct)
  case (1 b n)
  show ?case
  proof (cases "n < b")
    case True
    then show ?thesis using 1 by (simp add: digits.simps)
  next
    case False
    then have "0 < n div b" using 1 by (simp add: div_greater_zero_iff)
    then show ?thesis using 1 False by (subst digits.simps) (simp add: hd_append)
  qed
qed

subsection \<open>What the loops write\<close>

locale digit_writer =
  fixes base :: nat
    and enc :: "nat \<Rightarrow> u8"
    and okay :: "u64 \<Rightarrow> bool"
    and next_val :: "u64 \<Rightarrow> u64"
    and len :: "u64 \<Rightarrow> u64 \<Rightarrow> u64"
    and loop :: "nat \<Rightarrow> u64 \<Rightarrow> u8 list \<Rightarrow> u8 list option"
    and offset :: nat
  assumes base: "2 \<le> base"
    and step: "okay val \<Longrightarrow> okay (next_val val) \<and> unat (next_val val) = unat val div base"
    and len_eq: "okay val \<Longrightarrow> len val n = (if unat val div base > 0 then len (next_val val) (n + 1) else n)"
    and loop_0: "loop 0 val out = Some out"
    and loop_Suc: "okay val \<Longrightarrow> loop (Suc i) val out =
      (case put (offset + i) (enc (unat val mod base)) out of None \<Rightarrow> None | Some out \<Rightarrow> loop i (next_val val) out)"
begin

lemma len_digits: "okay val \<Longrightarrow> len val n = n + word_of_nat (length (digits base (unat val)) - 1)"
proof (induction "unat val" arbitrary: val n rule: less_induct)
  case less
  note st = step [OF less.prems]
  show ?case
  proof (cases "unat val div base > 0")
    case True
    then have ge: "\<not> unat val < base" by (metis div_less less_nat_zero_code)
    then have sm: "unat (next_val val) < unat val" using st base by simp
    obtain m where m: "length (digits base (unat val div base)) = Suc m"
      by (metis digits_nonempty length_greater_0_conv gr0_conv_Suc)
    have "len val n = n + 1 + word_of_nat m"
      using len_eq [OF less.prems] True less.hyps [OF sm] st m by simp
    moreover have "length (digits base (unat val)) = Suc (Suc m)"
      using ge base m by (simp add: digits.simps [of base "unat val"])
    ultimately show ?thesis by (simp add: algebra_simps)
  next
    case False
    then have "unat val < base" using base by (simp add: div_greater_zero_iff)
    then show ?thesis using len_eq [OF less.prems] False by (simp add: digits.simps [of base "unat val"])
  qed
qed

lemma loop_digits:
  "okay val \<Longrightarrow> offset + length (digits base (unat val)) \<le> length out \<Longrightarrow>
   loop (length (digits base (unat val))) val out =
     Some (take offset out @ map enc (digits base (unat val)) @ drop (offset + length (digits base (unat val))) out)"
proof (induction "unat val" arbitrary: val out rule: less_induct)
  case less
  note st = step [OF less.prems(1)] and ds = digits.simps [of base "unat val"]
  show ?case
  proof (cases "unat val < base")
    case True
    then have d: "digits base (unat val) = [unat val]" by (simp add: ds)
    have "offset < length out" using less.prems(2) d by simp
    then show ?thesis
      using True d loop_Suc [OF less.prems(1), of 0 out] by (simp add: put_def loop_0 upd_conv_take_nth_drop)
  next
    case False
    let ?ds = "digits base (unat val div base)"
    have d: "digits base (unat val) = ?ds @ [unat val mod base]" using False base by (simp add: ds)
    have sm: "unat (next_val val) < unat val" using st base False by simp
    let ?out = "out[offset + length ?ds := enc (unat val mod base)]"
    have le: "offset + length (digits base (unat (next_val val))) \<le> length ?out" "offset + length ?ds < length out"
      using less.prems(2) st d by simp_all
    have "loop (length ?ds) (next_val val) ?out =
        Some (take offset ?out @ map enc ?ds @ drop (offset + length ?ds) ?out)"
      using less.hyps [OF sm _ le(1)] st by simp
    moreover have "take offset ?out = take offset out" by simp
    moreover have "drop (offset + length ?ds) ?out = enc (unat val mod base) # drop (Suc (offset + length ?ds)) out"
      using le(2) by (simp add: drop_update_swap Cons_nth_drop_Suc [symmetric])
    ultimately show ?thesis using loop_Suc [OF less.prems(1), of "length ?ds" out] le(2) d by (simp add: put_def)
  qed
qed

text \<open>Both loops and the terminating zero.\<close>

lemma written:
  assumes "okay val" "offset + length (digits base (unat val)) < length out" "length out \<le> 2 ^ 63"
  shows "(case loop (unat (len val 1)) val out of None \<Rightarrow> None | Some out \<Rightarrow> put (offset + unat (len val 1)) 0 out) =
    Some (take offset out @ map enc (digits base (unat val)) @ 0 # drop (Suc (offset + length (digits base (unat val)))) out)"
proof -
  let ?n = "length (digits base (unat val))"
  have n: "0 < ?n" by simp
  have "len val 1 = word_of_nat ?n" using len_digits [OF assms(1)] n
    by (metis One_nat_def Suc_pred of_nat_Suc)
  moreover have "?n < 2 ^ 64" using assms(2,3) by simp
  ultimately have u: "unat (len val 1) = ?n" by (simp add: unat_word_of_nat64)
  have "loop ?n val out = Some (take offset out @ map enc (digits base (unat val)) @ drop (offset + ?n) out)"
    using loop_digits [OF assms(1)] assms(2) by simp
  then show ?thesis using assms(2) unfolding u
    by (simp add: put_def list_update_append Cons_nth_drop_Suc [symmetric])
qed

end

definition dec_char :: "nat \<Rightarrow> u8" where
  "dec_char d = 0x30 + word_of_nat d"

definition hex_char :: "nat \<Rightarrow> u8" where
  "hex_char d = (if d > 9 then 0x41 + word_of_nat (d - 10) else 0x30 + word_of_nat d)"

lemma div_pos_iff: "(x :: u64) div c > 0 \<longleftrightarrow> unat x div unat c > 0"
  by (simp add: word_less_nat_alt unat_div)

lemma dec_char_mod: "dec_char (unat (v :: u64) mod 10) = 0x30 + ucast (v mod 10)"
proof -
  have "unat v mod 10 = unat (v mod 10)" by (simp add: unat_mod)
  then show ?thesis by (simp only: dec_char_def of_nat_unat)
qed

lemma hex_char_mod:
  "hex_char (unat (v :: u64) mod 16) =
     (if v mod 16 > 9 then 0x41 else 0x30) + ucast (if v mod 16 > 9 then v mod 16 - 10 else v mod 16)"
proof -
  have u: "unat v mod 16 = unat (v mod 16)" by (simp add: unat_mod)
  have g: "unat (v mod 16) > 9 \<longleftrightarrow> v mod 16 > 9" by (simp add: word_less_nat_alt)
  have "unat (v mod 16) - 10 = unat (v mod 16 - 10)" if "v mod 16 > 9"
    using that by (subst unat_sub) (simp_all add: word_less_nat_alt word_le_nat_alt)
  then show ?thesis unfolding u hex_char_def g by (cases "v mod 16 > 9") (simp_all only: if_True if_False of_nat_unat)
qed

interpretation dec: digit_writer 10 dec_char "\<lambda>_. True" "\<lambda>v. v div 10" dec_len uint_loop 0
proof unfold_locales
  fix val n :: u64 and i :: nat and out :: "u8 list"
  show "dec_len val n = (if unat val div 10 > 0 then dec_len (val div 10) (n + 1) else n)"
    by (subst dec_len.simps) (simp add: div_pos_iff)
  show "uint_loop (Suc i) val out = (case put (0 + i) (dec_char (unat val mod 10)) out of None \<Rightarrow> None | Some out \<Rightarrow> uint_loop i (val div 10) out)"
    by (simp add: dec_char_mod)
qed (simp_all add: unat_div)

interpretation hex: digit_writer 16 hex_char "\<lambda>_. True" "\<lambda>v. v div 16" hex_len hex_loop 0
proof unfold_locales
  fix val n :: u64 and i :: nat and out :: "u8 list"
  show "hex_len val n = (if unat val div 16 > 0 then hex_len (val div 16) (n + 1) else n)"
    by (subst hex_len.simps) (simp add: div_pos_iff)
  show "hex_loop (Suc i) val out = (case put (0 + i) (hex_char (unat val mod 16)) out of None \<Rightarrow> None | Some out \<Rightarrow> hex_loop i (val div 16) out)"
    by (simp add: hex_char_mod Let_def)
qed (simp_all add: unat_div)

lemma wrap_63:
  assumes "0 \<le> y" "y < 2 ^ 64"
  shows "(y + 2 ^ 63) mod 2 ^ 64 - 2 ^ 63 = (if y < 2 ^ 63 then y else y - 2 ^ 64 :: int)"
proof (cases "y < 2 ^ 63")
  case True
  then show ?thesis using assms by (simp add: mod_pos_pos_trivial)
next
  case False
  have "(y + 2 ^ 63) mod 2 ^ 64 = (y + 2 ^ 63 - 2 ^ 64) mod 2 ^ 64" by (rule minus_mod_self2 [symmetric])
  also have "\<dots> = y + 2 ^ 63 - 2 ^ 64" using assms False by (intro mod_pos_pos_trivial) simp_all
  finally show ?thesis using False by simp
qed

lemma sint_eq: "sint (x :: u64) = (if unat x < 2 ^ 63 then int (unat x) else int (unat x) - 2 ^ 64)"
proof -
  have e: "sint x = (uint x + 2 ^ 63) mod 2 ^ 64 - 2 ^ 63"
    by (simp add: sint_uint signed_take_bit_eq_take_bit_shift take_bit_eq_mod)
  have b: "0 \<le> uint x" "uint x < 2 ^ 64" using uint_bounded [of x] by simp_all
  have "uint x < 2 ^ 63 \<longleftrightarrow> unat x < 2 ^ 63"
    by (simp only: uint_nat of_nat_less_numeral_power_cancel_iff)
  then show ?thesis unfolding e wrap_63 [OF b] by (simp only: uint_nat split: if_split)
qed

lemma sint_small: "unat (x :: u64) < 2 ^ 63 \<Longrightarrow> sint x = int (unat x)"
  by (simp add: sint_eq)

lemma sint_nonneg:
  assumes "0 \<le> sint (x :: u64)"
  shows "sint x = int (unat x)" and "unat x < 2 ^ 63"
proof -
  have "int (unat x) < 2 ^ 64" by (simp only: of_nat_less_numeral_power_cancel_iff) simp
  then show "unat x < 2 ^ 63" using assms sint_eq [of x] by (cases "unat x < 2 ^ 63") simp_all
  then show "sint x = int (unat x)" by (rule sint_small)
qed

lemma sdiv_nat: "int n sdiv 10 = int (n div 10)"
  by (cases "n = 0") (simp_all add: signed_divide_int_def zdiv_int)

lemma smod_nat: "int n smod 10 = int (n mod 10)"
  by (cases "n = 0") (simp_all add: signed_modulo_int_def zmod_int)

interpretation sgn: digit_writer 10 dec_char "\<lambda>v. 0 \<le> sint v" "\<lambda>v. word_of_int (sint v sdiv 10)" dec_len "int_loop off" off
  for off
proof unfold_locales
  fix val n :: u64 and i :: nat and out :: "u8 list"
  assume nn: "0 \<le> sint val"
  note u = sint_nonneg [OF nn]
  have d: "unat val div 10 = unat (val div 10)" "unat val mod 10 = unat (val mod 10)" by (simp_all add: unat_div unat_mod)
  have q: "word_of_int (sint val sdiv 10) = val div 10"
    unfolding u(1) sdiv_nat d(1) by simp
  have "unat (val div 10) < 2 ^ 63"
    unfolding d [symmetric] by (rule order_le_less_trans [OF div_le_dividend u(2)])
  then have s: "0 \<le> sint (val div 10)" by (simp only: sint_small of_nat_0_le_iff)
  show "dec_len val n = (if unat val div 10 > 0 then dec_len (word_of_int (sint val sdiv 10)) (n + 1) else n)"
    unfolding q by (rule dec.len_eq) simp
  show "0 \<le> sint (word_of_int (sint val sdiv 10) :: u64) \<and> unat (word_of_int (sint val sdiv 10) :: u64) = unat val div 10"
    unfolding q d(1) using s by simp
  have "word_of_int (sint val smod 10) = (ucast (val mod 10) :: u8)"
    unfolding u(1) smod_nat d(2) by (subst of_int_of_nat_eq) simp
  then show "int_loop off (Suc i) val out = (case put (off + i) (dec_char (unat val mod 10)) out of None \<Rightarrow> None | Some out \<Rightarrow> int_loop off i (word_of_int (sint val sdiv 10)) out)"
    by (simp add: dec_char_mod)
qed simp_all

subsection \<open>The conversions\<close>

definition decimal :: "nat \<Rightarrow> u8 list" where
  "decimal n = map dec_char (digits 10 n)"

definition hexadecimal :: "nat \<Rightarrow> u8 list" where
  "hexadecimal n = map hex_char (digits 16 n)"

lemma decimal_length: "n < 2 ^ 64 \<Longrightarrow> length (decimal n) \<le> 20" "n < 2 ^ 63 \<Longrightarrow> length (decimal n) \<le> 19"
  using digits_length [of 10 n 20] digits_length [of 10 n 19] by (simp_all add: decimal_def)

lemma hexadecimal_length: "n < 2 ^ 64 \<Longrightarrow> length (hexadecimal n) \<le> 16"
  using digits_length [of 16 n 16] by (simp add: hexadecimal_def)

lemma dec_char_nonzero: "d < 10 \<Longrightarrow> dec_char d \<noteq> 0"
proof -
  assume "d < 10"
  then have "unat (dec_char d) = 48 + d" unfolding dec_char_def by (simp add: unat_word_ariths unat_of_nat)
  then show ?thesis by auto
qed

lemma hex_char_nonzero: "d < 16 \<Longrightarrow> hex_char d \<noteq> 0"
proof -
  assume "d < 16"
  then have "unat (hex_char d) = (if d > 9 then 55 + d else 48 + d)"
    unfolding hex_char_def by (simp add: unat_word_ariths unat_of_nat)
  then show ?thesis by (auto split: if_splits)
qed

lemma decimal_nonzero: "0 \<notin> set (decimal n)"
  using digits_less [of 10 _ n] dec_char_nonzero by (fastforce simp: decimal_def)

lemma hexadecimal_nonzero: "0 \<notin> set (hexadecimal n)"
  using digits_less [of 16 _ n] hex_char_nonzero by (fastforce simp: hexadecimal_def)

lemma uint2str_eq:
  assumes "20 < length out" "length out \<le> 2 ^ 63"
  shows "uint2str val out = Some (decimal (unat val) @ 0 # drop (Suc (length (decimal (unat val)))) out)"
proof -
  have "length (digits 10 (unat val)) < length out"
    using decimal_length(1) [of "unat val"] assms(1) by (simp add: decimal_def)
  then show ?thesis using dec.written [of val out, unfolded add_0] assms(2) by (simp add: uint2str_def decimal_def Let_def)
qed

lemma hex2str_eq:
  assumes "16 < length out" "length out \<le> 2 ^ 63"
  shows "hex2str val out = Some (hexadecimal (unat val) @ 0 # drop (Suc (length (hexadecimal (unat val)))) out)"
proof -
  have "length (digits 16 (unat val)) < length out"
    using hexadecimal_length [of "unat val"] assms(1) by (simp add: hexadecimal_def)
  then show ?thesis using hex.written [of val out, unfolded add_0] assms(2) by (simp add: hex2str_def hexadecimal_def Let_def)
qed

definition signed_decimal :: "int \<Rightarrow> u8 list" where
  "signed_decimal i = (if i < 0 then 0x2D # decimal (nat (- i)) else decimal (nat i))"

lemma int2str_eq:
  assumes "sint val \<noteq> - (2 ^ 63)" "20 < length out" "length out \<le> 2 ^ 63"
  shows "int2str val out = Some (signed_decimal (sint val) @ 0 # drop (Suc (length (signed_decimal (sint val)))) out)"
proof (cases "sint val < 0")
  case False
  then have nn: "0 \<le> sint val" by simp
  note u = sint_nonneg [OF nn]
  have "length (digits 10 (unat val)) < length out"
    using decimal_length(2) [OF u(2)] assms(2) by (simp add: decimal_def)
  then show ?thesis
    using sgn.written [of val 0 out] nn False assms(3) by (simp add: int2str_def Let_def signed_decimal_def decimal_def u(1))
next
  case True
  note e = sint_eq [of val]
  have big: "\<not> unat val < 2 ^ 63" using True e by (cases "unat val < 2 ^ 63") simp_all
  then have v: "sint val = int (unat val) - 2 ^ 64" using e by simp
  have "unat (0 - val) = 2 ^ 64 - unat val" using big by (subst unat_diff_wrap) auto
  then have m: "unat (- val) = 2 ^ 64 - unat val" by simp
  have ne: "unat val \<noteq> 2 ^ 63"
  proof
    assume "unat val = 2 ^ 63"
    then have "sint val = int (2 ^ 63) - 2 ^ 64" using v by (simp only:)
    then show False using assms(1) by simp
  qed
  have n: "unat (- val) < 2 ^ 63" using big ne unfolding m by simp
  have i: "nat (- sint val) = unat (- val)" unfolding v m by (simp add: nat_diff_distrib')
  have nn: "0 \<le> sint (- val)" using sint_small [OF n] by simp
  let ?out = "out[0 := 0x2D]"
  have "Suc 0 + length (digits 10 (unat (- val))) < length ?out"
    using decimal_length(2) [OF n] assms(2) by (simp add: decimal_def)
  note W = sgn.written [OF nn this]
  have h: "take (Suc 0) ?out = [0x2D]" using assms(2) by (cases out) simp_all
  have dr: "drop (Suc (Suc n)) ?out = drop (Suc (Suc n)) out" for n by (cases out) simp_all
  have "int2str val out = (case int_loop (Suc 0) (unat (dec_len (- val) 1)) (- val) ?out of None \<Rightarrow> None
      | Some out \<Rightarrow> put (Suc 0 + unat (dec_len (- val) 1)) 0 out)"
    using True assms(2) by (auto simp: int2str_def put_def Let_def)
  then show ?thesis using W assms(3) True i by (simp add: h dr signed_decimal_def decimal_def)
qed

subsection \<open>Properties\<close>

definition demo_debug :: debug where
  "demo_debug = console.extend demo_console \<lparr>LogNumberStr = replicate 256 0\<rparr>"

lemma demo_debug_ready: "terminal_ready demo_debug"
  by (simp add: demo_debug_def console.extend_def demo_console_def terminal_ready_def)

text \<open>
  C36. \<^verbatim>\<open>LogNumber\<close> prints the number: with a terminal present, the bytes it adds to the
  terminal are the decimal (or upper-case hexadecimal) digits of the number without leading
  zeros, and they read back as the number. The 256-byte buffer keeps its size.
\<close>

theorem LogNumber_prints:
  assumes "terminal_ready k" "length (LogNumberStr k) = 256" "b = (if IsHex then 16 else 10)"
  shows "\<exists>k'. LogNumber Number IsHex k = Some k' \<and> length (LogNumberStr k') = 256 \<and>
           tty_out k' = tty_out k @ map (if IsHex then hex_char else dec_char) (digits b (unat Number)) \<and>
           undigits b (digits b (unat Number)) = unat Number \<and>
           (Number \<noteq> 0 \<longrightarrow> hd (digits b (unat Number)) \<noteq> 0)"
proof -
  let ?s = "map (if IsHex then hex_char else dec_char) (digits b (unat Number))"
  have s: "?s = (if IsHex then hexadecimal (unat Number) else decimal (unat Number))"
    by (simp add: hexadecimal_def decimal_def assms(3))
  have len: "length ?s \<le> 20" and nz: "0 \<notin> set ?s"
    unfolding s using decimal_length(1) [of "unat Number"] hexadecimal_length [of "unat Number"]
      decimal_nonzero hexadecimal_nonzero by simp_all
  let ?buf = "?s @ 0 # drop (Suc (length ?s)) (LogNumberStr k)"
  have conv: "(if \<not> IsHex then uint2str Number (LogNumberStr k) else hex2str Number (LogNumberStr k)) = Some ?buf"
    unfolding s using uint2str_eq [of "LogNumberStr k" Number] hex2str_eq [of "LogNumberStr k" Number] assms(2)
    by (simp add: decimal_def hexadecimal_def)
  have tr: "terminal_ready (k\<lparr>LogNumberStr := ?buf\<rparr>)" using assms(1) by (simp add: terminal_ready_def)
  have "fputs ?buf stdout (k\<lparr>LogNumberStr := ?buf\<rparr>) =
      Some (1, k\<lparr>LogNumberStr := ?buf, strlen_length := word_of_nat (length ?s), tty_out := tty_out k @ ?s\<rparr>)"
    using fputs_stdout [OF tr nz] len by simp
  then have "LogNumber Number IsHex k =
      Some (k\<lparr>LogNumberStr := ?buf, strlen_length := word_of_nat (length ?s), tty_out := tty_out k @ ?s\<rparr>)"
    unfolding LogNumber_def conv by simp
  moreover have "length ?buf = 256" using len assms(2) by simp
  moreover have "2 \<le> b" using assms(3) by simp
  ultimately show ?thesis using undigits_digits [of b] digits_head [of b "unat Number"]
    by (auto simp: unat_gt_0)
qed

theorem LogNumber_prints_witness:
  "\<exists>k'. LogNumber 0xBEEF True demo_debug = Some k' \<and> tty_out k' = map of_char ''BEEF''"
proof -
  have l: "length (LogNumberStr demo_debug) = 256" by (simp add: demo_debug_def console.extend_def)
  have d: "digits 16 48879 = [11, 14, 14, 15]" by (simp add: digits.simps)
  have "tty_out demo_debug = []" by (simp add: demo_debug_def console.extend_def demo_console_def)
  then show ?thesis
    using LogNumber_prints [OF demo_debug_ready l refl, of "0xBEEF" True] d by (auto simp: hex_char_def)
qed

text \<open>
  \<^verbatim>\<open>int2str\<close> writes a minus sign for negative numbers, the decimal digits of the absolute
  value and a zero, and nothing else of a buffer of at least 21 bytes, for every number but
  the smallest.
\<close>

lemma int2str_writes:
  assumes "sint val \<noteq> - (2 ^ 63)" "20 < length out" "length out \<le> 2 ^ 63"
  shows "\<exists>s. int2str val out = Some (s @ 0 # drop (Suc (length s)) out) \<and> length s \<le> 20 \<and>
           s = (if sint val < 0 then [0x2D] else []) @ map dec_char (digits 10 (nat \<bar>sint val\<bar>)) \<and>
           undigits 10 (digits 10 (nat \<bar>sint val\<bar>)) = nat \<bar>sint val\<bar>"
proof -
  have "sint val < 2 ^ 63" "- (2 ^ 63) \<le> sint val" using sint_lt [of val] sint_ge [of val] by simp_all
  then have "nat \<bar>sint val\<bar> < 2 ^ 63" using assms(1) by (simp add: nat_less_iff abs_less_iff)
  then have "length (signed_decimal (sint val)) \<le> 20"
    using decimal_length(2) [of "nat \<bar>sint val\<bar>"] by (auto simp: signed_decimal_def abs_if)
  then show ?thesis using int2str_eq [OF assms] undigits_digits [of 10 "nat \<bar>sint val\<bar>"]
    by (auto simp: signed_decimal_def decimal_def abs_if)
qed

lemma int2str_writes_example:
  "int2str (- 42) (replicate 21 7) = Some ([0x2D, 0x34, 0x32, 0] @ replicate 17 7)"
proof -
  have d: "digits 10 42 = [4, 2]" by (simp add: digits.simps)
  show ?thesis using int2str_writes [of "- 42" "replicate 21 7"] d by (auto simp: dec_char_def)
qed

text \<open>
  The smallest number is not converted: negating it leaves it negative, the remainders in
  the loop are negative, and the characters are taken below the digit zero.
\<close>

lemma int2str_smallest:
  "int2str (word_of_int (- (2 ^ 63))) (replicate 21 0) =
     Some (0x2D # map (\<lambda>d. 0x30 - d) [9, 2, 2, 3, 3, 7, 2, 0, 3, 6, 8, 5, 4, 7, 7, 5, 8, 0, 8] @ [0])"
  by code_simp

text \<open>
  C37. \<^verbatim>\<open>memcmp\<close> compares like the lexicographic order on the two runs of bytes: \<open>0\<close> exactly when
  they are equal, \<open>-1\<close> when the first is smaller, \<open>1\<close> when it is larger, for every length an
  \<^verbatim>\<open>int\<close> index can reach.
\<close>

theorem memcmp_lexicographic:
  assumes "s1 \<noteq> 0" "s2 \<noteq> 0" "unat n < 2 ^ 31"
    and "xs = map (\<lambda>i. unat (m (s1 + word_of_nat i))) [0..<unat n]"
    and "ys = map (\<lambda>i. unat (m (s2 + word_of_nat i))) [0..<unat n]"
  shows "memcmp s1 s2 n m = Some (if xs = ys then 0 else if ord_class.lexordp xs ys then -1 else 1)"
proof -
  have gen: "memcmp_loop s1 s2 (s1 + word_of_nat i) (s2 + word_of_nat i) i n m =
      Some (if map (\<lambda>i. unat (m (s1 + word_of_nat i))) [i..<unat n] = map (\<lambda>i. unat (m (s2 + word_of_nat i))) [i..<unat n] then 0
            else if ord_class.lexordp (map (\<lambda>i. unat (m (s1 + word_of_nat i))) [i..<unat n]) (map (\<lambda>i. unat (m (s2 + word_of_nat i))) [i..<unat n])
            then -1 else 1)" if "i \<le> unat n" for i
    using that
  proof (induction "unat n - i" arbitrary: i)
    case 0
    then have "i = unat n" by simp
    then show ?case using assms(3) by (subst memcmp_loop.simps) simp
  next
    case (Suc d)
    then have i: "i < unat n" and d: "d = unat n - Suc i" by simp_all
    have lt: "word_of_nat i < n" using i by (simp add: word_less_nat_alt unat_word_of_nat64 order_less_trans [OF _ unat_u64_less])
    have u: "[i..<unat n] = i # [Suc i..<unat n]" using i by (simp add: upt_conv_Cons)
    note IH = Suc.hyps(1) [OF d] 
    show ?case
      unfolding u using assms(1-3) lt IH i
      by (subst memcmp_loop.simps) (auto simp: Let_def word_less_nat_alt word_unat_eq_iff ac_simps)
  qed
  show ?thesis using gen [of 0] unfolding memcmp_def assms(4,5) by simp
qed

theorem memcmp_lexicographic_witness:
  "memcmp 0x1000 0x2000 4 (\<lambda>a. ucast (a AND 3)) = Some 0 \<and>
   memcmp 0x1000 0x1001 4 (\<lambda>a. ucast (a AND 3)) = Some (-1)"
  using memcmp_lexicographic [of "0x1000" "0x2000" 4, OF _ _ _ refl refl, of "\<lambda>a. ucast (a AND 3)"]
    memcmp_lexicographic [of "0x1000" "0x1001" 4, OF _ _ _ refl refl, of "\<lambda>a. ucast (a AND 3)"]
  by (simp add: upt_rec)

end
