(* ===== verification/Diskio.thy ===== *)
theory Diskio
  imports Ahci
begin

text \<open>
  The disk interface the file system calls (\<^verbatim>\<open>kernel/Fat/diskio.cpp\<close>, \<^verbatim>\<open>diskio.h\<close>), on the
  driver. The caller's buffer is the list of bytes that the copy loop stores in it.
\<close>

datatype DRESULT = RES_OK | RES_ERROR | RES_NOTRDY | RES_PARERR

definition STA_NOINIT :: u8 where "STA_NOINIT = 0x01"
definition STA_NODISK :: u8 where "STA_NODISK = 0x02"

definition disk_initialize :: "('d, 'a) machine_scheme \<Rightarrow> (u8, ('d, 'a) machine_scheme) run" where
  "disk_initialize k =
     (if RootBuffer k = 0 then
        and_then (AllocatePage k) (\<lambda>p k.
        let k = k\<lparr>RootBuffer := p\<rparr> in Ret 0 (k\<lparr>mem := memset (mem k) (RootBuffer k) 0 512\<rparr>))
      else Ret 0 k)"

fun copy_out :: "u64 \<Rightarrow> u64 \<Rightarrow> nat \<Rightarrow> memory \<Rightarrow> u8 list" where
  "copy_out buf i 0 m = []"
| "copy_out buf i (Suc n) m = m (buf + i) # copy_out buf (i + 1) n m"

definition disk_readp ::
  "'d bus \<Rightarrow> u32 \<Rightarrow> u32 \<Rightarrow> u32 \<Rightarrow> ('d, 'a) machine_scheme \<Rightarrow> (DRESULT \<times> u8 list, ('d, 'a) machine_scheme) run option" where
  "disk_readp B sector offset count k =
     (case port_objs k (Root k) of
        None \<Rightarrow> None
      | Some P \<Rightarrow>
          let P = P\<lparr>Buffer := RootBuffer k\<rparr>;
              k = k\<lparr>port_objs := (port_objs k)(Root k \<mapsto> P)\<rparr>;
              k = k\<lparr>mem := memset (mem k) (Buffer P) 0 512\<rparr>
          in then_run (Read B (HBA P) (ucast sector) 1 (Buffer P) k) (\<lambda>ok k.
             if ok then
               Some (Ret (RES_OK, copy_out (Buffer P) (ucast offset) (unat (offset + count) - unat offset) (mem k)) k)
             else Some (Ret (RES_ERROR, []) k)))"

lemma copy_out_eq: "copy_out buf i n m = map (\<lambda>j. m (buf + i + word_of_nat j)) [0..<n]"
proof (induction n arbitrary: i)
  case (Suc n)
  have "map (\<lambda>j. m (buf + i + word_of_nat j)) [0..<Suc n] = m (buf + i) # map (\<lambda>j. m (buf + (i + 1) + word_of_nat j)) [0..<n]"
    unfolding upt_conv_Cons [OF zero_less_Suc] map_Suc_upt [symmetric] by (simp add: ac_simps)
  then show ?case using Suc [of "i + 1"] by simp
qed simp

lemma disk_readp_result:
  assumes "port_objs k (Root k) = Some P" "unat offset + unat count \<le> 512"
    and "Read B (HBA P) (ucast sector) 1 (RootBuffer k)
           (k\<lparr>port_objs := (port_objs k)(Root k \<mapsto> P\<lparr>Buffer := RootBuffer k\<rparr>), mem := memset (mem k) (RootBuffer k) 0 512\<rparr>) =
         Some (Ret ok k')"
  shows "disk_readp B sector offset count k =
    Some (Ret (if ok then (RES_OK, map (\<lambda>j. mem k' (RootBuffer k + ucast offset + word_of_nat j)) [0..<unat count])
               else (RES_ERROR, [])) k')"
proof -
  have "unat (offset + count) = unat offset + unat count" using assms(2) by (simp add: unat_word_ariths)
  then have n: "unat (offset + count) - unat offset = unat count" by simp
  show ?thesis using assms(1,3) by (simp add: disk_readp_def Let_def copy_out_eq n)
qed

subsection \<open>A disk behind the controller\<close>

text \<open>
  A reference device: the port at \<open>hba\<close> keeps the address of its command list and the issued
  commands; when commands are pending, the next wait carries out the command of slot zero, as
  the controller's specification says: the sectors from the number in the command on are
  stored in the buffer of the table's first entry, and the command is retired.
\<close>

record ahci_dev =
  dCLB :: u32
  dCI :: u32

definition transfer :: "(nat \<Rightarrow> nat \<Rightarrow> u8) \<Rightarrow> u32 \<Rightarrow> memory \<Rightarrow> memory" where
  "transfer img clb m =
     (let ct = ucast (load32 m (ucast clb + 8));
          n = Suc (unat (load32 m (ct + 140) AND 0x3FFFFF));
          buf = ucast (load32 m (ct + 128)) + push_bit 32 (ucast (load32 m (ct + 132)));
          lba = fis_lba ct m
      in (\<lambda>x. if offs buf x < n then img (lba + offs buf x div 512) (offs buf x mod 512) else m x))"

definition disk_bus :: "(nat \<Rightarrow> nat \<Rightarrow> u8) \<Rightarrow> u64 \<Rightarrow> ahci_dev bus" where
  "disk_bus img hba =
     \<lparr>bus_load = (\<lambda>w a m d. (if a = hba + reg_offset CommandListBase then ucast (dCLB d)
                            else if a = hba + reg_offset CommandIssue then ucast (dCI d) else 0, m, d)),
      bus_store = (\<lambda>w a v m d. if a = hba + reg_offset CommandListBase then (m, d\<lparr>dCLB := ucast v\<rparr>)
                              else if a = hba + reg_offset CommandIssue then (m, d\<lparr>dCI := dCI d OR ucast v\<rparr>) else (m, d)),
      port_in = (\<lambda>p m d. (0, m, d)),
      port_out = (\<lambda>p v m d. if dCI d \<noteq> 0 then (transfer img (dCLB d) m, d\<lparr>dCI := 0\<rparr>) else (m, d))\<rparr>"

lemma ucast_up32: "ucast (ucast (w :: u32) :: u64) = w"
  by (rule ucast_up_ucast_id) (simp add: is_up)

lemma disk_bus_regs:
  "get_reg (disk_bus img hba) hba CommandListBase k = Ret (dCLB (device k)) k"
  "get_reg (disk_bus img hba) hba CommandIssue k = Ret (dCI (device k)) k"
  "get_reg (disk_bus img hba) hba TaskFileData k = Ret 0 k"
  "set_reg (disk_bus img hba) hba InterruptStatus v k = Ret () k"
  "set_reg (disk_bus img hba) hba CommandIssue v k = Ret () (k\<lparr>device := (device k)\<lparr>dCI := dCI (device k) OR v\<rparr>\<rparr>)"
  "dCI (device k) \<noteq> 0 \<Longrightarrow> IO_Wait (disk_bus img hba) k =
     Ret () (k\<lparr>mem := transfer img (dCLB (device k)) (mem k), device := (device k)\<lparr>dCI := 0\<rparr>\<rparr>)"
  by (simp_all add: get_reg_eq set_reg_eq IO_Wait_eq disk_bus_def ucast_up32)

lemma halves: "ucast (ucast (b :: u64) :: u32) + push_bit 32 (ucast (ucast (drop_bit 32 b) :: u32)) = b"
proof -
  have "ucast (ucast b :: u32) = take_bit 32 b" by (rule bit_word_eqI) (auto simp: bit_simps)
  moreover have "ucast (ucast (drop_bit 32 b) :: u32) = drop_bit 32 b"
    by (rule bit_word_eqI) (auto simp: bit_simps dest: bit_imp_le_length)
  moreover have "take_bit 32 b + push_bit 32 (drop_bit 32 b) = b"
    by (metis add.commute bits_ident)
  ultimately show ?thesis by simp
qed

lemma transfer_command:
  assumes "ct = ucast (load32 m (ucast clb + 8))" "disjoint_ranges (ucast clb) 32 ct 144"
  shows "transfer img clb (build_command (ucast clb) Sector 1 Buf m) x =
    (if offs Buf x < 512
     then img (unat Sector mod 2 ^ 24 + 2 ^ 24 * (unat Sector div 2 ^ 32 mod 2 ^ 24)) (offs Buf x)
     else build_command (ucast clb) Sector 1 Buf m x)"
proof -
  let ?m = "build_command (ucast clb) Sector 1 Buf m"
  note E = build_command_layout [OF assms refl, of Sector 1 Buf]
  have n: "Suc (unat (load32 ?m (ct + 140) AND 0x3FFFFF)) = 512" using E by simp
  have h: "load32 ?m (ucast clb + 8) = load32 m (ucast clb + 8)" using E by simp
  show ?thesis
    using E n halves [of Buf] by (simp add: transfer_def Let_def h assms(1) [symmetric])
qed

lemma Read_disk:
  fixes k :: "(ahci_dev, 'a) machine_scheme"
  assumes "MapMemory (Pml4 k) Buf Buf 4096 k = Some (Ret () k1)" "clb = dCLB (device k1)" "dCI (device k1) = 0"
    and "ct = ucast (load32 (mem k1) (ucast clb + 8))" "disjoint_ranges (ucast clb) 32 ct 144"
  obtains k' where "Read (disk_bus img hba) hba Sector 1 Buf k = Some (Ret True k')"
    and "\<And>j. j < 512 \<Longrightarrow> mem k' (Buf + word_of_nat j) = img (unat Sector mod 2 ^ 24 + 2 ^ 24 * (unat Sector div 2 ^ 32 mod 2 ^ 24)) j"
proof -
  let ?B = "disk_bus img hba"
  define k2 where "k2 = k1\<lparr>mem := build_command (ucast clb) Sector 1 Buf (mem k1)\<rparr>"
  define k3 where "k3 = k2\<lparr>device := (device k2)\<lparr>dCI := 1\<rparr>\<rparr>"
  define k4 where "k4 = k3\<lparr>mem := transfer img clb (mem k3), device := (device k3)\<lparr>dCI := 0\<rparr>\<rparr>"
  have "spin_wait ?B hba 0 10000 k2 = Ret 0 k2" by (subst spin_wait.simps) (simp add: disk_bus_regs)
  moreover have "set_reg ?B hba CommandIssue 1 k2 = Ret () k3"
    using assms(3) by (simp add: disk_bus_regs k3_def k2_def)
  moreover have "IO_Wait ?B k3 = Ret () k4"
    using disk_bus_regs(6) [of k3 img hba] assms(2) by (simp add: k4_def k3_def k2_def)
  then have "Read_wait ?B hba k3 = Some (Ret True k4)"
    by (subst Read_wait.simps) (simp add: disk_bus_regs k4_def)
  ultimately have r: "Read ?B hba Sector 1 Buf k = Some (Ret True k4)"
    using assms(1,2) by (simp add: Read_def disk_bus_regs Let_def k2_def)
  have "mem k4 (Buf + word_of_nat j) = img (unat Sector mod 2 ^ 24 + 2 ^ 24 * (unat Sector div 2 ^ 32 mod 2 ^ 24)) j"
    if "j < 512" for j
    using that transfer_command [OF assms(4,5), of img Sector Buf] offs_add_right [of j Buf]
    by (simp add: k4_def k3_def k2_def)
  then show ?thesis using that r by blast
qed


text \<open>A machine with a port at \<open>0x100\<close>, its command list in page \<open>0x8000\<close> and slot zero's table in \<open>0xA000\<close>.\<close>

definition demo_disk0 :: "ahci_dev machine" where
  "demo_disk0 =
     heap.extend (ptm.extend (demo_ptm\<lparr>mem := store32 (\<lambda>_. 0) 0x8008 0xA000\<rparr>) \<lparr>HeapStart = 0, HeapEnd = 0, LastHeapHDR = 0\<rparr>)
       \<lparr>device = \<lparr>dCLB = 0x8000, dCI = 0\<rparr>, Ahci_Buffer = 0, Root = 0x10, RootBuffer = 0x9000,
        port_objs = [0x10 \<mapsto> \<lparr>HBA = 0x100, Type = SATA, Buffer = 0, PortNumber = 0\<rparr>], driver_objs = Map.empty\<rparr>"

definition demo_disk :: "ahci_dev machine" where
  "demo_disk = demo_disk0\<lparr>LastAddress := 0x1000, mem := memset (mem demo_disk0) 0x1000 0 4096, Pml4 := 0x1000\<rparr>\<lparr>LastAddress := 0xB000\<rparr>"

lemma demo_disk_map:
  assumes "k = demo_disk\<lparr>port_objs := po, mem := memset (mem demo_disk) 0x9000 0 512\<rparr>"
  obtains k1 where "MapMemory 0x1000 0x9000 0x9000 4096 k = Some (Ret () k1)" and "device k1 = \<lparr>dCLB = 0x8000, dCI = 0\<rparr>"
    and "load32 (mem k1) 0x8008 = 0xA000"
proof -
  have f: "MemoryMap demo_disk0 = demo_map" "FreeListLength demo_disk0 = 0" "LastAddress demo_disk0 = 0"
    "mem demo_disk0 = store32 (\<lambda>_. 0) 0x8008 0xA000"
    by (simp_all add: demo_disk0_def heap.extend_def ptm.extend_def demo_ptm_def pmm.extend_def demo_pmm_def interrupts.extend_def)
  have fr: "fresh_pages demo_disk0 = 0x1000 # tl (usable_pages (entries demo_map))"
    by (simp add: fresh_pages_def f demo_usable_pages)
  note nr = new_root(2) [OF demo_map_wf [folded f(1)] f(2) fr, of "0x1000"]
  have inv0: "vm_inv [0x1000 \<mapsto> []] 0x1000 demo_disk" using nr by (simp add: demo_disk_def vm_inv_def)
  have keep: "memset (mem demo_disk) 0x9000 0 512 x = mem demo_disk x" if "t \<in> dom [0x1000 \<mapsto> []]" "offs t x < 4096" for t x
    using that offs_range [of "0x1000" 4096 x] offs_range [of "0x9000" 512 x] by (auto simp: memset_apply)
  have inv: "vm_inv [0x1000 \<mapsto> []] 0x1000 k"
    using vm_inv_frame(1) [OF inv0 keep] unfolding assms by (simp add: vm_inv_def)
  have p: "range_paths 0x9000 1 = {[0], [0, 0], [0, 0, 0]}"
    by (simp add: range_paths_def prefix_paths_def table_path_def GetPageTableIndex_def lessThan_Suc)
  have pc: "page_count 4096 = 1" by (simp add: page_count_def)
  have "fresh_pages k = [0xC000, 0xD000, 0xE000, 0xF000, 0x10000, 0x20000, 0x21000]"
    by (simp add: assms fresh_pages_def demo_disk_def f demo_usable_pages)
  then have "affords (range_paths 0x9000 (page_count 4096)) [0x1000 \<mapsto> []] k"
    unfolding p pc by (intro affords_root) simp_all
  then obtain k1 pos where k1: "MapMemory 0x1000 0x9000 0x9000 4096 k = Some (Ret () k1)" "vm_inv pos 0x1000 k1" "vm_ext [0x1000 \<mapsto> []] k pos k1"
    using MapMemory_ok [OF inv _ order_refl, of "0x9000" 4096 "0x9000"] by (auto simp: page_aligned_def)
  have la: "LastAddress k = 0xB000" by (simp add: assms demo_disk_def)
  have "mem k1 x = mem k x" if x: "offs 0x8008 x < 4" for x
  proof (rule vm_ext_mem [OF k1(3)], rule ballI)
    fix t assume t: "t \<in> dom pos"
    have ux: "0x8008 \<le> unat x" "unat x < 0x800C" using x offs_range [of "0x8008" 4 x] by simp_all
    show "\<not> offs t x < 4096"
    proof (cases "t = 0x1000")
      case True
      then show ?thesis using ux offs_range [of "0x1000" 4096 x] by simp
    next
      case False
      then have "0xB000 < t" using k1(3) t la by (auto simp: vm_ext_def)
      then have "0xB000 < unat t" by (simp add: word_less_nat_alt)
      moreover have "unat t + 4096 \<le> 2 ^ 64"
        using k1(2) t pt_tree_frame by (force simp: vm_inv_def is_frame_def)
      ultimately show ?thesis using ux offs_range [of t 4096 x] by simp
    qed
  qed
  then have "load32 (mem k1) 0x8008 = load32 (mem k) 0x8008" by (rule load32_cong)
  also have "\<dots> = load32 (store32 (\<lambda>_. 0) 0x8008 0xA000) 0x8008"
    using offs_range [of "0x8008" 4] offs_range [of "0x1000" 4096] offs_range [of "0x9000" 512]
    by (intro load32_cong) (simp add: assms demo_disk_def f memset_apply)
  finally have "load32 (mem k1) 0x8008 = 0xA000" by simp
  moreover have "device k1 = \<lparr>dCLB = 0x8000, dCI = 0\<rparr>"
    using k1(3) by (auto simp: vm_ext_def assms demo_disk_def demo_disk0_def heap.extend_def)
  ultimately show ?thesis using that k1(1) by blast
qed


end
