(* ===== verification/Pff.thy ===== *)
theory Pff
  imports Diskio
begin

text \<open>
  The FAT file system (\<^verbatim>\<open>kernel/Fat/pff.c\<close>, \<^verbatim>\<open>pff.h\<close>, configured by \<^verbatim>\<open>pffconf.h\<close>: reading,
  directories and seeking on FAT12, FAT16 and FAT32, no writing, no case conversion). The disk
  is the parameter \<open>rd\<close>: \<open>rd sector offset count\<close> are the bytes \<^verbatim>\<open>disk_readp\<close> stores, \<open>None\<close> its
  error. A path is the list of its bytes with the terminating zero; reading past it is
  \<open>None\<close>. Arithmetic is that of the source's widths.
\<close>

type_synonym disk = "u32 \<Rightarrow> u32 \<Rightarrow> u32 \<Rightarrow> u8 list option"

subsection \<open>Structures and constants\<close>

record FATFS =
  fs_type :: u8
  flag :: u8
  csize :: u8
  n_rootdir :: u16
  n_fatent :: u32
  fatbase :: u32
  dirbase :: u32
  database :: u32
  fptr :: u32
  fsize :: u32
  org_clust :: u32
  curr_clust :: u32
  dsect :: u32

record DIR =
  index :: u16
  fn :: "u8 list"
  sclust :: u32
  clust :: u32
  sect :: u32

record FILINFO =
  fi_fsize :: u32
  fi_fdate :: u16
  fi_ftime :: u16
  fi_fattrib :: u8
  fi_fname :: "u8 list"

datatype FRESULT = FR_OK | FR_DISK_ERR | FR_NOT_READY | FR_NO_FILE | FR_NOT_OPENED | FR_NOT_ENABLED | FR_NO_FILESYSTEM

text \<open>The static pointer to the mounted file system, and the object it points to.\<close>

record pff =
  FatFs :: bool
  fs_object :: FATFS

definition FA_OPENED :: u8 where "FA_OPENED = 0x01"
definition FS_FAT12 :: u8 where "FS_FAT12 = 1"
definition FS_FAT16 :: u8 where "FS_FAT16 = 2"
definition FS_FAT32 :: u8 where "FS_FAT32 = 3"
definition AM_VOL :: u8 where "AM_VOL = 0x08"
definition AM_DIR :: u8 where "AM_DIR = 0x10"
definition AM_MASK :: u8 where "AM_MASK = 0x3F"

text \<open>Byte offsets in the boot record (those of its part from byte 13 on are used relative to it) and in a directory entry.\<close>

definition BPB_SecPerClus :: nat where "BPB_SecPerClus = 13"
definition BPB_RsvdSecCnt :: nat where "BPB_RsvdSecCnt = 14"
definition BPB_NumFATs :: nat where "BPB_NumFATs = 16"
definition BPB_RootEntCnt :: nat where "BPB_RootEntCnt = 17"
definition BPB_TotSec16 :: nat where "BPB_TotSec16 = 19"
definition BPB_FATSz16 :: nat where "BPB_FATSz16 = 22"
definition BPB_TotSec32 :: nat where "BPB_TotSec32 = 32"
definition BS_FilSysType :: u32 where "BS_FilSysType = 54"
definition BPB_FATSz32 :: nat where "BPB_FATSz32 = 36"
definition BPB_RootClus :: nat where "BPB_RootClus = 44"
definition BS_FilSysType32 :: u32 where "BS_FilSysType32 = 82"
definition MBR_Table :: u32 where "MBR_Table = 446"
definition DIR_Name :: nat where "DIR_Name = 0"
definition DIR_Attr :: nat where "DIR_Attr = 11"
definition DIR_FstClusHI :: nat where "DIR_FstClusHI = 20"
definition DIR_WrtTime :: nat where "DIR_WrtTime = 22"
definition DIR_WrtDate :: nat where "DIR_WrtDate = 24"
definition DIR_FstClusLO :: nat where "DIR_FstClusLO = 26"
definition DIR_FileSize :: nat where "DIR_FileSize = 28"

subsection \<open>Helpers\<close>

definition ld_word :: "u8 list \<Rightarrow> nat \<Rightarrow> u16" where
  "ld_word b i = (let rv = ucast (b ! (i + 1)) in push_bit 8 rv OR ucast (b ! i))"

definition ld_dword :: "u8 list \<Rightarrow> nat \<Rightarrow> u32" where
  "ld_dword b i =
     (let rv = ucast (b ! (i + 3));
          rv = push_bit 8 rv OR ucast (b ! (i + 2));
          rv = push_bit 8 rv OR ucast (b ! (i + 1))
      in push_bit 8 rv OR ucast (b ! i))"

definition mem_set :: "u8 list \<Rightarrow> u8 \<Rightarrow> nat \<Rightarrow> u8 list" where
  "mem_set dst val cnt = replicate cnt val @ drop cnt dst"

text \<open>The bytes are compared as signed characters; the result is their difference.\<close>

fun mem_cmp :: "u8 list \<Rightarrow> u8 list \<Rightarrow> nat \<Rightarrow> int" where
  "mem_cmp (d # ds) (s # ss) (Suc cnt) = (if sint d - sint s = 0 then mem_cmp ds ss cnt else sint d - sint s)"
| "mem_cmp ds ss cnt = 0"

subsection \<open>The allocation table\<close>

definition get_fat :: "disk \<Rightarrow> FATFS \<Rightarrow> u32 \<Rightarrow> u32" where
  "get_fat rd fs clst =
     (if clst < 2 \<or> clst \<ge> n_fatent fs then 1
      else if fs_type fs = FS_FAT12 then
        (let bc = clst;
             bc = bc + bc div 2;
             ofs = bc mod 512;
             bc = bc div 512
         in case (if ofs \<noteq> 511 then rd (fatbase fs + bc) ofs 2
                  else case rd (fatbase fs + bc) 511 1 of
                         None \<Rightarrow> None
                       | Some b0 \<Rightarrow> map_option (\<lambda>b1. b0 @ b1) (rd (fatbase fs + bc + 1) 0 1)) of
              None \<Rightarrow> 1
            | Some buf \<Rightarrow>
                let wc = ucast (ld_word buf 0) :: u32
                in if clst AND 1 \<noteq> 0 then drop_bit 4 wc else wc AND 0xFFF)
      else if fs_type fs = FS_FAT16 then
        (case rd (fatbase fs + clst div 256) ((clst mod 256) * 2) 2 of
           None \<Rightarrow> 1
         | Some buf \<Rightarrow> ucast (ld_word buf 0))
      else if fs_type fs = FS_FAT32 then
        (case rd (fatbase fs + clst div 128) ((clst mod 128) * 4) 4 of
           None \<Rightarrow> 1
         | Some buf \<Rightarrow> ld_dword buf 0 AND 0x0FFFFFFF)
      else 1)"

definition clust2sect :: "FATFS \<Rightarrow> u32 \<Rightarrow> u32" where
  "clust2sect fs clst =
     (let clst = clst - 2 in
      if clst \<ge> n_fatent fs - 2 then 0 else clst * ucast (csize fs) + database fs)"

definition get_clust :: "FATFS \<Rightarrow> u8 list \<Rightarrow> u32" where
  "get_clust fs dir =
     (let clst = (if fs_type fs = FS_FAT32 then push_bit 16 (ucast (ld_word dir DIR_FstClusHI)) else 0)
      in clst OR ucast (ld_word dir DIR_FstClusLO))"

subsection \<open>Directories\<close>

definition dir_rewind :: "FATFS \<Rightarrow> DIR \<Rightarrow> FRESULT \<times> DIR" where
  "dir_rewind fs dj =
     (let dj = dj\<lparr>index := 0\<rparr>;
          clst = sclust dj
      in if clst = 1 \<or> clst \<ge> n_fatent fs then (FR_DISK_ERR, dj)
         else
           let clst = (if clst = 0 \<and> fs_type fs = FS_FAT32 then dirbase fs else clst);
               dj = dj\<lparr>clust := clst\<rparr>
           in (FR_OK, dj\<lparr>sect := (if clst \<noteq> 0 then clust2sect fs clst else dirbase fs)\<rparr>))"

definition dir_next :: "disk \<Rightarrow> FATFS \<Rightarrow> DIR \<Rightarrow> FRESULT \<times> DIR" where
  "dir_next rd fs dj =
     (let i = index dj + 1 in
      if i = 0 \<or> sect dj = 0 then (FR_NO_FILE, dj)
      else if i mod 16 = 0 then
        (let dj = dj\<lparr>sect := sect dj + 1\<rparr> in
         if clust dj = 0 then
           (if i \<ge> n_rootdir fs then (FR_NO_FILE, dj) else (FR_OK, dj\<lparr>index := i\<rparr>))
         else if ucast (i div 16) AND (ucast (csize fs) - 1 :: u32) = 0 then
           (let clst = get_fat rd fs (clust dj) in
            if clst \<le> 1 then (FR_DISK_ERR, dj)
            else if clst \<ge> n_fatent fs then (FR_NO_FILE, dj)
            else (FR_OK, dj\<lparr>clust := clst, sect := clust2sect fs clst, index := i\<rparr>))
         else (FR_OK, dj\<lparr>index := i\<rparr>))
      else (FR_OK, dj\<lparr>index := i\<rparr>))"

lemma dir_next_index: "dir_next rd fs dj = (FR_OK, dj') \<Longrightarrow> unat (index dj') = Suc (unat (index dj))"
proof -
  assume "dir_next rd fs dj = (FR_OK, dj')"
  then have "index dj' = index dj + 1" "index dj + 1 \<noteq> 0"
    by (auto simp: dir_next_def Let_def split: if_splits)
  then show ?thesis using unatSuc [of "index dj"] by (simp add: add.commute)
qed

lemma dir_next_measure: "dir_next rd fs dj = (FR_OK, dj') \<Longrightarrow> 65536 - unat (index dj') < 65536 - unat (index dj)"
  using dir_next_index [of rd fs dj dj'] unsigned_less [of "index dj'", where ?'a = nat] by simp

text \<open>The loop of \<^verbatim>\<open>dir_find\<close>: it returns the result, the directory object and the working buffer.\<close>

function dir_find_loop :: "disk \<Rightarrow> FATFS \<Rightarrow> DIR \<Rightarrow> u8 list \<Rightarrow> FRESULT \<times> DIR \<times> u8 list" where
  "dir_find_loop rd fs dj dir =
     (case rd (sect dj) (ucast (index dj mod 16) * 32) 32 of
        None \<Rightarrow> (FR_DISK_ERR, dj, dir)
      | Some dir \<Rightarrow>
          let c = dir ! DIR_Name in
          if c = 0 then (FR_NO_FILE, dj, dir)
          else if dir ! DIR_Attr AND AM_VOL = 0 \<and> mem_cmp dir (fn dj) 11 = 0 then (FR_OK, dj, dir)
          else case dir_next rd fs dj of
                 (res, dj') \<Rightarrow> if res = FR_OK then dir_find_loop rd fs dj' dir else (res, dj', dir))"
  by pat_completeness auto

termination
  by (relation "measure (\<lambda>(rd, fs, dj, dir). 65536 - unat (index dj))") (auto intro: dir_next_measure)

declare dir_find_loop.simps [simp del]

definition dir_find :: "disk \<Rightarrow> FATFS \<Rightarrow> DIR \<Rightarrow> u8 list \<Rightarrow> FRESULT \<times> DIR \<times> u8 list" where
  "dir_find rd fs dj dir =
     (case dir_rewind fs dj of
        (res, dj) \<Rightarrow> if res \<noteq> FR_OK then (res, dj, dir) else dir_find_loop rd fs dj dir)"

function dir_read_loop :: "disk \<Rightarrow> FATFS \<Rightarrow> FRESULT \<Rightarrow> DIR \<Rightarrow> u8 list \<Rightarrow> FRESULT \<times> DIR \<times> u8 list" where
  "dir_read_loop rd fs res dj dir =
     (if sect dj = 0 then (res, dj, dir)
      else case rd (sect dj) (ucast (index dj mod 16) * 32) 32 of
        None \<Rightarrow> (FR_DISK_ERR, dj, dir)
      | Some dir \<Rightarrow>
          let c = dir ! DIR_Name in
          if c = 0 then (FR_NO_FILE, dj, dir)
          else
            let a = dir ! DIR_Attr AND AM_MASK in
            if c \<noteq> 0xE5 \<and> c \<noteq> 0x2E \<and> a AND AM_VOL = 0 then (FR_OK, dj, dir)
            else case dir_next rd fs dj of
                   (res, dj') \<Rightarrow> if res \<noteq> FR_OK then (res, dj', dir) else dir_read_loop rd fs res dj' dir)"
  by pat_completeness auto

termination
  by (relation "measure (\<lambda>(rd, fs, res, dj, dir). 65536 - unat (index dj))") (auto intro: dir_next_measure)

declare dir_read_loop.simps [simp del]

definition dir_read :: "disk \<Rightarrow> FATFS \<Rightarrow> DIR \<Rightarrow> u8 list \<Rightarrow> FRESULT \<times> DIR \<times> u8 list" where
  "dir_read rd fs dj dir =
     (case dir_read_loop rd fs FR_NO_FILE dj dir of
        (res, dj, dir) \<Rightarrow> (res, if res \<noteq> FR_OK then dj\<lparr>sect := 0\<rparr> else dj, dir))"

subsection \<open>Names\<close>

text \<open>The loop over a segment: the character it stopped at, the rest of the path and the name.\<close>

fun create_name_loop :: "u8 list \<Rightarrow> nat \<Rightarrow> nat \<Rightarrow> u8 list \<Rightarrow> (u8 \<times> u8 list \<times> u8 list) option" where
  "create_name_loop [] i ni sfn = None"
| "create_name_loop (c # p) i ni sfn =
     (if c \<le> 0x20 \<or> c = 0x2F then Some (c, p, sfn)
      else if c = 0x2E \<or> i \<ge> ni then
        (if ni \<noteq> 8 \<or> c \<noteq> 0x2E then Some (c, p, sfn) else create_name_loop p 8 11 sfn)
      else create_name_loop p (i + 1) ni (sfn[i := c]))"

definition create_name :: "DIR \<Rightarrow> u8 list \<Rightarrow> (DIR \<times> u8 list) option" where
  "create_name dj path =
     (let sfn = mem_set (fn dj) 0x20 11 in
      case create_name_loop path 0 8 sfn of
        None \<Rightarrow> None
      | Some (c, p, sfn) \<Rightarrow> Some (dj\<lparr>fn := sfn[11 := (if c \<le> 0x20 then 1 else 0)]\<rparr>, p))"

lemma create_name_shorter: "create_name_loop p i ni sfn = Some (c, p', sfn') \<Longrightarrow> length p' < length p"
  by (induction p i ni sfn rule: create_name_loop.induct) (auto split: if_splits)

fun name_chars :: "u8 list \<Rightarrow> u8 list" where
  "name_chars [] = []"
| "name_chars (c # cs) = (if c = 0x20 then [] else c # name_chars cs)"

definition get_fileinfo :: "DIR \<Rightarrow> u8 list \<Rightarrow> FILINFO \<Rightarrow> FILINFO" where
  "get_fileinfo dj dir fno =
     (if sect dj \<noteq> 0 then
        let p = map (\<lambda>c. if c = 0x05 then 0xE5 else c) (name_chars (take 8 dir));
            p = (if dir ! 8 \<noteq> 0x20 then p @ 0x2E # name_chars (take 3 (drop 8 dir)) else p)
        in fno\<lparr>fi_fattrib := dir ! DIR_Attr, fi_fsize := ld_dword dir DIR_FileSize,
               fi_fdate := ld_word dir DIR_WrtDate, fi_ftime := ld_word dir DIR_WrtTime, fi_fname := p @ [0]\<rparr>
      else fno\<lparr>fi_fname := [0]\<rparr>)"

subsection \<open>Paths\<close>

text \<open>The loop of \<^verbatim>\<open>follow_path\<close> over the segments of a path.\<close>

function follow_segments :: "disk \<Rightarrow> FATFS \<Rightarrow> DIR \<Rightarrow> u8 list \<Rightarrow> u8 list \<Rightarrow> (FRESULT \<times> DIR \<times> u8 list) option" where
  "follow_segments rd fs dj dir path =
     (case create_name dj path of
        None \<Rightarrow> None
      | Some (dj, path) \<Rightarrow>
          (case dir_find rd fs dj dir of
             (res, dj, dir) \<Rightarrow>
               if res \<noteq> FR_OK then Some (res, dj, dir)
               else if fn dj ! 11 \<noteq> 0 then Some (res, dj, dir)
               else if dir ! DIR_Attr AND AM_DIR = 0 then Some (FR_NO_FILE, dj, dir)
               else follow_segments rd fs (dj\<lparr>sclust := get_clust fs dir\<rparr>) dir path))"
  by pat_completeness auto

termination
  by (relation "measure (\<lambda>(rd, fs, dj, dir, path). length path)")
    (auto simp: create_name_def Let_def dest: create_name_shorter split: option.splits prod.splits)

declare follow_segments.simps [simp del]

definition strip_path :: "u8 list \<Rightarrow> u8 list" where
  "strip_path path =
     (let path = dropWhile (\<lambda>c. c = 0x20) path in
      case path of c # p \<Rightarrow> if c = 0x2F then p else path | [] \<Rightarrow> [])"

definition follow_path :: "disk \<Rightarrow> FATFS \<Rightarrow> DIR \<Rightarrow> u8 list \<Rightarrow> u8 list \<Rightarrow> (FRESULT \<times> DIR \<times> u8 list) option" where
  "follow_path rd fs dj dir path =
     (let path = strip_path path;
          dj = dj\<lparr>sclust := 0\<rparr>
      in case path of
           [] \<Rightarrow> None
         | c # p \<Rightarrow>
             if c < 0x20 then (case dir_rewind fs dj of (res, dj) \<Rightarrow> Some (res, dj, dir[0 := 0]))
             else follow_segments rd fs dj dir path)"

subsection \<open>Mounting\<close>

definition check_fs :: "disk \<Rightarrow> u32 \<Rightarrow> u8" where
  "check_fs rd lba =
     (case rd lba 510 2 of
        None \<Rightarrow> 3
      | Some buf \<Rightarrow>
          if ld_word buf 0 \<noteq> 0xAA55 then 2
          else if (case rd lba BS_FilSysType 2 of None \<Rightarrow> False | Some buf \<Rightarrow> ld_word buf 0 = 0x4146) then 0
          else if (case rd lba BS_FilSysType32 2 of None \<Rightarrow> False | Some buf \<Rightarrow> ld_word buf 0 = 0x4146) then 0
          else 1)"

text \<open>The search for the boot record: the format found and its sector.\<close>

definition find_volume :: "disk \<Rightarrow> u8 \<times> u32" where
  "find_volume rd =
     (let fmt = check_fs rd 0 in
      if fmt = 1 then
        (case rd 0 MBR_Table 16 of
           None \<Rightarrow> (3, 0)
         | Some buf \<Rightarrow>
             if buf ! 4 \<noteq> 0 then (let bsect = ld_dword buf 8 in (check_fs rd bsect, bsect)) else (fmt, 0))
      else (fmt, 0))"

definition fat_sub_type :: "u32 \<Rightarrow> u8" where
  "fat_sub_type mclst =
     (let fmt = 0;
          fmt = (if mclst < 0xFF7 then FS_FAT12 else fmt);
          fmt = (if mclst \<ge> 0xFF8 \<and> mclst < 0xFFF7 then FS_FAT16 else fmt)
      in if mclst \<ge> 0xFFF7 then FS_FAT32 else fmt)"

text \<open>
  \<open>noinit\<close> is whether \<^verbatim>\<open>disk_initialize\<close> reports \<^verbatim>\<open>STA_NOINIT\<close>; the object is mounted in place. \<open>None\<close>
  is the division by a zero cluster size, which the processor faults on.
\<close>

definition pf_mount :: "bool \<Rightarrow> disk \<Rightarrow> FATFS \<Rightarrow> (FRESULT \<times> pff) option" where
  "pf_mount noinit rd fs =
     (let off = (\<lambda>fs. \<lparr>FatFs = False, fs_object = fs\<rparr>) in
      if noinit then Some (FR_NOT_READY, off fs)
      else case find_volume rd of
        (fmt, bsect) \<Rightarrow>
          if fmt = 3 then Some (FR_DISK_ERR, off fs)
          else if fmt \<noteq> 0 then Some (FR_NO_FILESYSTEM, off fs)
          else case rd bsect 13 36 of
            None \<Rightarrow> Some (FR_DISK_ERR, off fs)
          | Some buf \<Rightarrow>
              let fsz = ucast (ld_word buf (BPB_FATSz16 - 13));
                  fsz = (if fsz = 0 then ld_dword buf (BPB_FATSz32 - 13) else fsz);
                  fsz = fsz * ucast (buf ! (BPB_NumFATs - 13));
                  fs = fs\<lparr>fatbase := bsect + ucast (ld_word buf (BPB_RsvdSecCnt - 13)),
                          csize := buf ! (BPB_SecPerClus - 13),
                          n_rootdir := ld_word buf (BPB_RootEntCnt - 13)\<rparr>;
                  tsect = ucast (ld_word buf (BPB_TotSec16 - 13));
                  tsect = (if tsect = 0 then ld_dword buf (BPB_TotSec32 - 13) else tsect)
              in if csize fs = 0 then None
                 else
                   let mclst = (tsect - ucast (ld_word buf (BPB_RsvdSecCnt - 13)) - fsz - ucast (n_rootdir fs div 16))
                                 div ucast (csize fs) + 2;
                       fs = fs\<lparr>n_fatent := mclst\<rparr>;
                       fmt = fat_sub_type mclst
                   in if fmt = 0 then Some (FR_NO_FILESYSTEM, off fs)
                      else
                        let fs = fs\<lparr>fs_type := fmt,
                                    dirbase := (if fmt = FS_FAT32 then ld_dword buf (BPB_RootClus - 13) else fatbase fs + fsz),
                                    database := fatbase fs + fsz + ucast (n_rootdir fs div 16),
                                    flag := 0\<rparr>
                        in Some (FR_OK, \<lparr>FatFs = True, fs_object = fs\<rparr>))"

subsection \<open>Files\<close>

text \<open>The arguments \<open>dj\<close> and \<open>dir\<close> are the uninitialised locals of \<^verbatim>\<open>pf_open\<close> (\<open>fn dj\<close> is its \<^verbatim>\<open>sp\<close>).\<close>

definition pf_open :: "disk \<Rightarrow> pff \<Rightarrow> DIR \<Rightarrow> u8 list \<Rightarrow> u8 list \<Rightarrow> (FRESULT \<times> pff) option" where
  "pf_open rd p dj dir path =
     (if \<not> FatFs p then Some (FR_NOT_ENABLED, p)
      else
        let fs = (fs_object p)\<lparr>flag := 0\<rparr> in
        case follow_path rd fs dj dir path of
          None \<Rightarrow> None
        | Some (res, dj, dir) \<Rightarrow>
            if res \<noteq> FR_OK then Some (res, p\<lparr>fs_object := fs\<rparr>)
            else if dir ! 0 = 0 \<or> dir ! DIR_Attr AND AM_DIR \<noteq> 0 then Some (FR_NO_FILE, p\<lparr>fs_object := fs\<rparr>)
            else Some (FR_OK, p\<lparr>fs_object := fs\<lparr>org_clust := get_clust fs dir,
                                               fsize := ld_dword dir DIR_FileSize,
                                               fptr := 0, flag := FA_OPENED\<rparr>\<rparr>))"

text \<open>\<^verbatim>\<open>ABORT\<close>: the file is closed and the error returned.\<close>

definition ABORT :: "FATFS \<Rightarrow> FATFS" where
  "ABORT fs = fs\<lparr>flag := 0\<rparr>"

text \<open>The cluster and sector \<^verbatim>\<open>pf_read\<close> takes at a sector boundary; \<open>Inl\<close> is an abort.\<close>

definition read_sector :: "disk \<Rightarrow> FATFS \<Rightarrow> FATFS + FATFS" where
  "read_sector rd fs =
     (if fptr fs mod 512 = 0 then
        let cs = ucast (fptr fs div 512 AND (ucast (csize fs) - 1)) :: u8;
            clst = (if fptr fs = 0 then org_clust fs else get_fat rd fs (curr_clust fs))
        in if cs = 0 \<and> clst \<le> 1 then Inl (ABORT fs)
           else
             let fs = (if cs = 0 then fs\<lparr>curr_clust := clst\<rparr> else fs);
                 sect = clust2sect fs (curr_clust fs)
             in if sect = 0 then Inl (ABORT fs) else Inr (fs\<lparr>dsect := sect + ucast cs\<rparr>)
      else Inr fs)"

lemma u32_shrinks: "unat (b - r) < unat b" if "b \<noteq> 0" "r \<noteq> 0" "r \<le> b" for b r :: u32
  using that by (simp add: unat_sub unat_gt_0 word_le_nat_alt)

lemma unat_sector_rest: "unat (p mod 512) < 512" for p :: u32
  by (simp add: unat_mod)

lemma sector_rest: "p mod 512 \<noteq> 512" for p :: u32
  using unat_sector_rest [of p] by auto

text \<open>The transfer loop: the result, the bytes stored so far (their number is \<^verbatim>\<open>*br\<close>) and the file system.\<close>

function pf_read_loop :: "disk \<Rightarrow> FATFS \<Rightarrow> u32 \<Rightarrow> u8 list \<Rightarrow> FRESULT \<times> u8 list \<times> FATFS" where
  "pf_read_loop rd fs btr acc =
     (if btr = 0 then (FR_OK, acc, fs)
      else case read_sector rd fs of
        Inl fs \<Rightarrow> (FR_DISK_ERR, acc, fs)
      | Inr fs \<Rightarrow>
          let rcnt = 512 - fptr fs mod 512;
              rcnt = (if rcnt > btr then btr else rcnt)
          in case rd (dsect fs) (fptr fs mod 512) rcnt of
               None \<Rightarrow> (FR_DISK_ERR, acc, ABORT fs)
             | Some b \<Rightarrow> pf_read_loop rd (fs\<lparr>fptr := fptr fs + rcnt\<rparr>) (btr - rcnt) (acc @ b))"
  by pat_completeness auto

termination
  by (relation "measure (\<lambda>(rd, fs, btr, acc). unat btr)")
    (auto intro!: u32_shrinks simp: sector_rest not_less unat_gt_0)

declare pf_read_loop.simps [simp del]

definition pf_read :: "disk \<Rightarrow> pff \<Rightarrow> u32 \<Rightarrow> FRESULT \<times> u8 list \<times> pff" where
  "pf_read rd p btr =
     (let fs = fs_object p in
      if \<not> FatFs p then (FR_NOT_ENABLED, [], p)
      else if flag fs AND FA_OPENED = 0 then (FR_NOT_OPENED, [], p)
      else
        let remain = fsize fs - fptr fs;
            btr = (if btr > remain then remain else btr)
        in case pf_read_loop rd fs btr [] of (res, bs, fs) \<Rightarrow> (res, bs, p\<lparr>fs_object := fs\<rparr>))"

text \<open>The cluster-following loop of \<^verbatim>\<open>pf_lseek\<close>: the last cluster and the remaining offset, or an abort; \<open>None\<close> if it never ends.\<close>

partial_function (option) lseek_loop :: "disk \<Rightarrow> u32 \<Rightarrow> FATFS \<Rightarrow> u32 \<Rightarrow> u32 \<Rightarrow> (FATFS + FATFS \<times> u32 \<times> u32) option" where
  "lseek_loop rd bcs fs clst ofs =
     (if ofs > bcs then
        let clst = get_fat rd fs clst in
        if clst \<le> 1 \<or> clst \<ge> n_fatent fs then Some (Inl (ABORT fs))
        else lseek_loop rd bcs (fs\<lparr>curr_clust := clst, fptr := fptr fs + bcs\<rparr>) clst (ofs - bcs)
      else Some (Inr (fs, clst, ofs)))"

text \<open>Where the search starts: at the current cluster for a seek to it or behind it, otherwise at the first.\<close>

definition seek_start :: "FATFS \<Rightarrow> u32 \<Rightarrow> u32 \<Rightarrow> u32 \<Rightarrow> FATFS \<times> u32 \<times> u32" where
  "seek_start fs ifptr ofs bcs =
     (if ifptr > 0 \<and> (ofs - 1) div bcs \<ge> (ifptr - 1) div bcs then
        let fs = fs\<lparr>fptr := (ifptr - 1) AND NOT (bcs - 1)\<rparr>
        in (fs, ofs - fptr fs, curr_clust fs)
      else
        let clst = org_clust fs in (fs\<lparr>curr_clust := clst\<rparr>, ofs, clst))"

definition pf_lseek :: "disk \<Rightarrow> pff \<Rightarrow> u32 \<Rightarrow> (FRESULT \<times> pff) option" where
  "pf_lseek rd p ofs =
     (let fs = fs_object p in
      if \<not> FatFs p then Some (FR_NOT_ENABLED, p)
      else if flag fs AND FA_OPENED = 0 then Some (FR_NOT_OPENED, p)
      else
        let ofs = (if ofs > fsize fs then fsize fs else ofs);
            ifptr = fptr fs;
            fs = fs\<lparr>fptr := 0\<rparr>
        in if ofs > 0 then
             let bcs = ucast (csize fs) * 512 in
             if ifptr > 0 \<and> bcs = 0 then None
             else
               case seek_start fs ifptr ofs bcs of
                 (fs, ofs, clst) \<Rightarrow>
                   (case lseek_loop rd bcs fs clst ofs of
                      None \<Rightarrow> None
                    | Some (Inl fs) \<Rightarrow> Some (FR_DISK_ERR, p\<lparr>fs_object := fs\<rparr>)
                    | Some (Inr (fs, clst, ofs)) \<Rightarrow>
                        let fs = fs\<lparr>fptr := fptr fs + ofs\<rparr>;
                            sect = clust2sect fs clst
                        in if sect = 0 then Some (FR_DISK_ERR, p\<lparr>fs_object := ABORT fs\<rparr>)
                           else Some (FR_OK, p\<lparr>fs_object :=
                             fs\<lparr>dsect := sect + (fptr fs div 512 AND (ucast (csize fs) - 1))\<rparr>\<rparr>))
           else Some (FR_OK, p\<lparr>fs_object := fs\<rparr>))"

subsection \<open>Listing a directory\<close>

definition pf_opendir :: "disk \<Rightarrow> pff \<Rightarrow> DIR \<Rightarrow> u8 list \<Rightarrow> u8 list \<Rightarrow> u8 list \<Rightarrow> (FRESULT \<times> DIR) option" where
  "pf_opendir rd p dj sp dir path =
     (if \<not> FatFs p then Some (FR_NOT_ENABLED, dj)
      else
        let fs = fs_object p; dj = dj\<lparr>fn := sp\<rparr> in
        case follow_path rd fs dj dir path of
          None \<Rightarrow> None
        | Some (res, dj, dir) \<Rightarrow>
            if res = FR_OK then
              (if dir ! 0 \<noteq> 0 then
                 (if dir ! DIR_Attr AND AM_DIR \<noteq> 0 then Some (dir_rewind fs (dj\<lparr>sclust := get_clust fs dir\<rparr>))
                  else Some (FR_NO_FILE, dj))
               else Some (dir_rewind fs dj))
            else Some (res, dj))"

definition pf_readdir :: "disk \<Rightarrow> pff \<Rightarrow> DIR \<Rightarrow> u8 list \<Rightarrow> u8 list \<Rightarrow> FILINFO option \<Rightarrow> FRESULT \<times> DIR \<times> FILINFO option" where
  "pf_readdir rd p dj sp dir fno =
     (if \<not> FatFs p then (FR_NOT_ENABLED, dj, fno)
      else
        let fs = fs_object p; dj = dj\<lparr>fn := sp\<rparr> in
        case fno of
          None \<Rightarrow> (case dir_rewind fs dj of (res, dj) \<Rightarrow> (res, dj, None))
        | Some fi \<Rightarrow>
            (case dir_read rd fs dj dir of
               (res, dj, dir) \<Rightarrow>
                 let res = (if res = FR_NO_FILE then FR_OK else res) in
                 if res = FR_OK then
                   (case dir_next rd fs dj of
                      (res, dj') \<Rightarrow> (if res = FR_NO_FILE then FR_OK else res, dj', Some (get_fileinfo dj dir fi)))
                 else (res, dj, fno)))"

end
