(* ===== verification/PffFile.thy ===== *)
theory PffFile
  imports Pff
begin

text \<open>
  Reading and seeking in an open file. The image \<open>img\<close> gives the bytes of every sector; the file
  is the concatenation of the clusters of its chain, cut at its size. \<open>file_inv\<close> is what
  \<^verbatim>\<open>pf_open\<close> establishes and the calls keep: the current cluster and sector are those of the file
  pointer.
\<close>

definition serves :: "disk \<Rightarrow> (u32 \<Rightarrow> u8 list) \<Rightarrow> bool" where
  "serves rd img \<longleftrightarrow>
     (\<forall>s. length (img s) = 512) \<and>
     (\<forall>s off n. unat off + unat n \<le> 512 \<longrightarrow> rd s off n = Some (take (unat n) (drop (unat off) (img s))))"

fun cluster_at :: "disk \<Rightarrow> FATFS \<Rightarrow> nat \<Rightarrow> u32" where
  "cluster_at rd fs 0 = org_clust fs"
| "cluster_at rd fs (Suc n) = get_fat rd fs (cluster_at rd fs n)"

definition file_clust :: "disk \<Rightarrow> FATFS \<Rightarrow> nat \<Rightarrow> u32" where
  "file_clust rd fs n = cluster_at rd fs (n div 512 div unat (csize fs))"

definition file_sect :: "disk \<Rightarrow> FATFS \<Rightarrow> nat \<Rightarrow> u32" where
  "file_sect rd fs n = clust2sect fs (file_clust rd fs n) + of_nat (n div 512 mod unat (csize fs))"

definition file_content :: "disk \<Rightarrow> (u32 \<Rightarrow> u8 list) \<Rightarrow> FATFS \<Rightarrow> u8 list" where
  "file_content rd img fs = map (\<lambda>n. img (file_sect rd fs n) ! (n mod 512)) [0..<unat (fsize fs)]"

definition csize_ok :: "FATFS \<Rightarrow> bool" where
  "csize_ok fs \<longleftrightarrow> csize fs \<in> set [1, 2, 4, 8, 16, 32, 64, 128]"

definition file_ok :: "disk \<Rightarrow> FATFS \<Rightarrow> bool" where
  "file_ok rd fs \<longleftrightarrow> csize_ok fs \<and>
     (\<forall>n < unat (fsize fs). 1 < file_clust rd fs n \<and> file_clust rd fs n < n_fatent fs \<and> clust2sect fs (file_clust rd fs n) \<noteq> 0)"

definition file_inv :: "disk \<Rightarrow> FATFS \<Rightarrow> bool" where
  "file_inv rd fs \<longleftrightarrow> file_ok rd fs \<and> flag fs AND FA_OPENED \<noteq> 0 \<and> fptr fs \<le> fsize fs \<and>
     (fptr fs \<noteq> 0 \<longrightarrow> curr_clust fs = file_clust rd fs (unat (fptr fs) - 1)) \<and>
     (fptr fs mod 512 \<noteq> 0 \<longrightarrow> dsect fs = file_sect rd fs (unat (fptr fs)))"

subsection \<open>What the operations do not look at\<close>

lemma get_fat_pos [simp]: "get_fat rd (fs\<lparr>fptr := a\<rparr>) = get_fat rd fs"
  "get_fat rd (fs\<lparr>curr_clust := a\<rparr>) = get_fat rd fs" "get_fat rd (fs\<lparr>dsect := a\<rparr>) = get_fat rd fs"
  by (simp_all add: get_fat_def Let_def fun_eq_iff cong: if_cong option.case_cong)

lemma clust2sect_pos [simp]: "clust2sect (fs\<lparr>fptr := a\<rparr>) = clust2sect fs"
  "clust2sect (fs\<lparr>curr_clust := a\<rparr>) = clust2sect fs" "clust2sect (fs\<lparr>dsect := a\<rparr>) = clust2sect fs"
  by (simp_all add: clust2sect_def Let_def fun_eq_iff)

lemma cluster_at_pos [simp]: "cluster_at rd (fs\<lparr>fptr := a\<rparr>) n = cluster_at rd fs n"
  "cluster_at rd (fs\<lparr>curr_clust := a\<rparr>) n = cluster_at rd fs n" "cluster_at rd (fs\<lparr>dsect := a\<rparr>) n = cluster_at rd fs n"
  by (induction n) simp_all

lemma file_pos [simp]: "file_clust rd (fs\<lparr>fptr := a\<rparr>) = file_clust rd fs"
  "file_clust rd (fs\<lparr>curr_clust := a\<rparr>) = file_clust rd fs" "file_clust rd (fs\<lparr>dsect := a\<rparr>) = file_clust rd fs"
  "file_sect rd (fs\<lparr>fptr := a\<rparr>) = file_sect rd fs"
  "file_sect rd (fs\<lparr>curr_clust := a\<rparr>) = file_sect rd fs" "file_sect rd (fs\<lparr>dsect := a\<rparr>) = file_sect rd fs"
  "file_content rd img (fs\<lparr>fptr := a\<rparr>) = file_content rd img fs"
  "file_content rd img (fs\<lparr>curr_clust := a\<rparr>) = file_content rd img fs"
  "file_content rd img (fs\<lparr>dsect := a\<rparr>) = file_content rd img fs"
  "csize_ok (fs\<lparr>fptr := a\<rparr>) = csize_ok fs" "csize_ok (fs\<lparr>curr_clust := a\<rparr>) = csize_ok fs" "csize_ok (fs\<lparr>dsect := a\<rparr>) = csize_ok fs"
  by (simp_all add: file_clust_def file_sect_def file_content_def csize_ok_def fun_eq_iff)

lemma file_ok_pos [simp]: "file_ok rd (fs\<lparr>fptr := a\<rparr>) = file_ok rd fs"
  "file_ok rd (fs\<lparr>curr_clust := a\<rparr>) = file_ok rd fs" "file_ok rd (fs\<lparr>dsect := a\<rparr>) = file_ok rd fs"
  by (simp_all add: file_ok_def)

subsection \<open>Sectors and clusters\<close>

lemma csize_cases:
  assumes "csize_ok fs"
  obtains k where "k < 8" "csize fs = 2 ^ k" "unat (csize fs) = 2 ^ k" "(ucast (csize fs) :: u32) = 2 ^ k"
proof -
  from assms have "csize fs = 2 ^ 0 \<or> csize fs = 2 ^ 1 \<or> csize fs = 2 ^ 2 \<or> csize fs = 2 ^ 3 \<or>
      csize fs = 2 ^ 4 \<or> csize fs = 2 ^ 5 \<or> csize fs = 2 ^ 6 \<or> csize fs = 2 ^ 7"
    by (simp add: csize_ok_def)
  then show ?thesis
    using that [of 0] that [of 1] that [of 2] that [of 3] that [of 4] that [of 5] that [of 6] that [of 7]
    by (elim disjE) simp_all
qed

lemma unat_and_csize:
  assumes "csize_ok fs"
  shows "unat (x AND (ucast (csize fs) - 1) :: u32) = unat x mod unat (csize fs)"
proof -
  obtain k where k: "unat (csize fs) = 2 ^ k" "(ucast (csize fs) :: u32) = 2 ^ k" using assms by (rule csize_cases)
  have "x AND (2 ^ k - 1) = take_bit k x" by (simp add: take_bit_eq_mask mask_eq_exp_minus_1)
  then show ?thesis unfolding k(2) k(1) by (simp add: unsigned_take_bit_eq) (simp add: take_bit_eq_mod)
qed

lemma unat_csize: "csize_ok fs \<Longrightarrow> 0 < unat (csize fs) \<and> unat (csize fs) \<le> 128"
  by (auto simp: csize_ok_def)

lemma same_sector:
  fixes a b :: nat
  assumes "a \<le> b" "b < a + (512 - a mod 512)"
  shows "b div 512 = a div 512"
proof (rule div_nat_eqI)
  have "512 * (a div 512) + a mod 512 = a" by simp
  then show "512 * (a div 512) \<le> b" "b < 512 * Suc (a div 512)"
    using assms mod_less_divisor [of 512 a] unfolding mult_Suc_right by linarith+
qed

lemma file_sector_cong:
  assumes "n div 512 = m div 512"
  shows "file_clust rd fs n = file_clust rd fs m" "file_sect rd fs n = file_sect rd fs m"
  using assms by (simp_all add: file_clust_def file_sect_def)

lemma cluster_step:
  fixes p c :: nat
  assumes "0 < p" "p mod 512 = 0" "p div 512 mod c = 0" "0 < c"
  shows "p div 512 div c = Suc ((p - 1) div 512 div c)"
proof -
  have "p div 512 = c * (p div 512 div c)" "p = 512 * (p div 512)" using assms(2,3) by auto
  then obtain q where q: "p = 512 * (c * q)" by metis
  with assms obtain q' where q': "q = Suc q'" by (cases q) auto
  have "(p - 1) div (512 * c) = q'"
    using assms(4) by (intro div_nat_eqI) (auto simp: q q' algebra_simps)
  then show ?thesis using assms(4) by (simp add: div_mult2_eq q q')
qed

lemma pred_div: "n mod c \<noteq> 0 \<Longrightarrow> (n - 1) div c = n div c" for n c :: nat
  by (cases n) (simp_all add: div_Suc)

lemma same_cluster:
  fixes p c :: nat
  assumes "0 < p" "p mod 512 = 0" "p div 512 mod c \<noteq> 0"
  shows "(p - 1) div 512 div c = p div 512 div c"
proof -
  have "(p - 1) div 512 = p div 512 - 1" using assms(1,2) by (cases p) (simp_all add: div_Suc)
  then show ?thesis using pred_div [OF assms(3)] by simp
qed

subsection \<open>Reading\<close>

lemma unat_div512: "unat (p div 512 :: u32) = unat p div 512" "unat (p mod 512 :: u32) = unat p mod 512"
  by (simp_all add: unat_div unat_mod)

lemma mod512_zero: "p mod 512 = 0 \<longleftrightarrow> unat p mod 512 = 0" for p :: u32
  by (simp add: unat_div512(2) [symmetric] unat_eq_zero)

lemma cluster_offset:
  assumes "csize_ok fs"
  defines "cs \<equiv> ucast (fptr fs div 512 AND (ucast (csize fs) - 1)) :: u8"
  shows "unat cs = unat (fptr fs) div 512 mod unat (csize fs)"
    "ucast cs = (of_nat (unat (fptr fs) div 512 mod unat (csize fs)) :: u32)"
proof -
  have b: "unat (fptr fs) div 512 mod unat (csize fs) < 256"
    using mod_less_divisor [of "unat (csize fs)"] unat_csize [OF assms(1)] by (metis order_less_le_trans order_less_imp_le le_less_trans unat_u8_less)
  show u: "unat cs = unat (fptr fs) div 512 mod unat (csize fs)"
    unfolding cs_def unsigned_ucast_eq unat_and_csize [OF assms(1)] unat_div512 using b by (simp add: take_bit_nat_eq_self)
  show "ucast cs = (of_nat (unat (fptr fs) div 512 mod unat (csize fs)) :: u32)"
    unfolding u [symmetric] by simp
qed

lemma read_sector_ok:
  assumes inv: "file_inv rd fs" and less: "unat (fptr fs) < unat (fsize fs)"
  shows "read_sector rd fs =
    Inr (fs\<lparr>curr_clust := file_clust rd fs (unat (fptr fs)), dsect := file_sect rd fs (unat (fptr fs))\<rparr>)"
proof (cases "fptr fs mod 512 = 0")
  case False
  have "(unat (fptr fs) - 1) div 512 = unat (fptr fs) div 512" "fptr fs \<noteq> 0"
    using False pred_div by (auto simp: mod512_zero)
  then have "curr_clust fs = file_clust rd fs (unat (fptr fs))" "dsect fs = file_sect rd fs (unat (fptr fs))"
    using inv False by (auto simp: file_inv_def intro: file_sector_cong)
  then show ?thesis using False by (simp add: read_sector_def)
next
  case True
  define c where "c = file_clust rd fs (unat (fptr fs))"
  define cs where "cs = (ucast (fptr fs div 512 AND (ucast (csize fs) - 1)) :: u8)"
  define clst where "clst = (if fptr fs = 0 then org_clust fs else get_fat rd fs (curr_clust fs))"
  have ok: "csize_ok fs" "1 < c" "clust2sect fs c \<noteq> 0" using inv less by (auto simp: file_inv_def file_ok_def c_def)
  note cs = cluster_offset [OF ok(1), folded cs_def]
  have z: "cs = 0 \<longleftrightarrow> unat (fptr fs) div 512 mod unat (csize fs) = 0" using cs(1) by (simp add: unat_eq_zero [symmetric])
  have n: "clst = c" if "cs = 0"
    using inv True that unat_csize [OF ok(1)] cluster_step [of "unat (fptr fs)" "unat (csize fs)"]
    by (auto simp: clst_def c_def file_inv_def file_clust_def mod512_zero z unat_gt_0)
  have s: "curr_clust fs = c" if "cs \<noteq> 0"
    using inv True that same_cluster [of "unat (fptr fs)" "unat (csize fs)"]
    by (cases "fptr fs = 0") (auto simp: c_def file_inv_def file_clust_def mod512_zero z unat_gt_0)
  have "file_sect rd fs (unat (fptr fs)) = clust2sect fs c + ucast cs"
    by (simp add: file_sect_def c_def cs(2))
  then show ?thesis
    using ok n s unfolding read_sector_def if_P [OF True] Let_def cs_def [symmetric] clst_def [symmetric] c_def [symmetric]
    by (cases "cs = 0") auto
qed

lemma file_inv_advance:
  assumes inv: "file_inv rd fs" and r: "0 < unat r" "unat r \<le> 512 - unat (fptr fs) mod 512"
    "unat (fptr fs) + unat r \<le> unat (fsize fs)"
  shows "file_inv rd (fs\<lparr>curr_clust := file_clust rd fs (unat (fptr fs)), dsect := file_sect rd fs (unat (fptr fs)),
    fptr := fptr fs + r\<rparr>)"
proof -
  define p where "p = unat (fptr fs)"
  have u: "unat (fptr fs + r) = p + unat r"
    using order_le_less_trans [OF r(3), of "2 ^ 32"] by (simp add: unat_word_ariths p_def)
  have "(p + unat r - 1) div 512 = p div 512" using r by (intro same_sector) (auto simp: p_def)
  moreover have "(p + unat r) div 512 = p div 512" if "(p + unat r) mod 512 \<noteq> 0"
  proof (rule same_sector)
    have "unat r \<noteq> 512 - p mod 512"
    proof
      assume "unat r = 512 - p mod 512"
      then have "p + unat r = 512 * (p div 512) + 512" using mod_less_divisor [of 512 p] mult_div_mod_eq [of 512 p] by linarith
      then show False using that by simp
    qed
    then show "p + unat r < p + (512 - p mod 512)" using r by (simp add: p_def)
  qed simp
  ultimately show ?thesis
    using inv r u unfolding file_inv_def
    by (auto simp: mod512_zero word_le_nat_alt p_def [symmetric] intro: file_sector_cong)
qed

lemma take_drop_file:
  assumes "unat p + n \<le> unat (fsize fs)" "unat p mod 512 + n \<le> 512" "length (img (file_sect rd fs (unat p))) = 512"
  shows "take n (drop (unat p) (file_content rd img fs)) = take n (drop (unat p mod 512) (img (file_sect rd fs (unat p))))"
proof (rule nth_equalityI)
  show "length (take n (drop (unat p) (file_content rd img fs))) =
    length (take n (drop (unat p mod 512) (img (file_sect rd fs (unat p)))))"
    using assms by (simp add: file_content_def)
next
  fix i
  assume "i < length (take n (drop (unat p) (file_content rd img fs)))"
  then have i: "i < n" using assms by simp
  have "(unat p + i) div 512 = unat p div 512" using assms i by (intro same_sector) auto
  moreover from this have "(unat p + i) mod 512 = unat p mod 512 + i"
    by (metis add.assoc add_left_cancel mult_div_mod_eq)
  ultimately show "take n (drop (unat p) (file_content rd img fs)) ! i =
    take n (drop (unat p mod 512) (img (file_sect rd fs (unat p)))) ! i"
    using assms i file_sector_cong [of "unat p + i" "unat p" rd fs] by (simp add: file_content_def)
qed

lemma pf_read_loop_ok:
  assumes "serves rd img"
  shows "file_inv rd fs \<Longrightarrow> unat (fptr fs) + unat btr \<le> unat (fsize fs) \<Longrightarrow>
    \<exists>c d. pf_read_loop rd fs btr acc =
        (FR_OK, acc @ take (unat btr) (drop (unat (fptr fs)) (file_content rd img fs)),
         fs\<lparr>fptr := fptr fs + btr, curr_clust := c, dsect := d\<rparr>) \<and>
      file_inv rd (fs\<lparr>fptr := fptr fs + btr, curr_clust := c, dsect := d\<rparr>)"
proof (induction "unat btr" arbitrary: fs btr acc rule: less_induct)
  case less
  show ?case
  proof (cases "btr = 0")
    case True
    then show ?thesis
      using less.prems by (intro exI [of _ "curr_clust fs"] exI [of _ "dsect fs"]) (simp add: pf_read_loop.simps)
  next
    case False
    define fs1 where "fs1 = fs\<lparr>curr_clust := file_clust rd fs (unat (fptr fs)), dsect := file_sect rd fs (unat (fptr fs))\<rparr>"
    define r where "r = (if 512 - fptr fs mod 512 > btr then btr else 512 - fptr fs mod 512)"
    have rest: "unat (512 - fptr fs mod 512) = 512 - unat (fptr fs) mod 512"
      using unat_sector_rest [of "fptr fs"] by (simp add: unat_sub unat_div512 word_le_nat_alt)
    have r: "0 < unat r" "unat r \<le> 512 - unat (fptr fs) mod 512" "unat r \<le> unat btr"
      using False unat_sector_rest [of "fptr fs"]
      by (auto simp: r_def word_less_nat_alt rest unat_gt_0 unat_div512 not_less sector_rest)
    have fits: "unat (fptr fs) + unat r \<le> unat (fsize fs)" using r less.prems by simp
    have "unat (fptr fs) < unat (fsize fs)" using r less.prems(2) by linarith
    note s = read_sector_ok [OF less.prems(1) this, folded fs1_def]
    have d: "rd (dsect fs1) (fptr fs mod 512) r = Some (take (unat r) (drop (unat (fptr fs)) (file_content rd img fs)))"
      using assms r fits take_drop_file [of "fptr fs" "unat r" fs img rd]
      by (simp add: serves_def unat_div512 fs1_def)
    have sub: "unat (btr - r) = unat btr - unat r" using r by (simp add: unat_sub word_le_nat_alt)
    have add: "unat (fptr fs + r) = unat (fptr fs) + unat r"
      using order_le_less_trans [OF fits, of "2 ^ 32"] by (simp add: unat_word_ariths)
    have "file_inv rd (fs1\<lparr>fptr := fptr fs + r\<rparr>)"
      unfolding fs1_def using less.prems(1) r(1,2) fits by (rule file_inv_advance)
    from less.hyps [of "btr - r", OF _ this, of "acc @ take (unat r) (drop (unat (fptr fs)) (file_content rd img fs))"]
    obtain c e where ih: "pf_read_loop rd (fs1\<lparr>fptr := fptr fs + r\<rparr>) (btr - r) (acc @ take (unat r) (drop (unat (fptr fs)) (file_content rd img fs))) =
        (FR_OK, acc @ take (unat r) (drop (unat (fptr fs)) (file_content rd img fs)) @
           take (unat btr - unat r) (drop (unat (fptr fs) + unat r) (file_content rd img fs)),
         fs1\<lparr>fptr := fptr fs + r + (btr - r), curr_clust := c, dsect := e\<rparr>)"
      "file_inv rd (fs1\<lparr>fptr := fptr fs + r + (btr - r), curr_clust := c, dsect := e\<rparr>)"
      using r less.prems(2) by (auto simp: sub add fs1_def)
    have "pf_read_loop rd fs btr acc =
        pf_read_loop rd (fs1\<lparr>fptr := fptr fs + r\<rparr>) (btr - r) (acc @ take (unat r) (drop (unat (fptr fs)) (file_content rd img fs)))"
      using False s d by (subst pf_read_loop.simps) (simp add: fs1_def r_def [symmetric])
    moreover have "take (unat r) xs @ take (unat btr - unat r) (drop (unat r) xs) = take (unat btr) xs" for xs :: "u8 list"
      using r(3) by (metis le_add_diff_inverse take_add)
    ultimately show ?thesis using ih by (auto simp: fs1_def drop_drop [symmetric] add.commute simp del: drop_drop)
  qed
qed

subsection \<open>Seeking\<close>

lemma unat_bcs: "csize_ok fs \<Longrightarrow> unat (ucast (csize fs) * 512 :: u32) = 512 * unat (csize fs)"
  using unat_csize [of fs] by (simp add: unat_word_ariths unsigned_ucast_eq take_bit_nat_eq_self)

lemma file_clust_cluster: "csize_ok fs \<Longrightarrow> file_clust rd fs n = cluster_at rd fs (n div (512 * unat (csize fs)))"
  by (simp add: file_clust_def div_mult2_eq)

lemma lseek_loop_ok:
  assumes ok: "file_ok rd fs0" and bcs: "bcs = ucast (csize fs0) * 512"
  shows "fs = fs0\<lparr>curr_clust := cluster_at rd fs0 j, fptr := q\<rparr> \<Longrightarrow> j * unat bcs + unat ofs \<le> unat (fsize fs0) \<Longrightarrow> 0 < ofs \<Longrightarrow>
    \<exists>f r. lseek_loop rd bcs fs (cluster_at rd fs0 j) ofs =
        Some (Inr (fs0\<lparr>curr_clust := cluster_at rd fs0 (j + (unat ofs - 1) div unat bcs), fptr := f\<rparr>,
                   cluster_at rd fs0 (j + (unat ofs - 1) div unat bcs), r)) \<and>
      f + r = q + ofs"
proof (induction "unat ofs" arbitrary: ofs fs j q rule: less_induct)
  case less
  have u: "unat bcs = 512 * unat (csize fs0)" "0 < unat (csize fs0)" "csize_ok fs0"
    using ok unat_bcs [of fs0] unat_csize [of fs0] by (auto simp: file_ok_def bcs)
  show ?case
  proof (cases "ofs > bcs")
    case False
    then have "(unat ofs - 1) div unat bcs = 0"
      using less.prems(3) u by (intro div_less) (auto simp: word_less_nat_alt)
    then show ?thesis using False less.prems by (subst lseek_loop.simps) (auto simp: leD)
  next
    case True
    then have b: "unat bcs < unat ofs" by (simp add: word_less_nat_alt)
    have sub: "unat (ofs - bcs) = unat ofs - unat bcs" using b by (simp add: unat_sub word_le_nat_alt)
    have n: "get_fat rd fs (cluster_at rd fs0 j) = cluster_at rd fs0 (Suc j)" by (simp add: less.prems(1))
    have "Suc j * unat bcs < unat (fsize fs0)" using less.prems(2) b by simp
    then have "1 < file_clust rd fs0 (Suc j * unat bcs)" "file_clust rd fs0 (Suc j * unat bcs) < n_fatent fs0"
      using ok by (auto simp: file_ok_def)
    moreover have "Suc j * unat bcs div (512 * unat (csize fs0)) = Suc j"
      unfolding u(1) using u(2) by (metis nonzero_mult_div_cancel_right mult_is_0 not_gr_zero zero_neq_numeral)
    ultimately have g: "\<not> (cluster_at rd fs0 (Suc j) \<le> 1 \<or> cluster_at rd fs0 (Suc j) \<ge> n_fatent fs)"
      by (simp add: file_clust_cluster [OF u(3)] less.prems(1) not_le)
    have d: "j + (unat ofs - 1) div unat bcs = Suc j + (unat (ofs - bcs) - 1) div unat bcs"
    proof -
      have "unat ofs - 1 = (unat (ofs - bcs) - 1) + unat bcs" using b sub by simp
      then show ?thesis using div_add_self2 [of "unat bcs" "unat (ofs - bcs) - 1"] u by simp
    qed
    from less.hyps [of "ofs - bcs" "fs\<lparr>curr_clust := cluster_at rd fs0 (Suc j), fptr := fptr fs + bcs\<rparr>" "fptr fs + bcs" "Suc j"]
    obtain f r where ih: "lseek_loop rd bcs (fs\<lparr>curr_clust := cluster_at rd fs0 (Suc j), fptr := fptr fs + bcs\<rparr>) (cluster_at rd fs0 (Suc j)) (ofs - bcs) =
          Some (Inr (fs0\<lparr>curr_clust := cluster_at rd fs0 (j + (unat ofs - 1) div unat bcs), fptr := f\<rparr>,
                   cluster_at rd fs0 (j + (unat ofs - 1) div unat bcs), r))" "f + r = fptr fs + bcs + (ofs - bcs)"
      using b u less.prems sub unfolding d by (auto simp: less.prems(1) word_less_nat_alt)
    then show ?thesis using True g n less.prems(1) by (subst lseek_loop.simps) auto
  qed
qed

lemma unat_and_not_mask: "unat (x AND NOT (2 ^ k - 1) :: u32) = unat x div 2 ^ k * 2 ^ k"
proof -
  have "x AND NOT (2 ^ k - 1) = push_bit k (drop_bit k x)"
    unfolding mask_eq_exp_minus_1 [symmetric] by (rule bit_eqI) (auto simp: bit_simps)
  also have "\<dots> = x - take_bit k x" using bits_ident [of k x] by (simp add: eq_diff_eq)
  moreover have t: "unat (take_bit k x) = unat x mod 2 ^ k" unfolding unsigned_take_bit_eq by (rule take_bit_eq_mod)
  moreover have "take_bit k x \<le> x" by (simp add: word_le_nat_alt t)
  ultimately show ?thesis by (simp add: unat_sub minus_mod_eq_div_mult)
qed

lemma cluster_start:
  assumes "csize_ok fs"
  shows "unat (x AND NOT (ucast (csize fs) * 512 - 1) :: u32) = unat x div (512 * unat (csize fs)) * (512 * unat (csize fs))"
proof -
  obtain k where k: "k < 8" "unat (csize fs) = 2 ^ k" "(ucast (csize fs) :: u32) = 2 ^ k" using assms by (rule csize_cases)
  have "(2 ^ k * 512 :: u32) = 2 ^ (k + 9)" "(512 * 2 ^ k :: nat) = 2 ^ (k + 9)" by (simp_all add: power_add)
  then show ?thesis using unat_and_not_mask [of x "k + 9"] k by simp
qed

lemma file_inv_at:
  assumes ok: "file_ok rd fs" "flag fs AND FA_OPENED \<noteq> 0" and n: "0 < n" "n \<le> fsize fs"
  defines "c \<equiv> file_clust rd fs (unat n - 1)"
  shows "clust2sect fs c \<noteq> 0"
    "file_inv rd (fs\<lparr>fptr := n, curr_clust := c, dsect := clust2sect fs c + (n div 512 AND (ucast (csize fs) - 1))\<rparr>)"
proof -
  have u: "0 < unat n" "unat n \<le> unat (fsize fs)" using n by (auto simp: word_less_nat_alt word_le_nat_alt)
  then show "clust2sect fs c \<noteq> 0" using ok by (auto simp: file_ok_def c_def)
  have cs: "csize_ok fs" using ok by (simp add: file_ok_def)
  have w: "(n div 512 AND (ucast (csize fs) - 1)) = of_nat (unat n div 512 mod unat (csize fs))"
    using unat_and_csize [OF cs, of "n div 512"] unfolding unat_div512(1) by (metis of_nat_unat ucast_id)
  have "c = file_clust rd fs (unat n)" if "unat n mod 512 \<noteq> 0"
    using pred_div [OF that] by (auto simp: c_def intro: file_sector_cong)
  then show "file_inv rd (fs\<lparr>fptr := n, curr_clust := c, dsect := clust2sect fs c + (n div 512 AND (ucast (csize fs) - 1))\<rparr>)"
    using ok n(2) by (auto simp: file_inv_def mod512_zero w file_sect_def c_def)
qed

lemma seek_base:
  fixes n p :: u32
  assumes "csize_ok fs" "0 < unat n"
  defines "bcs \<equiv> ucast (csize fs) * 512 :: u32" and "B \<equiv> 512 * unat (csize fs)"
  defines "rewind \<equiv> \<not> (p > 0 \<and> (n - 1) div bcs \<ge> (p - 1) div bcs)"
  defines "j \<equiv> (if rewind then 0 else (unat p - 1) div B)" and "q \<equiv> (if rewind then 0 else (p - 1) AND NOT (bcs - 1))"
  shows "unat q = j * B" "j * B \<le> unat n - 1"
proof -
  have nb: "unat (p - 1) = unat p - 1" "unat (n - 1) = unat n - 1" "(p - 1) div bcs \<le> (n - 1) div bcs" if "\<not> rewind"
    using that assms(2) by (auto simp: rewind_def unat_minus_one unat_gt_0)
  have B: "unat bcs = B" using unat_bcs [OF assms(1)] by (simp add: bcs_def B_def)
  show "unat q = j * B"
    using nb cluster_start [OF assms(1), of "p - 1"] by (simp add: q_def j_def bcs_def B_def)
  have "j \<le> (unat n - 1) div B" using nb by (auto simp: j_def word_le_nat_alt unat_div B)
  then show "j * B \<le> unat n - 1" by (metis div_times_less_eq_dividend mult_le_mono1 order_trans)
qed

lemma seek_rest:
  fixes n q :: u32
  assumes "unat q = j * B" "j * B \<le> unat n - 1" "0 < unat n" "0 < B"
  shows "unat (n - q) = unat n - j * B" "0 < unat (n - q)" "j + (unat (n - q) - 1) div B = (unat n - 1) div B"
proof -
  show u: "unat (n - q) = unat n - j * B" using assms by (simp add: unat_sub word_le_nat_alt)
  then show "0 < unat (n - q)" using assms by simp
  have "unat n - 1 = unat (n - q) - 1 + j * B" using u assms by simp
  then show "j + (unat (n - q) - 1) div B = (unat n - 1) div B" using assms(4) by simp
qed

lemma pf_lseek_ok:
  assumes "FatFs p" and inv: "file_inv rd fs" and fs: "fs = fs_object p"
  shows "\<exists>c d. pf_lseek rd p ofs = Some (FR_OK, p\<lparr>fs_object := fs\<lparr>fptr := min ofs (fsize fs), curr_clust := c, dsect := d\<rparr>\<rparr>) \<and>
    file_inv rd (fs\<lparr>fptr := min ofs (fsize fs), curr_clust := c, dsect := d\<rparr>)"
proof -
  define n where "n = min ofs (fsize fs)"
  have n: "(if ofs > fsize fs then fsize fs else ofs) = n" by (auto simp: n_def min_def)
  have ok: "file_ok rd fs" "flag fs AND FA_OPENED \<noteq> 0" "csize_ok fs" using inv by (auto simp: file_inv_def file_ok_def)
  show ?thesis
  proof (cases "n = 0")
    case True
    have "pf_lseek rd p ofs = Some (FR_OK, p\<lparr>fs_object := fs\<lparr>fptr := 0\<rparr>\<rparr>)"
      using assms(1) ok(2) True n by (simp add: pf_lseek_def fs [symmetric])
    then show ?thesis
      using ok True unfolding n_def [symmetric]
      by (intro exI [of _ "curr_clust fs"] exI [of _ "dsect fs"]) (simp add: file_inv_def)
  next
    case False
    define bcs where "bcs = (ucast (csize fs) * 512 :: u32)"
    define B where "B = 512 * unat (csize fs)"
    have B: "unat bcs = B" "0 < B" using unat_bcs [OF ok(3)] unat_csize [OF ok(3)] by (auto simp: bcs_def B_def)
    have bz: "bcs \<noteq> 0" using B by auto
    have un: "0 < unat n" "n \<le> fsize fs" using False by (auto simp: unat_gt_0 n_def)
    define rewind where "rewind \<longleftrightarrow> \<not> (fptr fs > 0 \<and> (n - 1) div bcs \<ge> (fptr fs - 1) div bcs)"
    define j where "j = (if rewind then 0 else (unat (fptr fs) - 1) div B)"
    define q where "q = (if rewind then 0 else (fptr fs - 1) AND NOT (bcs - 1))"
    note q = seek_base [OF ok(3) un(1), of "fptr fs", folded bcs_def B_def, folded rewind_def, folded j_def q_def]
    note rest = seek_rest [OF q un(1) B(2)]
    have cc: "cluster_at rd fs j = (if rewind then org_clust fs else curr_clust fs)"
      using inv unfolding j_def B_def
      by (auto simp: file_inv_def file_clust_cluster [OF ok(3)] rewind_def)
    from lseek_loop_ok [OF ok(1) bcs_def refl, of j "n - q" q] rest q un B
    obtain f r where l: "lseek_loop rd bcs (fs\<lparr>curr_clust := cluster_at rd fs j, fptr := q\<rparr>) (cluster_at rd fs j) (n - q) =
        Some (Inr (fs\<lparr>curr_clust := file_clust rd fs (unat n - 1), fptr := f\<rparr>, file_clust rd fs (unat n - 1), r))" "f + r = n"
      by (auto simp: rest(3) file_clust_cluster [OF ok(3)] B_def [symmetric] unat_gt_0 word_le_nat_alt word_less_nat_alt)
    have s: "seek_start (fs\<lparr>fptr := 0\<rparr>) (fptr fs) n bcs = (fs\<lparr>curr_clust := cluster_at rd fs j, fptr := q\<rparr>, n - q, cluster_at rd fs j)"
      using cc by (auto simp: q_def rewind_def seek_start_def Let_def)
    have "pf_lseek rd p ofs = Some (FR_OK, p\<lparr>fs_object := fs\<lparr>fptr := n, curr_clust := file_clust rd fs (unat n - 1),
        dsect := clust2sect fs (file_clust rd fs (unat n - 1)) + (n div 512 AND (ucast (csize fs) - 1))\<rparr>\<rparr>)"
      using assms(1) ok(2) False bz file_inv_at(1) [OF ok(1,2) _ un(2)] un(1) l s
      by (simp add: pf_lseek_def fs [symmetric] Let_def n bcs_def [symmetric] word_gt_0)
    moreover have "0 < n" using False by (simp add: word_gt_0)
    ultimately show ?thesis using file_inv_at(2) [OF ok(1,2) _ un(2)] unfolding n_def [symmetric] by blast
  qed
qed

subsection \<open>A file as bytes and a position\<close>

text \<open>
  What a user of the file relies on: reading returns the bytes from the position on and
  advances it, seeking sets it; neither goes past the end or changes the content.
\<close>

locale byte_file =
  fixes inv :: "'s \<Rightarrow> bool" and content :: "'s \<Rightarrow> u8 list" and pos :: "'s \<Rightarrow> nat"
    and read :: "'s \<Rightarrow> u32 \<Rightarrow> FRESULT \<times> u8 list \<times> 's" and seek :: "'s \<Rightarrow> u32 \<Rightarrow> (FRESULT \<times> 's) option"
  assumes read_law: "inv s \<Longrightarrow>
      \<exists>s'. read s n = (FR_OK, take (unat n) (drop (pos s) (content s)), s') \<and>
        inv s' \<and> content s' = content s \<and> pos s' = min (pos s + unat n) (length (content s))"
    and seek_law: "inv s \<Longrightarrow>
      \<exists>s'. seek s n = Some (FR_OK, s') \<and> inv s' \<and> content s' = content s \<and> pos s' = min (unat n) (length (content s))"
    and pos_law: "inv s \<Longrightarrow> pos s \<le> length (content s)"
begin

lemma seek_read:
  assumes "inv s"
  obtains s1 s2 where "seek s a = Some (FR_OK, s1)" "read s1 n = (FR_OK, take (unat n) (drop (unat a) (content s)), s2)" "inv s2"
proof -
  obtain s1 where s1: "seek s a = Some (FR_OK, s1)" "inv s1" "content s1 = content s" "pos s1 = min (unat a) (length (content s))"
    using seek_law [OF assms] by blast
  obtain s2 where "read s1 n = (FR_OK, take (unat n) (drop (pos s1) (content s1)), s2)" "inv s2"
    using read_law [OF s1(2)] by blast
  moreover have "drop (pos s1) (content s1) = drop (unat a) (content s)" by (simp add: s1(3,4) min_def)
  ultimately show ?thesis using s1(1) that by simp
qed

lemma read_read:
  assumes "inv s" "unat a + unat b < 2 ^ 32"
  obtains x s1 y s2 s3 where "read s a = (FR_OK, x, s1)" "read s1 b = (FR_OK, y, s2)" "read s (a + b) = (FR_OK, x @ y, s3)"
    "pos s3 = pos s2"
proof -
  obtain s1 where s1: "read s a = (FR_OK, take (unat a) (drop (pos s) (content s)), s1)" "inv s1"
      "content s1 = content s" "pos s1 = min (pos s + unat a) (length (content s))"
    using read_law [OF assms(1)] by blast
  obtain s2 where s2: "read s1 b = (FR_OK, take (unat b) (drop (pos s1) (content s1)), s2)"
      "pos s2 = min (pos s1 + unat b) (length (content s1))"
    using read_law [OF s1(2)] by blast
  obtain s3 where s3: "read s (a + b) = (FR_OK, take (unat (a + b)) (drop (pos s) (content s)), s3)"
      "pos s3 = min (pos s + unat (a + b)) (length (content s))"
    using read_law [OF assms(1)] by blast
  have u: "unat (a + b) = unat a + unat b" using assms(2) by (simp add: unat_word_ariths)
  have "drop (pos s1) (content s1) = drop (unat a) (drop (pos s) (content s))"
    by (simp add: s1(3,4) min_def add.commute)
  then have "take (unat (a + b)) (drop (pos s) (content s)) =
      take (unat a) (drop (pos s) (content s)) @ take (unat b) (drop (pos s1) (content s1))"
    by (simp add: u take_add)
  moreover have "pos s3 = pos s2" using s1(3,4) s2(2) s3(2) u by simp
  ultimately show ?thesis using s1(1) s2(1) s3(1) that by simp
qed

lemma read_at_end:
  assumes "inv s" "pos s = length (content s)"
  obtains s' where "read s n = (FR_OK, [], s')" "pos s' = pos s"
  using read_law [OF assms(1), of n] assms(2) by auto

end

definition open_file :: "disk \<Rightarrow> (u32 \<Rightarrow> u8 list) \<Rightarrow> pff \<Rightarrow> bool" where
  "open_file rd img p \<longleftrightarrow> serves rd img \<and> FatFs p \<and> file_inv rd (fs_object p)"

lemma length_content [simp]: "length (file_content rd img fs) = unat (fsize fs)"
  by (simp add: file_content_def)

lemma pf_read_ok:
  assumes "open_file rd img p"
  defines "fs \<equiv> fs_object p"
  shows "\<exists>p'. pf_read rd p n = (FR_OK, take (unat n) (drop (unat (fptr fs)) (file_content rd img fs)), p') \<and>
    open_file rd img p' \<and> file_content rd img (fs_object p') = file_content rd img fs \<and>
    unat (fptr (fs_object p')) = min (unat (fptr fs) + unat n) (unat (fsize fs))"
proof -
  have inv: "serves rd img" "FatFs p" "file_inv rd fs" "flag fs AND FA_OPENED \<noteq> 0" "fptr fs \<le> fsize fs"
    using assms(1) by (auto simp: open_file_def file_inv_def fs_def)
  define m where "m = (if n > fsize fs - fptr fs then fsize fs - fptr fs else n)"
  have r: "unat (fsize fs - fptr fs) = unat (fsize fs) - unat (fptr fs)" using inv(5) by (simp add: unat_sub)
  have m: "unat m = min (unat n) (unat (fsize fs) - unat (fptr fs))"
    by (auto simp: m_def r word_less_nat_alt min_def)
  then have fits: "unat (fptr fs) + unat m \<le> unat (fsize fs)" using inv(5) by (simp add: word_le_nat_alt)
  obtain c d where l: "pf_read_loop rd fs m [] = (FR_OK, take (unat m) (drop (unat (fptr fs)) (file_content rd img fs)),
        fs\<lparr>fptr := fptr fs + m, curr_clust := c, dsect := d\<rparr>)"
      "file_inv rd (fs\<lparr>fptr := fptr fs + m, curr_clust := c, dsect := d\<rparr>)"
    using pf_read_loop_ok [OF inv(1,3) fits, of "[]"] by auto
  have t: "take (unat m) (drop (unat (fptr fs)) (file_content rd img fs)) = take (unat n) (drop (unat (fptr fs)) (file_content rd img fs))"
    by (simp add: m min_def)
  have "pf_read rd p n = (FR_OK, take (unat n) (drop (unat (fptr fs)) (file_content rd img fs)),
      p\<lparr>fs_object := fs\<lparr>fptr := fptr fs + m, curr_clust := c, dsect := d\<rparr>\<rparr>)"
    using inv(2,4) l(1) t by (simp add: pf_read_def Let_def fs_def [symmetric] m_def [symmetric])
  moreover have "unat (fptr fs + m) = unat (fptr fs) + unat m"
    using order_le_less_trans [OF fits, of "2 ^ 32"] by (simp add: unat_word_ariths)
  ultimately show ?thesis using inv(1,2) l(2) m fits by (auto simp: open_file_def)
qed

lemma pf_lseek_file:
  assumes "open_file rd img p"
  defines "fs \<equiv> fs_object p"
  shows "\<exists>p'. pf_lseek rd p n = Some (FR_OK, p') \<and> open_file rd img p' \<and>
    file_content rd img (fs_object p') = file_content rd img fs \<and> unat (fptr (fs_object p')) = min (unat n) (unat (fsize fs))"
proof -
  have inv: "serves rd img" "FatFs p" "file_inv rd fs" using assms(1) by (auto simp: open_file_def fs_def)
  obtain c d where l: "pf_lseek rd p n = Some (FR_OK, p\<lparr>fs_object := fs\<lparr>fptr := min n (fsize fs), curr_clust := c, dsect := d\<rparr>\<rparr>)"
      "file_inv rd (fs\<lparr>fptr := min n (fsize fs), curr_clust := c, dsect := d\<rparr>)"
    using pf_lseek_ok [OF inv(2,3) fs_def [THEN meta_eq_to_obj_eq]] by blast
  then show ?thesis using inv by (auto simp: open_file_def min_def word_le_nat_alt)
qed

interpretation fat_file: byte_file "open_file rd img" "\<lambda>p. file_content rd img (fs_object p)" "\<lambda>p. unat (fptr (fs_object p))"
  "pf_read rd" "pf_lseek rd" for rd img
proof unfold_locales
  fix s n
  assume inv: "open_file rd img s"
  show "\<exists>s'. pf_read rd s n = (FR_OK, take (unat n) (drop (unat (fptr (fs_object s))) (file_content rd img (fs_object s))), s') \<and>
      open_file rd img s' \<and> file_content rd img (fs_object s') = file_content rd img (fs_object s) \<and>
      unat (fptr (fs_object s')) = min (unat (fptr (fs_object s)) + unat n) (length (file_content rd img (fs_object s)))"
    using pf_read_ok [OF inv] by simp
  show "\<exists>s'. pf_lseek rd s n = Some (FR_OK, s') \<and> open_file rd img s' \<and>
      file_content rd img (fs_object s') = file_content rd img (fs_object s) \<and>
      unat (fptr (fs_object s')) = min (unat n) (length (file_content rd img (fs_object s)))"
    using pf_lseek_file [OF inv] by simp
  show "unat (fptr (fs_object s)) \<le> length (file_content rd img (fs_object s))"
    using inv by (simp add: open_file_def file_inv_def word_le_nat_alt)
qed

end
