(* ===== verification/PffFat.thy ===== *)
theory PffFat
  imports PffFile
begin

text \<open>
  The allocation table as a string of bits: entry \<open>c\<close> of a table with entries of \<open>w\<close> bits are the
  bits from \<open>w * c\<close> on, counted in the bytes of the table's sectors from their least significant bit.
\<close>

definition fat_byte :: "(u32 \<Rightarrow> u8 list) \<Rightarrow> FATFS \<Rightarrow> nat \<Rightarrow> u8" where
  "fat_byte img fs m = img (fatbase fs + of_nat (m div 512)) ! (m mod 512)"

definition fat_bit :: "(u32 \<Rightarrow> u8 list) \<Rightarrow> FATFS \<Rightarrow> nat \<Rightarrow> bool" where
  "fat_bit img fs n \<longleftrightarrow> bit (fat_byte img fs (n div 8)) (n mod 8)"

definition fat_width :: "FATFS \<Rightarrow> nat" where
  "fat_width fs = (if fs_type fs = FS_FAT12 then 12 else if fs_type fs = FS_FAT16 then 16 else 32)"

text \<open>The upper four bits of an entry of 32 bits are reserved.\<close>

definition fat_used :: "FATFS \<Rightarrow> nat" where
  "fat_used fs = (if fs_type fs = FS_FAT12 then 12 else if fs_type fs = FS_FAT16 then 16 else 28)"

lemma bit_u8_bound: "bit (b :: u8) n \<Longrightarrow> n < 8"
  using bit_imp_le_length [of b n] by simp

lemma bit_ld_word: "bit (ld_word b i) j \<longleftrightarrow> j < 16 \<and> bit (b ! (i + j div 8)) (j mod 8)"
proof -
  consider "j < 8" | "8 \<le> j" "j < 16" | "16 \<le> j" by linarith
  then show ?thesis
  proof cases
    case 1
    then show ?thesis by (simp add: ld_word_def bit_simps)
  next
    case 2
    then have "j div 8 = 1" "j mod 8 = j - 8" by (auto intro: div_nat_eqI simp: mod_if)
    then show ?thesis using 2 by (auto simp: ld_word_def bit_simps dest: bit_u8_bound)
  qed (auto simp: bit_simps dest: bit_imp_le_length)
qed

lemma bit_ld_dword: "bit (ld_dword b i) j \<longleftrightarrow> j < 32 \<and> bit (b ! (i + j div 8)) (j mod 8)"
proof -
  consider "j < 8" | "8 \<le> j" "j < 16" | "16 \<le> j" "j < 24" | "24 \<le> j" "j < 32" | "32 \<le> j" by linarith
  then show ?thesis
  proof cases
    case 1
    then show ?thesis by (simp add: ld_dword_def bit_simps)
  next
    case 2
    then have "j div 8 = 1" "j mod 8 = j - 8" by (auto intro: div_nat_eqI simp: mod_if)
    then show ?thesis using 2 by (auto simp: ld_dword_def bit_simps dest: bit_u8_bound)
  next
    case 3
    then have "j div 8 = 2" "j mod 8 = j - 16" by (auto intro: div_nat_eqI simp: mod_if)
    then show ?thesis using 3 by (auto simp: ld_dword_def bit_simps dest: bit_u8_bound)
  next
    case 4
    then have "j div 8 = 3" "j mod 8 = j - 24" by (auto intro: div_nat_eqI simp: mod_if)
    then show ?thesis using 4 by (auto simp: ld_dword_def bit_simps dest: bit_u8_bound)
  qed (auto simp: bit_simps dest: bit_imp_le_length)
qed

text \<open>Reading \<open>n\<close> bytes of the table from byte \<open>m\<close> on, in one sector.\<close>

lemma read_fat_bytes:
  assumes "serves rd img" "unat off = m mod 512" "m mod 512 + unat n \<le> 512" "s = fatbase fs + of_nat (m div 512)"
  shows "rd s off n = Some (map (\<lambda>k. fat_byte img fs (m + k)) [0..<unat n])"
proof -
  have "fat_byte img fs (m + k) = img s ! (m mod 512 + k)" if "k < unat n" for k
  proof -
    have "(m + k) div 512 = m div 512" using that assms(3) by (intro same_sector) auto
    moreover from this have "(m + k) mod 512 = m mod 512 + k" by (metis add.assoc add_left_cancel mult_div_mod_eq)
    ultimately show ?thesis by (simp add: fat_byte_def assms(4))
  qed
  then have "take (unat n) (drop (m mod 512) (img s)) = map (\<lambda>k. fat_byte img fs (m + k)) [0..<unat n]"
    using assms by (intro nth_equalityI) (auto simp: serves_def)
  then show ?thesis using assms by (simp add: serves_def)
qed

lemma fat_offset:
  fixes c :: u32
  shows "unat (c mod 256 * 2) = 2 * unat c mod 512" "2 * unat c mod 512 + 2 \<le> 512" "c div 256 = of_nat (2 * unat c div 512)"
    "unat (c mod 128 * 4) = 4 * unat c mod 512" "4 * unat c mod 512 + 4 \<le> 512" "c div 128 = of_nat (4 * unat c div 512)"
proof -
  have m: "2 * unat c mod 512 = 2 * (unat c mod 256)" "4 * unat c mod 512 = 4 * (unat c mod 128)"
    using mult_mod_right [of 2 "unat c" 256] mult_mod_right [of 4 "unat c" 128] by simp_all
  have b: "unat c mod 256 < 256" "unat c mod 128 < 128" by simp_all
  show "unat (c mod 256 * 2) = 2 * unat c mod 512" "unat (c mod 128 * 4) = 4 * unat c mod 512"
    unfolding m using b by (simp_all add: unat_word_ariths)
  show "2 * unat c mod 512 + 2 \<le> 512" "4 * unat c mod 512 + 4 \<le> 512" unfolding m using b by simp_all
  show "c div 256 = of_nat (2 * unat c div 512)" "c div 128 = of_nat (4 * unat c div 512)"
    using div_mult_mult1 [of 2 "unat c" 256] div_mult_mult1 [of 4 "unat c" 128]
    by (simp_all add: word_unat_eq_iff unat_div unat_of_nat take_bit_nat_eq_self order_le_less_trans [OF div_le_dividend])
qed

lemma bits_split: "(8 * a + j) div 8 = a + j div 8" "(8 * a + j) mod 8 = j mod 8" for a j :: nat
  by simp_all

lemma in_table: "2 \<le> c \<Longrightarrow> c < n \<Longrightarrow> \<not> (c < 2 \<or> c \<ge> n)" for c n :: u32
  by auto

lemma get_fat16:
  assumes "serves rd img" "2 \<le> c" "c < n_fatent fs" "fs_type fs = FS_FAT16"
  shows "bit (get_fat rd fs c) j \<longleftrightarrow> j < 16 \<and> fat_bit img fs (16 * unat c + j)"
proof -
  have "rd (fatbase fs + c div 256) (c mod 256 * 2) 2 = Some (map (\<lambda>k. fat_byte img fs (2 * unat c + k)) [0..<unat (2 :: u32)])"
    using fat_offset(2) [of c] by (intro read_fat_bytes [OF assms(1) fat_offset(1)]) (simp_all only: fat_offset(3) unat_numeral, simp)
  then have "get_fat rd fs c = ucast (ld_word (map (\<lambda>k. fat_byte img fs (2 * unat c + k)) [0..<2]) 0)"
    unfolding get_fat_def if_not_P [OF in_table [OF assms(2,3)]] by (simp add: FS_FAT12_def FS_FAT16_def assms(4))
  moreover have "j < 16 \<Longrightarrow> j div 8 < 2" by simp
  ultimately show ?thesis using bits_split [of "2 * unat c" j] by (auto simp: bit_simps bit_ld_word fat_bit_def)
qed

lemma get_fat32:
  assumes "serves rd img" "2 \<le> c" "c < n_fatent fs" "fs_type fs = FS_FAT32"
  shows "bit (get_fat rd fs c) j \<longleftrightarrow> j < 28 \<and> fat_bit img fs (32 * unat c + j)"
proof -
  have "rd (fatbase fs + c div 128) (c mod 128 * 4) 4 = Some (map (\<lambda>k. fat_byte img fs (4 * unat c + k)) [0..<unat (4 :: u32)])"
    using fat_offset(5) [of c] by (intro read_fat_bytes [OF assms(1) fat_offset(4)]) (simp_all only: fat_offset(6) unat_numeral, simp)
  then have "get_fat rd fs c = ld_dword (map (\<lambda>k. fat_byte img fs (4 * unat c + k)) [0..<4]) 0 AND mask 28"
    unfolding get_fat_def if_not_P [OF in_table [OF assms(2,3)]]
    by (simp add: FS_FAT12_def FS_FAT16_def FS_FAT32_def assms(4) mask_eq_exp_minus_1)
  moreover have "j < 28 \<Longrightarrow> j div 8 < 4" by simp
  ultimately show ?thesis using bits_split [of "4 * unat c" j] by (auto simp: bit_simps bit_ld_dword fat_bit_def)
qed

lemma get_fat12_bytes:
  assumes "serves rd img" "2 \<le> c" "c < n_fatent fs" "n_fatent fs \<le> 0xFF7" "fs_type fs = FS_FAT12"
  defines "buf \<equiv> map (\<lambda>k. fat_byte img fs (unat c + unat c div 2 + k)) [0..<2]"
  shows "get_fat rd fs c = (let wc = ucast (ld_word buf 0) :: u32 in if c AND 1 \<noteq> 0 then drop_bit 4 wc else wc AND 0xFFF)"
proof -
  define m where "m = unat c + unat c div 2"
  define bc where "bc = c + c div 2"
  have c: "unat c < 4096" using assms(3,4) by (simp add: word_less_nat_alt word_le_nat_alt)
  have bc: "unat bc = m" using c by (simp add: bc_def m_def unat_word_ariths unat_div)
  have ms: "m div 512 < 4294967296" using c by (simp add: m_def)
  have d: "bc div 512 = of_nat (m div 512)" "unat (bc mod 512) = m mod 512"
    using bc ms by (simp_all add: word_unat_eq_iff unat_div unat_mod unat_of_nat)
  have "(if bc mod 512 \<noteq> 511 then rd (fatbase fs + bc div 512) (bc mod 512) 2
      else case rd (fatbase fs + bc div 512) 511 1 of None \<Rightarrow> None
           | Some b0 \<Rightarrow> map_option (\<lambda>b1. b0 @ b1) (rd (fatbase fs + bc div 512 + 1) 0 1)) = Some buf"
  proof (cases "bc mod 512 = 511")
    case False
    then have "m mod 512 \<noteq> 511" using d(2) by (auto simp: word_unat_eq_iff)
    then have "m mod 512 + 2 \<le> 512" using mod_less_divisor [of 512 m] by linarith
    then show ?thesis using False read_fat_bytes [OF assms(1) d(2), of 2 _ fs] by (simp add: d(1) buf_def m_def)
  next
    case True
    then have m: "m mod 512 = 511" using d(2) by simp
    have s: "Suc m mod 512 = 0" "Suc m div 512 = Suc (m div 512)" using m by (simp_all add: mod_Suc div_Suc)
    have "rd (fatbase fs + bc div 512) 511 1 = Some [fat_byte img fs m]"
      using read_fat_bytes [OF assms(1), of 511 m 1 _ fs] m by (simp add: d(1))
    moreover have "rd (fatbase fs + bc div 512 + 1) 0 1 = Some [fat_byte img fs (Suc m)]"
      using read_fat_bytes [OF assms(1), of 0 "Suc m" 1 _ fs] s by (simp add: d(1) add.commute add.left_commute)
    ultimately show ?thesis using True by (simp add: buf_def m_def upt_rec)
  qed
  note b = this
  show ?thesis unfolding get_fat_def if_not_P [OF in_table [OF assms(2,3)]] if_P [OF assms(5)] Let_def bc_def [symmetric] b by simp
qed

lemma get_fat12:
  assumes "serves rd img" "2 \<le> c" "c < n_fatent fs" "n_fatent fs \<le> 0xFF7" "fs_type fs = FS_FAT12"
  shows "bit (get_fat rd fs c) j \<longleftrightarrow> j < 12 \<and> fat_bit img fs (12 * unat c + j)"
proof -
  define m where "m = unat c div 2"
  note g = get_fat12_bytes [OF assms]
  show ?thesis
  proof (cases "c AND 1 = 0")
    case True
    then have u: "unat c = 2 * m" by (simp add: m_def and_one_eq word_unat_eq_iff unat_mod dvd_eq_mod_eq_0)
    then have "get_fat rd fs c = ucast (ld_word (map (\<lambda>k. fat_byte img fs (3 * m + k)) [0..<2]) 0) AND mask 12"
      using g True by (simp add: mask_eq_exp_minus_1)
    moreover have "j < 12 \<Longrightarrow> j div 8 < 2" by simp
    ultimately show ?thesis using bits_split [of "3 * m" j] u by (auto simp: bit_simps bit_ld_word fat_bit_def)
  next
    case False
    then have u: "unat c = 2 * m + 1" using mult_div_mod_eq [of 2 "unat c"] by (simp add: m_def and_one_eq word_unat_eq_iff unat_mod)
    then have "get_fat rd fs c = drop_bit 4 (ucast (ld_word (map (\<lambda>k. fat_byte img fs (3 * m + 1 + k)) [0..<2]) 0))"
      using g False by simp
    moreover have "j < 12 \<Longrightarrow> (4 + j) div 8 < 2" by simp
    ultimately show ?thesis using bits_split [of "3 * m + 1" "4 + j"] u
      by (auto simp: bit_simps bit_ld_word fat_bit_def algebra_simps)
  qed
qed

subsection \<open>The volume\<close>

text \<open>The fields of the boot record as numbers.\<close>

definition bpb_fat_sectors :: "u8 list \<Rightarrow> nat" where
  "bpb_fat_sectors b =
     (if ld_word b BPB_FATSz16 = 0 then unat (ld_dword b BPB_FATSz32) else unat (ld_word b BPB_FATSz16)) * unat (b ! BPB_NumFATs)"

definition bpb_total :: "u8 list \<Rightarrow> nat" where
  "bpb_total b = (if ld_word b BPB_TotSec16 = 0 then unat (ld_dword b BPB_TotSec32) else unat (ld_word b BPB_TotSec16))"

definition bpb_overhead :: "u8 list \<Rightarrow> nat" where
  "bpb_overhead b = unat (ld_word b BPB_RsvdSecCnt) + bpb_fat_sectors b + unat (ld_word b BPB_RootEntCnt) div 16"

definition bpb_clusters :: "u8 list \<Rightarrow> nat" where
  "bpb_clusters b = (bpb_total b - bpb_overhead b) div unat (b ! BPB_SecPerClus)"

text \<open>The type of a volume follows from its number of clusters alone.\<close>

definition fat_type :: "nat \<Rightarrow> u8" where
  "fat_type n = (if n < 4085 then FS_FAT12 else if n < 65525 then FS_FAT16 else FS_FAT32)"

lemma fat_type_nonzero: "fat_type n \<noteq> 0"
  by (simp add: fat_type_def FS_FAT12_def FS_FAT16_def FS_FAT32_def)

lemma nth_slice: "k + n \<le> length b \<Longrightarrow> i < n \<Longrightarrow> take n (drop k b) ! i = b ! (k + i)"
  by simp

lemma ld_word_slice: "k + n \<le> length b \<Longrightarrow> Suc i < n \<Longrightarrow> ld_word (take n (drop k b)) i = ld_word b (k + i)"
  by (simp add: ld_word_def)

lemma ld_dword_slice: "k + n \<le> length b \<Longrightarrow> i + 3 < n \<Longrightarrow> ld_dword (take n (drop k b)) i = ld_dword b (k + i)"
  by (simp add: ld_dword_def add.assoc)

lemma ucast_zero16: "(ucast (w :: u16) :: u32) = 0 \<longleftrightarrow> w = 0"
  by (simp add: word_unat_eq_iff unsigned_ucast_eq take_bit_nat_eq_self order_less_trans [OF unat_u16_less])

lemma unat_ucast16: "unat (ucast (w :: u16) :: u32) = unat w"
  by (simp add: unsigned_ucast_eq take_bit_nat_eq_self order_less_trans [OF unat_u16_less])

lemma unat_ucast8: "unat (ucast (w :: u8) :: u32) = unat w"
  by (simp add: unsigned_ucast_eq take_bit_nat_eq_self order_less_trans [OF unat_u8_less])

lemma mount_words:
  assumes fit: "2 \<le> bpb_overhead b" "bpb_overhead b \<le> bpb_total b" and spc: "b ! BPB_SecPerClus \<noteq> 0"
  defines "fsz \<equiv> (if ucast (ld_word b BPB_FATSz16) = (0 :: u32) then ld_dword b BPB_FATSz32 else ucast (ld_word b BPB_FATSz16)) *
      ucast (b ! BPB_NumFATs)"
    and "tsect \<equiv> (if ucast (ld_word b BPB_TotSec16) = (0 :: u32) then ld_dword b BPB_TotSec32 else ucast (ld_word b BPB_TotSec16))"
  shows "unat fsz = bpb_fat_sectors b"
    "unat ((tsect - ucast (ld_word b BPB_RsvdSecCnt) - fsz - ucast (ld_word b BPB_RootEntCnt div 16)) div ucast (b ! BPB_SecPerClus) + 2) =
       bpb_clusters b + 2"
proof -
  have t: "unat tsect = bpb_total b" by (simp add: tsect_def bpb_total_def ucast_zero16 unat_ucast16)
  then have lim: "bpb_total b < 2 ^ 32" using unat_u32_less [of tsect] by simp
  have "bpb_fat_sectors b < 2 ^ 32" using fit lim by (simp add: bpb_overhead_def)
  then show f: "unat fsz = bpb_fat_sectors b"
    by (auto simp: fsz_def bpb_fat_sectors_def ucast_zero16 unat_word_ariths unat_ucast16 unat_ucast8)
  have r: "unat (ld_word b BPB_RsvdSecCnt) + bpb_fat_sectors b + unat (ld_word b BPB_RootEntCnt) div 16 \<le> bpb_total b"
    using fit by (simp add: bpb_overhead_def)
  have "unat (tsect - ucast (ld_word b BPB_RsvdSecCnt)) = bpb_total b - unat (ld_word b BPB_RsvdSecCnt)"
    using r by (simp add: unat_sub word_le_nat_alt t unat_ucast16)
  then have "unat (tsect - ucast (ld_word b BPB_RsvdSecCnt) - fsz) = bpb_total b - unat (ld_word b BPB_RsvdSecCnt) - bpb_fat_sectors b"
    using r f by (simp add: unat_sub word_le_nat_alt)
  then have d: "unat (tsect - ucast (ld_word b BPB_RsvdSecCnt) - fsz - ucast (ld_word b BPB_RootEntCnt div 16)) = bpb_total b - bpb_overhead b"
    using r by (simp add: unat_sub word_le_nat_alt unat_ucast16 unat_div bpb_overhead_def)
  have "bpb_clusters b \<le> bpb_total b - bpb_overhead b" by (simp add: bpb_clusters_def)
  then have "bpb_clusters b + 2 < 2 ^ 32" using fit lim by simp
  then show "unat ((tsect - ucast (ld_word b BPB_RsvdSecCnt) - fsz - ucast (ld_word b BPB_RootEntCnt div 16)) div ucast (b ! BPB_SecPerClus) + 2) =
       bpb_clusters b + 2"
    using d by (simp add: unat_word_ariths unat_div unat_ucast8 bpb_clusters_def)
qed

lemma pf_mount_ok:
  assumes "serves rd img" "find_volume rd = (0, bs)" and b: "b = img bs"
    and fit: "2 \<le> bpb_overhead b" "bpb_overhead b \<le> bpb_total b" "b ! BPB_SecPerClus \<noteq> 0"
  defines "n \<equiv> bpb_clusters b"
  shows "\<exists>p. pf_mount False rd fs = Some (if n = 4085 then FR_NO_FILESYSTEM else FR_OK, p) \<and> (FatFs p \<longleftrightarrow> n \<noteq> 4085) \<and>
    (n \<noteq> 4085 \<longrightarrow>
       fs_type (fs_object p) = fat_type n \<and> unat (n_fatent (fs_object p)) = n + 2 \<and> csize (fs_object p) = b ! BPB_SecPerClus \<and>
       fatbase (fs_object p) = bs + ucast (ld_word b BPB_RsvdSecCnt) \<and>
       database (fs_object p) = bs + of_nat (bpb_overhead b) \<and> flag (fs_object p) = 0)"
proof -
  have len: "13 + 36 \<le> length b" using assms(1) by (simp add: serves_def b)
  define buf where "buf = take 36 (drop 13 b)"
  have rd: "rd bs 13 36 = Some buf" using assms(1) by (simp add: serves_def buf_def b)
  have buf: "ld_word buf (BPB_FATSz16 - 13) = ld_word b BPB_FATSz16" "ld_dword buf (BPB_FATSz32 - 13) = ld_dword b BPB_FATSz32"
    "buf ! (BPB_NumFATs - 13) = b ! BPB_NumFATs" "ld_word buf (BPB_RsvdSecCnt - 13) = ld_word b BPB_RsvdSecCnt"
    "buf ! (BPB_SecPerClus - 13) = b ! BPB_SecPerClus" "ld_word buf (BPB_RootEntCnt - 13) = ld_word b BPB_RootEntCnt"
    "ld_word buf (BPB_TotSec16 - 13) = ld_word b BPB_TotSec16" "ld_dword buf (BPB_TotSec32 - 13) = ld_dword b BPB_TotSec32"
    using ld_word_slice [OF len] ld_dword_slice [OF len] nth_slice [OF len]
    by (simp_all add: buf_def BPB_FATSz16_def BPB_FATSz32_def BPB_NumFATs_def BPB_RsvdSecCnt_def BPB_SecPerClus_def BPB_RootEntCnt_def
        BPB_TotSec16_def BPB_TotSec32_def)
  note w = mount_words [OF fit, folded n_def]
  define fsz where "fsz = (if ucast (ld_word b BPB_FATSz16) = (0 :: u32) then ld_dword b BPB_FATSz32 else ucast (ld_word b BPB_FATSz16)) *
      ucast (b ! BPB_NumFATs)"
  define mclst where "mclst = ((if ucast (ld_word b BPB_TotSec16) = (0 :: u32) then ld_dword b BPB_TotSec32 else ucast (ld_word b BPB_TotSec16))
      - ucast (ld_word b BPB_RsvdSecCnt) - fsz - ucast (ld_word b BPB_RootEntCnt div 16)) div ucast (b ! BPB_SecPerClus) + 2"
  have u: "unat fsz = bpb_fat_sectors b" "unat mclst = n + 2" using w by (simp_all only: fsz_def mclst_def)
  have c: "fat_sub_type mclst = (if n = 4085 then 0 else fat_type n)"
    by (auto simp: fat_sub_type_def fat_type_def word_less_nat_alt word_le_nat_alt u Let_def FS_FAT16_def)
  have "unat (ld_word b BPB_RootEntCnt) div 16 = unat (ld_word b BPB_RootEntCnt div 16)" by (simp add: unat_div)
  then have "ucast (ld_word b BPB_RsvdSecCnt) + fsz + ucast (ld_word b BPB_RootEntCnt div 16) = (of_nat (bpb_overhead b) :: u32)"
    unfolding bpb_overhead_def u(1) [symmetric] by (simp only: of_nat_add) simp
  then have db: "bs + ucast (ld_word b BPB_RsvdSecCnt) + fsz + ucast (ld_word b BPB_RootEntCnt div 16) = bs + of_nat (bpb_overhead b)"
    by (simp add: add.assoc)
  show ?thesis
    using fit(3) db u(2)
    by (simp add: pf_mount_def assms(2) rd buf Let_def fsz_def [symmetric] mclst_def [symmetric] c fat_type_nonzero cong: if_cong split del: if_split)
      (simp add: add.assoc fat_type_nonzero)
qed

end
