(* ===== verification/PffDir.thy ===== *)
theory PffDir
  imports PffFile
begin

text \<open>
  Directories: the search for a name as the first matching entry of the sequence of entries that
  \<^verbatim>\<open>dir_next\<close> steps through, and the two forms of a name, the one in a directory entry and the one
  in a path.
\<close>

subsection \<open>The sequence of entries\<close>

fun dir_walk :: "disk \<Rightarrow> FATFS \<Rightarrow> DIR \<Rightarrow> nat \<Rightarrow> DIR option" where
  "dir_walk rd fs dj 0 = Some dj"
| "dir_walk rd fs dj (Suc n) =
     (case dir_next rd fs dj of (res, dj') \<Rightarrow> if res = FR_OK then dir_walk rd fs dj' n else None)"

definition dir_entry :: "disk \<Rightarrow> DIR \<Rightarrow> u8 list option" where
  "dir_entry rd dj = rd (sect dj) (ucast (index dj mod 16) * 32) 32"

definition entry_named :: "u8 list \<Rightarrow> u8 list \<Rightarrow> bool" where
  "entry_named nm e \<longleftrightarrow> e ! DIR_Attr AND AM_VOL = 0 \<and> take 11 e = take 11 nm"

text \<open>Entry \<open>n\<close> is in use and not the one looked for.\<close>

definition passed_over :: "disk \<Rightarrow> FATFS \<Rightarrow> DIR \<Rightarrow> nat \<Rightarrow> bool" where
  "passed_over rd fs dj n \<longleftrightarrow>
     (case dir_walk rd fs dj n of
        None \<Rightarrow> False
      | Some d \<Rightarrow> (case dir_entry rd d of None \<Rightarrow> False | Some e \<Rightarrow> e ! 0 \<noteq> 0 \<and> \<not> entry_named (fn dj) e))"

lemma sint_u8_eq: "sint a = sint b \<longleftrightarrow> a = b" for a b :: u8
  by (auto intro: signed_word_eqI)

lemma mem_cmp_eq: "n \<le> length d \<Longrightarrow> n \<le> length s \<Longrightarrow> mem_cmp d s n = 0 \<longleftrightarrow> take n d = take n s"
  by (induction d s n rule: mem_cmp.induct) (auto simp: sint_u8_eq)

lemma dir_next_fn: "dir_next rd fs dj = (r, dj') \<Longrightarrow> fn dj' = fn dj"
  by (auto simp: dir_next_def Let_def split: if_splits)

lemma dir_walk_fn: "dir_walk rd fs dj n = Some dj' \<Longrightarrow> fn dj' = fn dj"
  by (induction rd fs dj n rule: dir_walk.induct) (auto split: prod.splits if_splits dest: dir_next_fn)

lemma entry_offset: "unat (ucast (i mod 16 :: u16) * 32 :: u32) + 32 \<le> 512"
proof -
  have "unat (i mod 16) < 16" by (simp add: unat_mod)
  then show ?thesis by (simp add: unat_word_ariths unsigned_ucast_eq take_bit_nat_eq_self)
qed

lemma dir_entry_length: "serves rd img \<Longrightarrow> dir_entry rd dj = Some e \<Longrightarrow> length e = 32"
  using entry_offset [of "index dj"] by (auto simp: dir_entry_def serves_def)

lemma dir_find_loop_step:
  assumes "serves rd img" "11 \<le> length (fn dj)"
  shows "dir_find_loop rd fs dj buf =
    (case dir_entry rd dj of
       None \<Rightarrow> (FR_DISK_ERR, dj, buf)
     | Some e \<Rightarrow>
         if e ! 0 = 0 then (FR_NO_FILE, dj, e)
         else if entry_named (fn dj) e then (FR_OK, dj, e)
         else case dir_next rd fs dj of (res, dj') \<Rightarrow> if res = FR_OK then dir_find_loop rd fs dj' e else (res, dj', e))"
  using assms dir_entry_length [OF assms(1), of dj]
  by (subst dir_find_loop.simps) (auto simp: dir_entry_def entry_named_def DIR_Name_def mem_cmp_eq split: option.splits)

lemma dir_find_loop_first:
  assumes "serves rd img"
  shows "11 \<le> length (fn dj) \<Longrightarrow> dir_find_loop rd fs dj buf = (FR_OK, dj', e) \<longleftrightarrow>
    (\<exists>n. dir_walk rd fs dj n = Some dj' \<and> dir_entry rd dj' = Some e \<and> e ! 0 \<noteq> 0 \<and> entry_named (fn dj) e \<and>
         (\<forall>m<n. passed_over rd fs dj m))"
proof (induction "65536 - unat (index dj)" arbitrary: dj buf rule: less_induct)
  case less
  note step = dir_find_loop_step [OF assms less.prems, of fs buf]
  show ?case
  proof (cases "\<exists>e0 dj0. dir_entry rd dj = Some e0 \<and> e0 ! 0 \<noteq> 0 \<and> \<not> entry_named (fn dj) e0 \<and> dir_next rd fs dj = (FR_OK, dj0)")
    case False
    have "n = 0" if "dir_walk rd fs dj n = Some dj'" "\<forall>m<n. passed_over rd fs dj m" for n
      using that(1) spec [OF that(2), of 0] False by (cases n) (auto simp: passed_over_def split: option.splits prod.splits if_splits)
    then have "(\<exists>n. dir_walk rd fs dj n = Some dj' \<and> dir_entry rd dj' = Some e \<and> e ! 0 \<noteq> 0 \<and> entry_named (fn dj) e \<and>
        (\<forall>m<n. passed_over rd fs dj m)) \<longleftrightarrow> dj' = dj \<and> dir_entry rd dj = Some e \<and> e ! 0 \<noteq> 0 \<and> entry_named (fn dj) e"
      by (metis dir_walk.simps(1) less_nat_zero_code option.inject)
    then show ?thesis using False unfolding step by (auto split: option.splits prod.splits if_splits)
  next
    case True
    then obtain e0 dj0 where t: "dir_entry rd dj = Some e0" "e0 ! 0 \<noteq> 0" "\<not> entry_named (fn dj) e0" "dir_next rd fs dj = (FR_OK, dj0)"
      by blast
    have f: "fn dj0 = fn dj" by (rule dir_next_fn [OF t(4)])
    have p: "passed_over rd fs dj 0" "passed_over rd fs dj (Suc m) = passed_over rd fs dj0 m" for m
      using t f by (simp_all add: passed_over_def cong: option.case_cong)
    have "dir_find_loop rd fs dj buf = dir_find_loop rd fs dj0 e0" unfolding step using t by simp
    moreover have "11 \<le> length (fn dj0)" using less.prems f by simp
    moreover have "(\<exists>n. dir_walk rd fs dj n = Some dj' \<and> dir_entry rd dj' = Some e \<and> e ! 0 \<noteq> 0 \<and> entry_named (fn dj) e \<and> (\<forall>m<n. passed_over rd fs dj m))
      \<longleftrightarrow> (\<exists>n. dir_walk rd fs dj0 n = Some dj' \<and> dir_entry rd dj' = Some e \<and> e ! 0 \<noteq> 0 \<and> entry_named (fn dj) e \<and> (\<forall>m<n. passed_over rd fs dj0 m))"
      (is "?L = ?R")
    proof
      assume ?L
      then obtain n where n: "dir_walk rd fs dj n = Some dj'" "dir_entry rd dj' = Some e" "e ! 0 \<noteq> 0" "entry_named (fn dj) e"
        "\<forall>m<n. passed_over rd fs dj m" by blast
      then obtain n' where "n = Suc n'" using t by (cases n) auto
      then show ?R using n t p by (intro exI [of _ n']) auto
    next
      assume ?R
      then obtain n where n: "dir_walk rd fs dj0 n = Some dj'" "dir_entry rd dj' = Some e" "e ! 0 \<noteq> 0" "entry_named (fn dj) e"
        "\<forall>m<n. passed_over rd fs dj0 m" by blast
      then show ?L using t p by (intro exI [of _ "Suc n"]) (auto simp: less_Suc_eq_0_disj)
    qed
    ultimately show ?thesis using less.hyps [OF dir_next_measure [OF t(4)]] by (simp add: f)
  qed
qed

subsection \<open>Names\<close>

definition name_char :: "u8 \<Rightarrow> bool" where
  "name_char c \<longleftrightarrow> c > 0x20 \<and> c \<noteq> 0x2E \<and> c \<noteq> 0x2F \<and> c \<noteq> 0x05"

text \<open>A name in a directory entry: the body and the extension, padded with spaces.\<close>

definition entry_name :: "u8 list \<Rightarrow> u8 list \<Rightarrow> u8 list" where
  "entry_name b e = b @ replicate (8 - length b) 0x20 @ e @ replicate (3 - length e) 0x20"

definition path_name :: "u8 list \<Rightarrow> u8 list \<Rightarrow> u8 list" where
  "path_name b e = (if e = [] then b else b @ 0x2E # e)"

lemma name_chars_pad: "list_all name_char b \<Longrightarrow> name_chars (b @ replicate n 0x20) = b"
proof (induction b)
  case Nil
  then show ?case by (cases n) simp_all
qed (auto simp: name_char_def)

lemma get_fileinfo_name:
  assumes "list_all name_char b" "list_all name_char e" "length b \<le> 8" "length e \<le> 3" "sect dj \<noteq> 0"
  shows "fi_fname (get_fileinfo dj (entry_name b e @ rest) fno) = path_name b e @ [0]"
proof -
  define d where "d = entry_name b e @ rest"
  have t: "take 8 d = b @ replicate (8 - length b) 0x20" "take 3 (drop 8 d) = e @ replicate (3 - length e) 0x20"
    using assms(3,4) by (simp_all add: entry_name_def d_def)
  have m: "map (\<lambda>c. if c = 0x05 then 0xE5 else c) b = b"
    using assms(1) by (induction b) (auto simp: name_char_def)
  have "d ! 8 = (if e = [] then 0x20 else hd e)"
    using assms(3) by (cases e) (simp_all add: entry_name_def nth_append d_def)
  moreover have "e \<noteq> [] \<Longrightarrow> hd e \<noteq> 0x20" using assms(2) by (cases e) (auto simp: name_char_def)
  ultimately show ?thesis
    using assms(5) unfolding d_def [symmetric]
    by (auto simp: get_fileinfo_def Let_def t name_chars_pad assms(1,2) m path_name_def)
qed

lemma create_name_run:
  assumes "list_all name_char b" "i + length b \<le> ni" "ni \<le> length sfn"
  shows "create_name_loop (b @ p) i ni sfn = create_name_loop p (i + length b) ni (take i sfn @ b @ drop (i + length b) sfn)"
  using assms
proof (induction b arbitrary: i sfn)
  case (Cons c b)
  have c: "\<not> c \<le> 0x20" "c \<noteq> 0x2E" "c \<noteq> 0x2F" using Cons.prems(1) by (auto simp: name_char_def)
  have "create_name_loop ((c # b) @ p) i ni sfn = create_name_loop (b @ p) (Suc i) ni (sfn[i := c])"
    using c Cons.prems(2) by simp
  also have "\<dots> = create_name_loop p (Suc i + length b) ni (take (Suc i) (sfn[i := c]) @ b @ drop (Suc i + length b) (sfn[i := c]))"
    using Cons.prems by (intro Cons.IH) auto
  also have "take (Suc i) (sfn[i := c]) = take i sfn @ [c]"
    using Cons.prems by (simp add: take_Suc_conv_app_nth take_update_swap list_update_append)
  finally show ?case using Cons.prems by simp
qed simp

lemma create_name_path:
  assumes "list_all name_char b" "list_all name_char e" "length b \<le> 8" "length e \<le> 3" "length (fn dj) = 12"
  shows "create_name dj (path_name b e @ [0]) = Some (dj\<lparr>fn := entry_name b e @ [1]\<rparr>, [])"
proof -
  obtain x where x: "drop 11 (fn dj) = [x]" using assms(5) by (cases "drop 11 (fn dj)") (auto simp: length_Suc_conv dest: arg_cong [of _ _ length])
  define s where "s = replicate 8 0x20 @ [0x20, 0x20, 0x20, x]"
  have s: "mem_set (fn dj) 0x20 11 = s" by (simp add: mem_set_def s_def x) (simp add: numeral_eq_Suc)
  define s1 where "s1 = b @ drop (length b) s"
  have s1: "take 8 s1 = b @ replicate (8 - length b) 0x20" "drop 8 s1 = [0x20, 0x20, 0x20, x]" "length s1 = 12"
    using assms(3) by (simp_all add: s1_def s_def)
  have r: "create_name_loop (b @ p) 0 8 s = create_name_loop p (length b) 8 s1" for p
    using create_name_run [OF assms(1), of 0 8 s p] assms(3) by (simp add: s_def s1_def)
  have "create_name_loop (path_name b e @ [0]) 0 8 s = Some (0, [], entry_name b e @ [x])"
  proof (cases "e = []")
    case True
    have "s1 = entry_name b e @ [x]" using append_take_drop_id [of 8 s1] unfolding s1 by (simp add: True entry_name_def numeral_eq_Suc)
    then show ?thesis using r [of "[0]"] by (simp add: True path_name_def)
  next
    case False
    have "create_name_loop (e @ [0]) 8 11 s1 = create_name_loop [0] (8 + length e) 11 (take 8 s1 @ e @ drop (8 + length e) s1)"
      using assms(4) s1(3) by (intro create_name_run [OF assms(2)]) auto
    moreover have "drop (8 + length e) s1 = replicate (3 - length e) 0x20 @ [x]"
    proof -
      have "drop (8 + length e) s1 = drop (length e) [0x20, 0x20, 0x20, x]" unfolding s1(2) [symmetric] by (simp add: add.commute)
      then show ?thesis using assms(4) by (auto simp: numeral_eq_Suc le_Suc_eq)
    qed
    ultimately show ?thesis using r [of "0x2E # e @ [0]"] False by (simp add: path_name_def s1(1) entry_name_def)
  qed
  moreover have "(entry_name b e @ [x])[11 := 1] = entry_name b e @ [1]"
    using list_update_length [of "entry_name b e" x "[]" 1] assms(3,4) by (simp add: entry_name_def)
  ultimately show ?thesis by (simp add: create_name_def s)
qed

end
