(* ===== verification/PffProperties.thy ===== *)
theory PffProperties
  imports PffFat PffDir
begin

text \<open>
  The correctness of the file system: reading and seeking refine a file of bytes, the decoding
  of the allocation table, the volume's type, directory search and names.
\<close>

subsection \<open>A volume\<close>

text \<open>
  A small FAT16 volume: its table in sector 1, its root directory in sector 2, its data from
  sector 3 on; a file \<open>A\<close> of 600 bytes in the clusters 2 and 3.
\<close>

definition demo_img :: "u32 \<Rightarrow> u8 list" where
  "demo_img s =
     (if s = 1 then [0xF8, 0xFF, 0xFF, 0xFF, 3, 0, 0xFF, 0xFF] @ replicate 504 0
      else if s = 2 then [0x41] @ replicate 10 0x20 @ [0x20] @ replicate 14 0 @ [2, 0, 0x58, 2, 0, 0] @ replicate 480 0
      else replicate 512 (ucast s))"

definition demo_rd :: disk where
  "demo_rd s off n = (if unat off + unat n \<le> 512 then Some (take (unat n) (drop (unat off) (demo_img s))) else None)"

definition demo_fs :: FATFS where
  "demo_fs = \<lparr>fs_type = FS_FAT16, flag = 0, csize = 1, n_rootdir = 16, n_fatent = 100, fatbase = 1, dirbase = 2, database = 3,
     fptr = 0, fsize = 0, org_clust = 0, curr_clust = 0, dsect = 0\<rparr>"

definition demo_open :: pff where
  "demo_open = \<lparr>FatFs = True, fs_object = demo_fs\<lparr>org_clust := 2, fsize := 600, flag := FA_OPENED\<rparr>\<rparr>"

definition demo_dj :: DIR where
  "demo_dj = \<lparr>index = 0, fn = replicate 12 0, sclust = 0, clust = 0, sect = 0\<rparr>"

lemma demo_serves: "serves demo_rd demo_img"
  by (simp add: serves_def demo_rd_def demo_img_def)

lemma demo_fat: "get_fat demo_rd (fs_object demo_open) 2 = 3"
  by (simp add: get_fat_def demo_rd_def demo_open_def demo_fs_def FS_FAT16_def FS_FAT12_def demo_img_def ld_word_def
      take_Cons' drop_Cons')

lemma demo_clusters: "n < 600 \<Longrightarrow> file_clust demo_rd (fs_object demo_open) n = (if n < 512 then 2 else 3)"
proof -
  assume n: "n < 600"
  have "n div 512 = (if n < 512 then 0 else Suc 0)" using n by (auto intro!: div_nat_eqI)
  then show ?thesis using demo_fat by (auto simp: file_clust_def demo_open_def demo_fs_def)
qed

lemma demo_file_ok: "file_ok demo_rd (fs_object demo_open)"
  using demo_clusters by (auto simp: file_ok_def csize_ok_def demo_open_def demo_fs_def clust2sect_def word_le_nat_alt)

lemma demo_open_file: "open_file demo_rd demo_img demo_open"
  using demo_serves demo_file_ok by (simp add: open_file_def file_inv_def) (simp add: demo_open_def demo_fs_def FA_OPENED_def)

lemma demo_content: "file_content demo_rd demo_img (fs_object demo_open) = replicate 512 3 @ replicate 88 4"
proof (rule nth_equalityI)
  show "length (file_content demo_rd demo_img (fs_object demo_open)) = length (replicate 512 (3 :: u8) @ replicate 88 4)"
    by (simp add: demo_open_def)
next
  fix i
  assume "i < length (file_content demo_rd demo_img (fs_object demo_open))"
  then have i: "i < 600" by (simp add: demo_open_def)
  have "file_sect demo_rd (fs_object demo_open) i = (if i < 512 then 3 else 4)"
    using demo_clusters [OF i] by (simp add: file_sect_def) (simp add: demo_open_def demo_fs_def clust2sect_def word_le_nat_alt)
  then show "file_content demo_rd demo_img (fs_object demo_open) ! i = (replicate 512 3 @ replicate 88 4) ! i"
    using i by (auto simp: file_content_def nth_append demo_img_def) (simp_all add: demo_open_def)
qed

lemmas demo_defs = demo_rd_def demo_img_def demo_fs_def demo_dj_def FS_FAT12_def FS_FAT16_def FS_FAT32_def AM_VOL_def AM_DIR_def
  DIR_Name_def DIR_Attr_def DIR_FstClusLO_def DIR_FileSize_def ld_word_def ld_dword_def

definition demo_dirent :: "u8 list" where
  "demo_dirent = [0x41, 0x20, 0x20, 0x20, 0x20, 0x20, 0x20, 0x20, 0x20, 0x20, 0x20, 0x20, 0, 0, 0, 0,
                  0, 0, 0, 0, 0, 0, 0, 0, 0, 0, 2, 0, 0x58, 2, 0, 0]"

definition demo_fn :: "u8 list" where
  "demo_fn = [0x41, 0x20, 0x20, 0x20, 0x20, 0x20, 0x20, 0x20, 0x20, 0x20, 0x20, 1]"

lemma demo_entry: "demo_rd 2 0 32 = Some demo_dirent"
  by (simp add: demo_rd_def demo_img_def demo_dirent_def take_Cons') (simp add: numeral_eq_Suc)

lemma demo_name: "create_name demo_dj [0x41, 0] = Some (demo_dj\<lparr>fn := demo_fn\<rparr>, [])"
  by (simp add: create_name_def mem_set_def demo_dj_def demo_fn_def) (simp add: list_update_code numeral_eq_Suc)

lemma demo_find: "dir_find demo_rd demo_fs (demo_dj\<lparr>fn := demo_fn\<rparr>) dir = (FR_OK, demo_dj\<lparr>fn := demo_fn, sect := 2\<rparr>, demo_dirent)"
  by (simp add: dir_find_def dir_rewind_def demo_dj_def demo_fs_def dir_find_loop.simps demo_entry FS_FAT32_def FS_FAT16_def
      DIR_Name_def DIR_Attr_def AM_VOL_def mem_cmp_eq demo_dirent_def demo_fn_def take_Cons')

lemma demo_follow:
  "follow_path demo_rd demo_fs demo_dj dir [0x41, 0] = Some (FR_OK, demo_dj\<lparr>fn := demo_fn, sect := 2\<rparr>, demo_dirent)"
proof -
  have "demo_dj\<lparr>sclust := 0\<rparr> = demo_dj" by (simp add: demo_dj_def)
  then show ?thesis
    by (simp add: follow_path_def strip_path_def follow_segments.simps demo_name demo_find) (simp add: demo_fn_def)
qed

lemma demo_pf_open: "pf_open demo_rd \<lparr>FatFs = True, fs_object = demo_fs\<rparr> demo_dj dir [0x41, 0] = Some (FR_OK, demo_open)"
proof -
  have "demo_fs\<lparr>flag := 0\<rparr> = demo_fs" by (simp add: demo_fs_def)
  then show ?thesis
    by (simp add: pf_open_def demo_follow) (simp add: DIR_Attr_def AM_DIR_def get_clust_def ld_word_def ld_dword_def
      DIR_FstClusLO_def DIR_FileSize_def demo_open_def demo_fs_def FS_FAT32_def FS_FAT16_def demo_dirent_def)
qed

definition demo_boot :: "u8 list" where
  "demo_boot = (replicate 512 0)[13 := 1, 14 := 1, 16 := 1, 17 := 16, 19 := 0xC8, 22 := 1, 54 := 0x46, 55 := 0x41, 510 := 0x55, 511 := 0xAA]"

definition boot_rd :: disk where
  "boot_rd s off n = (if unat off + unat n \<le> 512 then Some (take (unat n) (drop (unat off) demo_boot)) else None)"

lemma demo_boot_facts:
  "serves boot_rd (\<lambda>s. demo_boot)" "find_volume boot_rd = (0, 0)" "bpb_overhead demo_boot = 3" "bpb_total demo_boot = 200"
  "demo_boot ! BPB_SecPerClus = 1" "bpb_clusters demo_boot = 197"
proof -
  show "serves boot_rd (\<lambda>s. demo_boot)" by (simp add: serves_def boot_rd_def demo_boot_def)
  show "find_volume boot_rd = (0, 0)"
    by (simp add: find_volume_def check_fs_def boot_rd_def BS_FilSysType_def ld_word_def) (simp add: demo_boot_def)
  show o: "bpb_overhead demo_boot = 3"
    by (simp add: bpb_overhead_def bpb_fat_sectors_def ld_word_def BPB_RsvdSecCnt_def BPB_FATSz16_def BPB_NumFATs_def BPB_RootEntCnt_def demo_boot_def)
  show t: "bpb_total demo_boot = 200" by (simp add: bpb_total_def BPB_TotSec16_def ld_word_def demo_boot_def)
  show s: "demo_boot ! BPB_SecPerClus = 1" by (simp add: BPB_SecPerClus_def demo_boot_def)
  show "bpb_clusters demo_boot = 197" by (simp add: bpb_clusters_def o t s)
qed

subsection \<open>Properties\<close>

text \<open>
  C6. Reading from an open file refines reading from its bytes: \<^verbatim>\<open>pf_read\<close> succeeds, stores the bytes
  of the file from the file pointer on, at most as many as asked for and never past the end,
  advances the pointer by their number, and leaves the content and the file's invariant.
\<close>

theorem pf_read_refines:
  assumes "open_file rd img p"
  shows "\<exists>p'. pf_read rd p n =
      (FR_OK, take (unat n) (drop (unat (fptr (fs_object p))) (file_content rd img (fs_object p))), p') \<and>
    open_file rd img p' \<and> file_content rd img (fs_object p') = file_content rd img (fs_object p) \<and>
    unat (fptr (fs_object p')) = min (unat (fptr (fs_object p)) + unat n) (unat (fsize (fs_object p)))"
  using pf_read_ok [OF assms] .

theorem pf_read_refines_witness:
  "\<exists>p'. pf_read demo_rd demo_open 520 = (FR_OK, replicate 512 3 @ replicate 8 4, p') \<and> unat (fptr (fs_object p')) = 520"
proof -
  have f: "fptr (fs_object demo_open) = 0" "fsize (fs_object demo_open) = 600" by (simp_all add: demo_open_def demo_fs_def)
  show ?thesis using pf_read_refines [OF demo_open_file, of 520] unfolding f demo_content by auto
qed

text \<open>
  C7. Seeking and then reading returns the bytes at the offset sought, wherever the file pointer
  was before, whether the search restarts at the file's first cluster or continues from the
  current one; \<^verbatim>\<open>pf_lseek\<close> ends.
\<close>

theorem pf_lseek_then_read:
  assumes "open_file rd img p"
  shows "\<exists>p1 p2. pf_lseek rd p a = Some (FR_OK, p1) \<and>
    pf_read rd p1 n = (FR_OK, take (unat n) (drop (unat a) (file_content rd img (fs_object p))), p2)"
  by (rule fat_file.seek_read [OF assms, of a n]) blast

theorem pf_lseek_then_read_witness:
  "\<exists>p1 p2. pf_lseek demo_rd demo_open 510 = Some (FR_OK, p1) \<and> pf_read demo_rd p1 4 = (FR_OK, replicate 2 3 @ replicate 2 4, p2)"
  using pf_lseek_then_read [OF demo_open_file, of 510 4] by (simp add: demo_content)



text \<open>
  C8. An entry of the allocation table is decoded as the FAT format lays it out: its bits are those
  of the table from the entry's number times the entry width on, for entries of 12, 16 and 32
  bits (of which 28 are used), also where an entry of 12 bits crosses a sector boundary.
\<close>

theorem get_fat_decodes:
  assumes "serves rd img" "2 \<le> c" "c < n_fatent fs"
    and "fs_type fs = FS_FAT12 \<and> n_fatent fs \<le> 0xFF7 \<or> fs_type fs = FS_FAT16 \<or> fs_type fs = FS_FAT32"
  shows "bit (get_fat rd fs c) j \<longleftrightarrow> j < fat_used fs \<and> fat_bit img fs (fat_width fs * unat c + j)"
  using assms(4) get_fat12 [OF assms(1-3)] get_fat16 [OF assms(1-3)] get_fat32 [OF assms(1-3)]
  by (auto simp: fat_used_def fat_width_def FS_FAT12_def FS_FAT16_def FS_FAT32_def)

theorem get_fat_decodes_witness:
  "bit (get_fat demo_rd demo_fs 2) 1 \<longleftrightarrow> fat_bit demo_img demo_fs 33"
  using get_fat_decodes [OF demo_serves, of 2 demo_fs 1] by (simp add: demo_fs_def fat_used_def fat_width_def FS_FAT16_def FS_FAT12_def)

text \<open>
  C9. \<^verbatim>\<open>pf_mount\<close> on a FAT boot record whose areas fit in the volume computes the number of clusters
  and from it the type of the file system by the format's rule (FAT12 below 4085 clusters, FAT16
  below 65525, FAT32 from there on), and the first sectors of the table and of the data. A volume
  of exactly 4085 clusters is the exception: it is refused.
\<close>

theorem pf_mount_volume:
  assumes "serves rd img" "find_volume rd = (0, bs)"
    and "2 \<le> bpb_overhead (img bs)" "bpb_overhead (img bs) \<le> bpb_total (img bs)" "img bs ! BPB_SecPerClus \<noteq> 0"
  shows "\<exists>p. pf_mount False rd fs = Some (if bpb_clusters (img bs) = 4085 then FR_NO_FILESYSTEM else FR_OK, p) \<and>
    (FatFs p \<longleftrightarrow> bpb_clusters (img bs) \<noteq> 4085) \<and>
    (bpb_clusters (img bs) \<noteq> 4085 \<longrightarrow>
       fs_type (fs_object p) = fat_type (bpb_clusters (img bs)) \<and> unat (n_fatent (fs_object p)) = bpb_clusters (img bs) + 2 \<and>
       csize (fs_object p) = img bs ! BPB_SecPerClus \<and>
       fatbase (fs_object p) = bs + ucast (ld_word (img bs) BPB_RsvdSecCnt) \<and>
       database (fs_object p) = bs + of_nat (bpb_overhead (img bs)) \<and> flag (fs_object p) = 0)"
  using pf_mount_ok [OF assms(1,2) refl assms(3-5)] .

theorem pf_mount_volume_witness:
  "\<exists>p. pf_mount False boot_rd demo_fs = Some (FR_OK, p) \<and> fs_type (fs_object p) = FS_FAT12 \<and> unat (n_fatent (fs_object p)) = 199"
  using pf_mount_volume [OF demo_boot_facts(1,2), of demo_fs] demo_boot_facts(3-6) by (auto simp: fat_type_def)





end
