(* ===== verification/Digest.thy ===== *)
theory Digest
  imports Prelude
begin

text \<open>
  The message digests of the C library's password hashing (\<^verbatim>\<open>musl-1.2.3/src/crypt\<close>:
  \<^verbatim>\<open>crypt_md5.c\<close>, \<^verbatim>\<open>crypt_sha256.c\<close>, \<^verbatim>\<open>crypt_sha512.c\<close>). A context holds the length of the
  message so far, the chaining values and a buffer for an incomplete block; the three structs
  differ in the width of the chaining values and the size of the buffer. The definitions
  follow the files function by function; the functions named alike in the three files carry
  the name of the digest. A \<^verbatim>\<open>memcpy\<close> to offset \<open>r\<close> of the buffer replaces its bytes from \<open>r\<close> on.
\<close>

record 'w hash_ctx =
  len :: u64
  h :: "'w list"
  buf :: "u8 list"

definition copy_to :: "u8 list \<Rightarrow> nat \<Rightarrow> u8 list \<Rightarrow> u8 list" where
  "copy_to b r p = take r b @ p @ drop (r + length p) b"

subsection \<open>MD5\<close>

type_synonym md5 = "u32 hash_ctx"

definition rol :: "u32 \<Rightarrow> nat \<Rightarrow> u32" where
  "rol n k = push_bit k n OR drop_bit (32 - k) n"

definition md5_F :: "u32 \<Rightarrow> u32 \<Rightarrow> u32 \<Rightarrow> u32" where "md5_F x y z = z XOR (x AND (y XOR z))"
definition md5_G :: "u32 \<Rightarrow> u32 \<Rightarrow> u32 \<Rightarrow> u32" where "md5_G x y z = y XOR (z AND (y XOR x))"
definition md5_H :: "u32 \<Rightarrow> u32 \<Rightarrow> u32 \<Rightarrow> u32" where "md5_H x y z = x XOR y XOR z"
definition md5_I :: "u32 \<Rightarrow> u32 \<Rightarrow> u32 \<Rightarrow> u32" where "md5_I x y z = y XOR (x OR NOT z)"

definition md5_tab :: "u32 list" where
  "md5_tab =
     concat
      [[0xd76aa478, 0xe8c7b756, 0x242070db, 0xc1bdceee, 0xf57c0faf, 0x4787c62a, 0xa8304613, 0xfd469501],
       [0x698098d8, 0x8b44f7af, 0xffff5bb1, 0x895cd7be, 0x6b901122, 0xfd987193, 0xa679438e, 0x49b40821],
       [0xf61e2562, 0xc040b340, 0x265e5a51, 0xe9b6c7aa, 0xd62f105d, 0x02441453, 0xd8a1e681, 0xe7d3fbc8],
       [0x21e1cde6, 0xc33707d6, 0xf4d50d87, 0x455a14ed, 0xa9e3e905, 0xfcefa3f8, 0x676f02d9, 0x8d2a4c8a],
       [0xfffa3942, 0x8771f681, 0x6d9d6122, 0xfde5380c, 0xa4beea44, 0x4bdecfa9, 0xf6bb4b60, 0xbebfbc70],
       [0x289b7ec6, 0xeaa127fa, 0xd4ef3085, 0x04881d05, 0xd9d4d039, 0xe6db99e5, 0x1fa27cf8, 0xc4ac5665],
       [0xf4292244, 0x432aff97, 0xab9423a7, 0xfc93a039, 0x655b59c3, 0x8f0ccc92, 0xffeff47d, 0x85845dd1],
       [0x6fa87e4f, 0xfe2ce6e0, 0xa3014314, 0x4e0811a1, 0xf7537e82, 0xbd3af235, 0x2ad7d2bb, 0xeb86d391]]"

text \<open>One step of a round: the macros \<^verbatim>\<open>FF\<close>, \<^verbatim>\<open>GG\<close>, \<^verbatim>\<open>HH\<close> and \<^verbatim>\<open>II\<close> with their function \<open>f\<close>.\<close>

definition md5_step :: "(u32 \<Rightarrow> u32 \<Rightarrow> u32 \<Rightarrow> u32) \<Rightarrow> u32 \<Rightarrow> u32 \<Rightarrow> u32 \<Rightarrow> u32 \<Rightarrow> u32 \<Rightarrow> nat \<Rightarrow> u32 \<Rightarrow> u32" where
  "md5_step f a b c d w s t = rol (a + (f b c d + w + t)) s + b"

text \<open>One pass of a loop of \<^verbatim>\<open>processblock\<close>: four steps from \<open>i\<close> on, with the loop's choice of words and its shifts.\<close>

fun md5_round :: "(u32 \<Rightarrow> u32 \<Rightarrow> u32 \<Rightarrow> u32) \<Rightarrow> (nat \<Rightarrow> nat) \<Rightarrow> nat \<Rightarrow> nat \<Rightarrow> nat \<Rightarrow> nat \<Rightarrow> u32 list \<Rightarrow> nat \<Rightarrow> u32 \<times> u32 \<times> u32 \<times> u32 \<Rightarrow> u32 \<times> u32 \<times> u32 \<times> u32" where
  "md5_round f ix s1 s2 s3 s4 W i (a, b, c, d) =
     (let a = md5_step f a b c d (W ! ix i) s1 (md5_tab ! i);
          d = md5_step f d a b c (W ! ix (i + 1)) s2 (md5_tab ! (i + 1));
          c = md5_step f c d a b (W ! ix (i + 2)) s3 (md5_tab ! (i + 2));
          b = md5_step f b c d a (W ! ix (i + 3)) s4 (md5_tab ! (i + 3))
      in (a, b, c, d))"

definition md5_word :: "u8 list \<Rightarrow> nat \<Rightarrow> u32" where
  "md5_word b i =
     ucast (b ! (4 * i)) OR push_bit 8 (ucast (b ! (4 * i + 1))) OR push_bit 16 (ucast (b ! (4 * i + 2))) OR
     push_bit 24 (ucast (b ! (4 * i + 3)))"

definition md5_rounds :: "u8 list \<Rightarrow> u32 list \<Rightarrow> u32 \<times> u32 \<times> u32 \<times> u32" where
  "md5_rounds b v =
     (let W = map (md5_word b) [0..<16];
          x = (v ! 0, v ! 1, v ! 2, v ! 3);
          x = fold (md5_round md5_F (\<lambda>i. i) 7 12 17 22 W) [0, 4, 8, 12] x;
          x = fold (md5_round md5_G (\<lambda>i. (5 * i + 1) mod 16) 5 9 14 20 W) [16, 20, 24, 28] x;
          x = fold (md5_round md5_H (\<lambda>i. (3 * i + 5) mod 16) 4 11 16 23 W) [32, 36, 40, 44] x
      in fold (md5_round md5_I (\<lambda>i. 7 * i mod 16) 6 10 15 21 W) [48, 52, 56, 60] x)"

definition md5_processblock :: "md5 \<Rightarrow> u8 list \<Rightarrow> md5" where
  "md5_processblock s x =
     (case md5_rounds x (h s) of
        (a, b, c, d) \<Rightarrow> s\<lparr>h := [h s ! 0 + a, h s ! 1 + b, h s ! 2 + c, h s ! 3 + d]\<rparr>)"

definition md5_pad :: "md5 \<Rightarrow> md5" where
  "md5_pad s =
     (let r = unat (len s mod 64);
          s = s\<lparr>buf := copy_to (buf s) r [0x80]\<rparr>;
          r = r + 1;
          (s, r) = (if r > 56 then
                      let s = s\<lparr>buf := copy_to (buf s) r (replicate (64 - r) 0)\<rparr> in (md5_processblock s (buf s), 0)
                    else (s, r));
          s = s\<lparr>buf := copy_to (buf s) r (replicate (56 - r) 0)\<rparr>;
          s = s\<lparr>len := len s * 8\<rparr>;
          s = s\<lparr>buf := copy_to (buf s) 56
                 [ucast (len s), ucast (drop_bit 8 (len s)), ucast (drop_bit 16 (len s)), ucast (drop_bit 24 (len s)),
                  ucast (drop_bit 32 (len s)), ucast (drop_bit 40 (len s)), ucast (drop_bit 48 (len s)), ucast (drop_bit 56 (len s))]\<rparr>
      in md5_processblock s (buf s))"

definition md5_init :: "md5 \<Rightarrow> md5" where
  "md5_init s = s\<lparr>len := 0, h := [0x67452301, 0xefcdab89, 0x98badcfe, 0x10325476]\<rparr>"

definition md5_sum :: "md5 \<Rightarrow> u8 list" where
  "md5_sum s =
     (let s = md5_pad s in
      concat (map (\<lambda>i. [ucast (h s ! i), ucast (drop_bit 8 (h s ! i)), ucast (drop_bit 16 (h s ! i)), ucast (drop_bit 24 (h s ! i))]) [0..<4]))"

text \<open>The loop over whole blocks of \<^verbatim>\<open>md5_update\<close>: the context and the rest of the data.\<close>

function md5_blocks :: "md5 \<Rightarrow> u8 list \<Rightarrow> md5 \<times> u8 list" where
  "md5_blocks s p = (if length p \<ge> 64 then md5_blocks (md5_processblock s (take 64 p)) (drop 64 p) else (s, p))"
  by pat_completeness auto
termination
  by (relation "measure (\<lambda>(s, p). length p)") auto

declare md5_blocks.simps [simp del]

definition md5_update :: "md5 \<Rightarrow> u8 list \<Rightarrow> md5" where
  "md5_update s m =
     (let r = unat (len s mod 64);
          s = s\<lparr>len := len s + of_nat (length m)\<rparr>
      in if r \<noteq> 0 \<and> length m < 64 - r then s\<lparr>buf := copy_to (buf s) r m\<rparr>
         else
           let (s, p) = (if r \<noteq> 0 then
                           let s = s\<lparr>buf := copy_to (buf s) r (take (64 - r) m)\<rparr>
                           in (md5_processblock s (buf s), drop (64 - r) m)
                         else (s, m));
               (s, p) = md5_blocks s p
           in s\<lparr>buf := copy_to (buf s) 0 p\<rparr>)"

subsection \<open>SHA-256\<close>

type_synonym sha256 = "u32 hash_ctx"

definition ror32 :: "u32 \<Rightarrow> nat \<Rightarrow> u32" where
  "ror32 n k = drop_bit k n OR push_bit (32 - k) n"

definition sha256_Ch :: "u32 \<Rightarrow> u32 \<Rightarrow> u32 \<Rightarrow> u32" where "sha256_Ch x y z = z XOR (x AND (y XOR z))"
definition sha256_Maj :: "u32 \<Rightarrow> u32 \<Rightarrow> u32 \<Rightarrow> u32" where "sha256_Maj x y z = (x AND y) OR (z AND (x OR y))"
definition sha256_S0 :: "u32 \<Rightarrow> u32" where "sha256_S0 x = ror32 x 2 XOR ror32 x 13 XOR ror32 x 22"
definition sha256_S1 :: "u32 \<Rightarrow> u32" where "sha256_S1 x = ror32 x 6 XOR ror32 x 11 XOR ror32 x 25"
definition sha256_R0 :: "u32 \<Rightarrow> u32" where "sha256_R0 x = ror32 x 7 XOR ror32 x 18 XOR drop_bit 3 x"
definition sha256_R1 :: "u32 \<Rightarrow> u32" where "sha256_R1 x = ror32 x 17 XOR ror32 x 19 XOR drop_bit 10 x"

definition sha256_K :: "u32 list" where
  "sha256_K =
     concat
      [[0x428a2f98, 0x71374491, 0xb5c0fbcf, 0xe9b5dba5, 0x3956c25b, 0x59f111f1, 0x923f82a4, 0xab1c5ed5],
       [0xd807aa98, 0x12835b01, 0x243185be, 0x550c7dc3, 0x72be5d74, 0x80deb1fe, 0x9bdc06a7, 0xc19bf174],
       [0xe49b69c1, 0xefbe4786, 0x0fc19dc6, 0x240ca1cc, 0x2de92c6f, 0x4a7484aa, 0x5cb0a9dc, 0x76f988da],
       [0x983e5152, 0xa831c66d, 0xb00327c8, 0xbf597fc7, 0xc6e00bf3, 0xd5a79147, 0x06ca6351, 0x14292967],
       [0x27b70a85, 0x2e1b2138, 0x4d2c6dfc, 0x53380d13, 0x650a7354, 0x766a0abb, 0x81c2c92e, 0x92722c85],
       [0xa2bfe8a1, 0xa81a664b, 0xc24b8b70, 0xc76c51a3, 0xd192e819, 0xd6990624, 0xf40e3585, 0x106aa070],
       [0x19a4c116, 0x1e376c08, 0x2748774c, 0x34b0bcb5, 0x391c0cb3, 0x4ed8aa4a, 0x5b9cca4f, 0x682e6ff3],
       [0x748f82ee, 0x78a5636f, 0x84c87814, 0x8cc70208, 0x90befffa, 0xa4506ceb, 0xbef9a3f7, 0xc67178f2]]"

definition sha256_word :: "u8 list \<Rightarrow> nat \<Rightarrow> u32" where
  "sha256_word b i =
     push_bit 24 (ucast (b ! (4 * i))) OR push_bit 16 (ucast (b ! (4 * i + 1))) OR push_bit 8 (ucast (b ! (4 * i + 2))) OR ucast (b ! (4 * i + 3))"

definition sha256_schedule :: "u8 list \<Rightarrow> u32 list" where
  "sha256_schedule b =
     fold (\<lambda>i W. W @ [sha256_R1 (W ! (i - 2)) + W ! (i - 7) + sha256_R0 (W ! (i - 15)) + W ! (i - 16)]) [16..<64]
       (map (sha256_word b) [0..<16])"

fun sha256_round :: "u32 \<times> u32 \<Rightarrow> u32 \<times> u32 \<times> u32 \<times> u32 \<times> u32 \<times> u32 \<times> u32 \<times> u32 \<Rightarrow>
    u32 \<times> u32 \<times> u32 \<times> u32 \<times> u32 \<times> u32 \<times> u32 \<times> u32" where
  "sha256_round (k, w) (a, b, c, d, e, f, g, i) =
     (let t1 = i + sha256_S1 e + sha256_Ch e f g + k + w;
          t2 = sha256_S0 a + sha256_Maj a b c
      in (t1 + t2, a, b, c, d + t1, e, f, g))"

definition sha256_processblock :: "sha256 \<Rightarrow> u8 list \<Rightarrow> sha256" where
  "sha256_processblock s x =
     (case fold sha256_round (zip sha256_K (sha256_schedule x))
         (h s ! 0, h s ! 1, h s ! 2, h s ! 3, h s ! 4, h s ! 5, h s ! 6, h s ! 7) of
        (a, b, c, d, e, f, g, i) \<Rightarrow>
          s\<lparr>h := [h s ! 0 + a, h s ! 1 + b, h s ! 2 + c, h s ! 3 + d, h s ! 4 + e, h s ! 5 + f, h s ! 6 + g, h s ! 7 + i]\<rparr>)"

definition sha256_pad :: "sha256 \<Rightarrow> sha256" where
  "sha256_pad s =
     (let r = unat (len s mod 64);
          s = s\<lparr>buf := copy_to (buf s) r [0x80]\<rparr>;
          r = r + 1;
          (s, r) = (if r > 56 then
                      let s = s\<lparr>buf := copy_to (buf s) r (replicate (64 - r) 0)\<rparr> in (sha256_processblock s (buf s), 0)
                    else (s, r));
          s = s\<lparr>buf := copy_to (buf s) r (replicate (56 - r) 0)\<rparr>;
          s = s\<lparr>len := len s * 8\<rparr>;
          s = s\<lparr>buf := copy_to (buf s) 56
                 [ucast (drop_bit 56 (len s)), ucast (drop_bit 48 (len s)), ucast (drop_bit 40 (len s)), ucast (drop_bit 32 (len s)),
                  ucast (drop_bit 24 (len s)), ucast (drop_bit 16 (len s)), ucast (drop_bit 8 (len s)), ucast (len s)]\<rparr>
      in sha256_processblock s (buf s))"

definition sha256_init :: "sha256 \<Rightarrow> sha256" where
  "sha256_init s = s\<lparr>len := 0, h :=
     [0x6a09e667, 0xbb67ae85, 0x3c6ef372, 0xa54ff53a, 0x510e527f, 0x9b05688c, 0x1f83d9ab, 0x5be0cd19]\<rparr>"

definition sha256_sum :: "sha256 \<Rightarrow> u8 list" where
  "sha256_sum s =
     (let s = sha256_pad s in
      concat (map (\<lambda>i. [ucast (drop_bit 24 (h s ! i)), ucast (drop_bit 16 (h s ! i)), ucast (drop_bit 8 (h s ! i)), ucast (h s ! i)]) [0..<8]))"

function sha256_blocks :: "sha256 \<Rightarrow> u8 list \<Rightarrow> sha256 \<times> u8 list" where
  "sha256_blocks s p = (if length p \<ge> 64 then sha256_blocks (sha256_processblock s (take 64 p)) (drop 64 p) else (s, p))"
  by pat_completeness auto
termination
  by (relation "measure (\<lambda>(s, p). length p)") auto

declare sha256_blocks.simps [simp del]

definition sha256_update :: "sha256 \<Rightarrow> u8 list \<Rightarrow> sha256" where
  "sha256_update s m =
     (let r = unat (len s mod 64);
          s = s\<lparr>len := len s + of_nat (length m)\<rparr>
      in if r \<noteq> 0 \<and> length m < 64 - r then s\<lparr>buf := copy_to (buf s) r m\<rparr>
         else
           let (s, p) = (if r \<noteq> 0 then
                           let s = s\<lparr>buf := copy_to (buf s) r (take (64 - r) m)\<rparr>
                           in (sha256_processblock s (buf s), drop (64 - r) m)
                         else (s, m));
               (s, p) = sha256_blocks s p
           in s\<lparr>buf := copy_to (buf s) 0 p\<rparr>)"

subsection \<open>SHA-512\<close>

type_synonym sha512 = "u64 hash_ctx"

definition ror64 :: "u64 \<Rightarrow> nat \<Rightarrow> u64" where
  "ror64 n k = drop_bit k n OR push_bit (64 - k) n"

definition sha512_Ch :: "u64 \<Rightarrow> u64 \<Rightarrow> u64 \<Rightarrow> u64" where "sha512_Ch x y z = z XOR (x AND (y XOR z))"
definition sha512_Maj :: "u64 \<Rightarrow> u64 \<Rightarrow> u64 \<Rightarrow> u64" where "sha512_Maj x y z = (x AND y) OR (z AND (x OR y))"
definition sha512_S0 :: "u64 \<Rightarrow> u64" where "sha512_S0 x = ror64 x 28 XOR ror64 x 34 XOR ror64 x 39"
definition sha512_S1 :: "u64 \<Rightarrow> u64" where "sha512_S1 x = ror64 x 14 XOR ror64 x 18 XOR ror64 x 41"
definition sha512_R0 :: "u64 \<Rightarrow> u64" where "sha512_R0 x = ror64 x 1 XOR ror64 x 8 XOR drop_bit 7 x"
definition sha512_R1 :: "u64 \<Rightarrow> u64" where "sha512_R1 x = ror64 x 19 XOR ror64 x 61 XOR drop_bit 6 x"

definition sha512_K :: "u64 list" where
  "sha512_K =
     concat
      [[0x428a2f98d728ae22, 0x7137449123ef65cd, 0xb5c0fbcfec4d3b2f, 0xe9b5dba58189dbbc],
       [0x3956c25bf348b538, 0x59f111f1b605d019, 0x923f82a4af194f9b, 0xab1c5ed5da6d8118],
       [0xd807aa98a3030242, 0x12835b0145706fbe, 0x243185be4ee4b28c, 0x550c7dc3d5ffb4e2],
       [0x72be5d74f27b896f, 0x80deb1fe3b1696b1, 0x9bdc06a725c71235, 0xc19bf174cf692694],
       [0xe49b69c19ef14ad2, 0xefbe4786384f25e3, 0x0fc19dc68b8cd5b5, 0x240ca1cc77ac9c65],
       [0x2de92c6f592b0275, 0x4a7484aa6ea6e483, 0x5cb0a9dcbd41fbd4, 0x76f988da831153b5],
       [0x983e5152ee66dfab, 0xa831c66d2db43210, 0xb00327c898fb213f, 0xbf597fc7beef0ee4],
       [0xc6e00bf33da88fc2, 0xd5a79147930aa725, 0x06ca6351e003826f, 0x142929670a0e6e70],
       [0x27b70a8546d22ffc, 0x2e1b21385c26c926, 0x4d2c6dfc5ac42aed, 0x53380d139d95b3df],
       [0x650a73548baf63de, 0x766a0abb3c77b2a8, 0x81c2c92e47edaee6, 0x92722c851482353b],
       [0xa2bfe8a14cf10364, 0xa81a664bbc423001, 0xc24b8b70d0f89791, 0xc76c51a30654be30],
       [0xd192e819d6ef5218, 0xd69906245565a910, 0xf40e35855771202a, 0x106aa07032bbd1b8],
       [0x19a4c116b8d2d0c8, 0x1e376c085141ab53, 0x2748774cdf8eeb99, 0x34b0bcb5e19b48a8],
       [0x391c0cb3c5c95a63, 0x4ed8aa4ae3418acb, 0x5b9cca4f7763e373, 0x682e6ff3d6b2b8a3],
       [0x748f82ee5defb2fc, 0x78a5636f43172f60, 0x84c87814a1f0ab72, 0x8cc702081a6439ec],
       [0x90befffa23631e28, 0xa4506cebde82bde9, 0xbef9a3f7b2c67915, 0xc67178f2e372532b],
       [0xca273eceea26619c, 0xd186b8c721c0c207, 0xeada7dd6cde0eb1e, 0xf57d4f7fee6ed178],
       [0x06f067aa72176fba, 0x0a637dc5a2c898a6, 0x113f9804bef90dae, 0x1b710b35131c471b],
       [0x28db77f523047d84, 0x32caab7b40c72493, 0x3c9ebe0a15c9bebc, 0x431d67c49c100d4c],
       [0x4cc5d4becb3e42b6, 0x597f299cfc657e2a, 0x5fcb6fab3ad6faec, 0x6c44198c4a475817]]"

definition sha512_word :: "u8 list \<Rightarrow> nat \<Rightarrow> u64" where
  "sha512_word b i =
     push_bit 56 (ucast (b ! (8 * i))) OR push_bit 48 (ucast (b ! (8 * i + 1))) OR push_bit 40 (ucast (b ! (8 * i + 2))) OR push_bit 32 (ucast (b ! (8 * i + 3))) OR
     push_bit 24 (ucast (b ! (8 * i + 4))) OR push_bit 16 (ucast (b ! (8 * i + 5))) OR push_bit 8 (ucast (b ! (8 * i + 6))) OR ucast (b ! (8 * i + 7))"

definition sha512_schedule :: "u8 list \<Rightarrow> u64 list" where
  "sha512_schedule b =
     fold (\<lambda>i W. W @ [sha512_R1 (W ! (i - 2)) + W ! (i - 7) + sha512_R0 (W ! (i - 15)) + W ! (i - 16)]) [16..<80]
       (map (sha512_word b) [0..<16])"

fun sha512_round :: "u64 \<times> u64 \<Rightarrow> u64 \<times> u64 \<times> u64 \<times> u64 \<times> u64 \<times> u64 \<times> u64 \<times> u64 \<Rightarrow>
    u64 \<times> u64 \<times> u64 \<times> u64 \<times> u64 \<times> u64 \<times> u64 \<times> u64" where
  "sha512_round (k, w) (a, b, c, d, e, f, g, i) =
     (let t1 = i + sha512_S1 e + sha512_Ch e f g + k + w;
          t2 = sha512_S0 a + sha512_Maj a b c
      in (t1 + t2, a, b, c, d + t1, e, f, g))"

definition sha512_processblock :: "sha512 \<Rightarrow> u8 list \<Rightarrow> sha512" where
  "sha512_processblock s x =
     (case fold sha512_round (zip sha512_K (sha512_schedule x))
         (h s ! 0, h s ! 1, h s ! 2, h s ! 3, h s ! 4, h s ! 5, h s ! 6, h s ! 7) of
        (a, b, c, d, e, f, g, i) \<Rightarrow>
          s\<lparr>h := [h s ! 0 + a, h s ! 1 + b, h s ! 2 + c, h s ! 3 + d, h s ! 4 + e, h s ! 5 + f, h s ! 6 + g, h s ! 7 + i]\<rparr>)"

definition sha512_pad :: "sha512 \<Rightarrow> sha512" where
  "sha512_pad s =
     (let r = unat (len s mod 128);
          s = s\<lparr>buf := copy_to (buf s) r [0x80]\<rparr>;
          r = r + 1;
          (s, r) = (if r > 112 then
                      let s = s\<lparr>buf := copy_to (buf s) r (replicate (128 - r) 0)\<rparr> in (sha512_processblock s (buf s), 0)
                    else (s, r));
          s = s\<lparr>buf := copy_to (buf s) r (replicate (120 - r) 0)\<rparr>;
          s = s\<lparr>len := len s * 8\<rparr>;
          s = s\<lparr>buf := copy_to (buf s) 120
                 [ucast (drop_bit 56 (len s)), ucast (drop_bit 48 (len s)), ucast (drop_bit 40 (len s)), ucast (drop_bit 32 (len s)),
                  ucast (drop_bit 24 (len s)), ucast (drop_bit 16 (len s)), ucast (drop_bit 8 (len s)), ucast (len s)]\<rparr>
      in sha512_processblock s (buf s))"

definition sha512_init :: "sha512 \<Rightarrow> sha512" where
  "sha512_init s = s\<lparr>len := 0, h :=
     [0x6a09e667f3bcc908, 0xbb67ae8584caa73b, 0x3c6ef372fe94f82b, 0xa54ff53a5f1d36f1, 0x510e527fade682d1, 0x9b05688c2b3e6c1f, 0x1f83d9abfb41bd6b, 0x5be0cd19137e2179]\<rparr>"

definition sha512_sum :: "sha512 \<Rightarrow> u8 list" where
  "sha512_sum s =
     (let s = sha512_pad s in
      concat (map (\<lambda>i. [ucast (drop_bit 56 (h s ! i)), ucast (drop_bit 48 (h s ! i)), ucast (drop_bit 40 (h s ! i)), ucast (drop_bit 32 (h s ! i)), ucast (drop_bit 24 (h s ! i)), ucast (drop_bit 16 (h s ! i)), ucast (drop_bit 8 (h s ! i)), ucast (h s ! i)]) [0..<8]))"

function sha512_blocks :: "sha512 \<Rightarrow> u8 list \<Rightarrow> sha512 \<times> u8 list" where
  "sha512_blocks s p = (if length p \<ge> 128 then sha512_blocks (sha512_processblock s (take 128 p)) (drop 128 p) else (s, p))"
  by pat_completeness auto
termination
  by (relation "measure (\<lambda>(s, p). length p)") auto

declare sha512_blocks.simps [simp del]

definition sha512_update :: "sha512 \<Rightarrow> u8 list \<Rightarrow> sha512" where
  "sha512_update s m =
     (let r = unat (len s mod 128);
          s = s\<lparr>len := len s + of_nat (length m)\<rparr>
      in if r \<noteq> 0 \<and> length m < 128 - r then s\<lparr>buf := copy_to (buf s) r m\<rparr>
         else
           let (s, p) = (if r \<noteq> 0 then
                           let s = s\<lparr>buf := copy_to (buf s) r (take (128 - r) m)\<rparr>
                           in (sha512_processblock s (buf s), drop (128 - r) m)
                         else (s, m));
               (s, p) = sha512_blocks s p
           in s\<lparr>buf := copy_to (buf s) 0 p\<rparr>)"

end
