(* ===== verification/Strtol.thy ===== *)
theory Strtol
  imports ToString
begin

text \<open>
  Numbers from text in the C library (\<^verbatim>\<open>musl-1.2.3/src/internal/intscan.c\<close>,
  \<^verbatim>\<open>src/stdlib/strtol.c\<close>, \<^verbatim>\<open>atoi.c\<close>, \<^verbatim>\<open>atol.c\<close>, \<^verbatim>\<open>atoll.c\<close>). A string is the list of its bytes; the zero
  that ends it is implicit. Where the code holds the last character read in \<open>c\<close>, the model holds
  the rest of the string from that character on: \<^verbatim>\<open>c\<close> is its first character (\<open>peek\<close>), reading
  the next drops it, and the \<^verbatim>\<open>shunget\<close> before a return puts the stream back at it. The number
  of characters consumed (\<^verbatim>\<open>shcnt\<close>) is the third part of a result, \<^verbatim>\<open>errno\<close> the fourth.
\<close>

datatype scan_error = EINVAL | ERANGE

definition peek :: "u8 list \<Rightarrow> u8" where
  "peek t = (case t of [] \<Rightarrow> 0 | c # _ \<Rightarrow> c)"

definition isspace :: "u8 \<Rightarrow> bool" where
  "isspace c \<longleftrightarrow> c = 0x20 \<or> (ucast c :: u32) - 0x09 < 5"

definition isdigit :: "u8 \<Rightarrow> bool" where
  "isdigit c \<longleftrightarrow> (ucast c :: u32) - 0x30 < 10"

subsection \<open>The scanner\<close>

definition table :: "u8 list" where
  "table =
     [255,
      255, 255, 255, 255, 255, 255, 255, 255, 255, 255, 255, 255, 255, 255, 255, 255,
      255, 255, 255, 255, 255, 255, 255, 255, 255, 255, 255, 255, 255, 255, 255, 255,
      255, 255, 255, 255, 255, 255, 255, 255, 255, 255, 255, 255, 255, 255, 255, 255,
      0, 1, 2, 3, 4, 5, 6, 7, 8, 9, 255, 255, 255, 255, 255, 255,
      255, 10, 11, 12, 13, 14, 15, 16, 17, 18, 19, 20, 21, 22, 23, 24,
      25, 26, 27, 28, 29, 30, 31, 32, 33, 34, 35, 255, 255, 255, 255, 255,
      255, 10, 11, 12, 13, 14, 15, 16, 17, 18, 19, 20, 21, 22, 23, 24,
      25, 26, 27, 28, 29, 30, 31, 32, 33, 34, 35, 255, 255, 255, 255, 255,
      255, 255, 255, 255, 255, 255, 255, 255, 255, 255, 255, 255, 255, 255, 255, 255,
      255, 255, 255, 255, 255, 255, 255, 255, 255, 255, 255, 255, 255, 255, 255, 255,
      255, 255, 255, 255, 255, 255, 255, 255, 255, 255, 255, 255, 255, 255, 255, 255,
      255, 255, 255, 255, 255, 255, 255, 255, 255, 255, 255, 255, 255, 255, 255, 255,
      255, 255, 255, 255, 255, 255, 255, 255, 255, 255, 255, 255, 255, 255, 255, 255,
      255, 255, 255, 255, 255, 255, 255, 255, 255, 255, 255, 255, 255, 255, 255, 255,
      255, 255, 255, 255, 255, 255, 255, 255, 255, 255, 255, 255, 255, 255, 255, 255,
      255, 255, 255, 255, 255, 255, 255, 255, 255, 255, 255, 255, 255, 255, 255, 255]"

definition val :: "u8 \<Rightarrow> u8" where
  "val c = table ! (1 + unat c)"

text \<open>A loop \<^verbatim>\<open>for (...; ok; c = shgetc(f)) x = step;\<close> over the rest of the string.\<close>

fun scan_while :: "(u8 \<Rightarrow> 'a \<Rightarrow> bool) \<Rightarrow> ('a \<Rightarrow> u8 \<Rightarrow> 'a) \<Rightarrow> u8 list \<Rightarrow> 'a \<Rightarrow> 'a \<times> u8 list" where
  "scan_while ok step [] x = (x, [])"
| "scan_while ok step (c # t) x = (if ok c x then scan_while ok step t (step x c) else (x, c # t))"

definition shift_of :: "u32 \<Rightarrow> nat" where
  "shift_of base = [0, 1, 2, 4, 7, 3, 6, 5] ! unat (drop_bit 5 (0x17 * base) AND 7)"

text \<open>The conversion loops for base ten, for a power of two and for the other bases.\<close>

definition scan_digits :: "u32 \<Rightarrow> u8 list \<Rightarrow> u64 \<times> u8 list" where
  "scan_digits base t =
     (if base = 10 then
        (case scan_while (\<lambda>c x. isdigit c \<and> x \<le> 0xFFFFFFFF div 10 - 1) (\<lambda>x c. x * 10 + (ucast c - 0x30)) t (0 :: u32) of
           (x, t) \<Rightarrow>
             scan_while (\<lambda>c y. isdigit c \<and> y \<le> 0xFFFFFFFFFFFFFFFF div 10 \<and> 10 * y \<le> 0xFFFFFFFFFFFFFFFF - (ucast c - 0x30))
               (\<lambda>y c. y * 10 + (ucast c - 0x30)) t (ucast x))
      else if base AND (base - 1) = 0 then
        (let bs = shift_of base in
         case scan_while (\<lambda>c x. ucast (val c) < base \<and> x \<le> 0xFFFFFFFF div 32) (\<lambda>x c. push_bit bs x OR ucast (val c)) t (0 :: u32) of
           (x, t) \<Rightarrow>
             scan_while (\<lambda>c y. ucast (val c) < base \<and> y \<le> drop_bit bs 0xFFFFFFFFFFFFFFFF) (\<lambda>y c. push_bit bs y OR ucast (val c)) t (ucast x))
      else
        (case scan_while (\<lambda>c x. ucast (val c) < base \<and> x \<le> 0xFFFFFFFF div 36 - 1) (\<lambda>x c. x * base + ucast (val c)) t (0 :: u32) of
           (x, t) \<Rightarrow>
             scan_while (\<lambda>c y. ucast (val c) < base \<and> y \<le> 0xFFFFFFFFFFFFFFFF div ucast base \<and>
                 ucast base * y \<le> 0xFFFFFFFFFFFFFFFF - ucast (val c))
               (\<lambda>y c. y * ucast base + ucast (val c)) t (ucast x)))"

text \<open>From the conversion on: the rest of an overlong number is skipped, then the limit applies.\<close>

definition scan_finish :: "nat \<Rightarrow> u32 \<Rightarrow> u64 \<Rightarrow> bool \<Rightarrow> u8 list \<Rightarrow> u64 \<times> nat \<times> scan_error option" where
  "scan_finish n base lim neg t =
     (case scan_digits base t of
        (y, t) \<Rightarrow>
          let over = ucast (val (peek t)) < base;
              t = (if over then snd (scan_while (\<lambda>c u. ucast (val c) < base) (\<lambda>u c. u) t ()) else t);
              err = (if over then Some ERANGE else None);
              y = (if over then lim else y);
              neg = (if over \<and> lim AND 1 \<noteq> 0 then False else neg);
              cnt = n - length t
          in if y \<ge> lim \<and> lim AND 1 = 0 \<and> \<not> neg then (lim - 1, cnt, Some ERANGE)
             else if y \<ge> lim \<and> y > lim then (lim, cnt, Some ERANGE)
             else (if neg then - y else y, cnt, err))"

definition scan_sign :: "u8 list \<Rightarrow> bool \<times> u8 list" where
  "scan_sign t = (if peek t = 0x2B \<or> peek t = 0x2D then (peek t = 0x2D, tl t) else (False, t))"

definition intscan :: "u8 list \<Rightarrow> u32 \<Rightarrow> bool \<Rightarrow> u64 \<Rightarrow> u64 \<times> nat \<times> scan_error option" where
  "intscan s base pok lim =
     (if base > 36 \<or> base = 1 then (0, 0, Some EINVAL)
      else case scan_sign (dropWhile isspace s) of
        (neg, t) \<Rightarrow>
          if (base = 0 \<or> base = 16) \<and> peek t = 0x30 then
            let t = tl t in
            if peek t OR 32 = 0x78 then
              (if val (peek (tl t)) \<ge> 16 then (0, if pok then length s - length t else 0, None)
               else scan_finish (length s) 16 lim neg (tl t))
            else scan_finish (length s) (if base = 0 then 8 else base) lim neg t
          else
            let base = (if base = 0 then 10 else base) in
            if ucast (val (peek t)) \<ge> base then (0, 0, Some EINVAL)
            else scan_finish (length s) base lim neg t)"

subsection \<open>The functions of the library\<close>

definition strtox :: "u8 list \<Rightarrow> u32 \<Rightarrow> u64 \<Rightarrow> u64 \<times> nat \<times> scan_error option" where
  "strtox s base lim = intscan s base True lim"

definition strtoull :: "u8 list \<Rightarrow> u32 \<Rightarrow> u64 \<times> nat \<times> scan_error option" where
  "strtoull s base = strtox s base 0xFFFFFFFFFFFFFFFF"

definition strtoll :: "u8 list \<Rightarrow> u32 \<Rightarrow> u64 \<times> nat \<times> scan_error option" where
  "strtoll s base = strtox s base 0x8000000000000000"

definition strtoul :: "u8 list \<Rightarrow> u32 \<Rightarrow> u64 \<times> nat \<times> scan_error option" where
  "strtoul s base = strtox s base 0xFFFFFFFFFFFFFFFF"

definition strtol :: "u8 list \<Rightarrow> u32 \<Rightarrow> u64 \<times> nat \<times> scan_error option" where
  "strtol s base = strtox s base 0x8000000000000000"

definition strtoimax :: "u8 list \<Rightarrow> u32 \<Rightarrow> u64 \<times> nat \<times> scan_error option" where
  "strtoimax s base = strtoll s base"

definition strtoumax :: "u8 list \<Rightarrow> u32 \<Rightarrow> u64 \<times> nat \<times> scan_error option" where
  "strtoumax s base = strtoull s base"

text \<open>
  The numbers of \<^verbatim>\<open>atoi\<close> and \<^verbatim>\<open>atol\<close> are accumulated as negative numbers; a character is signed in
  \<^verbatim>\<open>*s++ - '0'\<close>, but only digits get there. Overflow is undefined in C; the model wraps.
\<close>

definition atox :: "u8 list \<Rightarrow> 'w::len word" where
  "atox s =
     (case scan_sign (dropWhile isspace s) of
        (neg, s) \<Rightarrow>
          let n = fst (scan_while (\<lambda>c n. isdigit c) (\<lambda>n c. 10 * n - (ucast c - 0x30)) s 0)
          in if neg then n else - n)"

definition atoi :: "u8 list \<Rightarrow> u32" where "atoi s = atox s"
definition atol :: "u8 list \<Rightarrow> u64" where "atol s = atox s"
definition atoll :: "u8 list \<Rightarrow> u64" where "atoll s = atox s"

end
