(* ===== verification/Crypt.thy ===== *)
theory Crypt
  imports Digest Strtol
begin

text \<open>
  Password hashing in the C library: the functions \<^verbatim>\<open>md5crypt\<close>, \<^verbatim>\<open>sha256crypt\<close> and \<^verbatim>\<open>sha512crypt\<close>
  of \<^verbatim>\<open>musl-1.2.3/src/crypt\<close> and their wrappers with the self test. Strings are lists of
  non-zero bytes, as in theory \<open>Strtol\<close>; a null pointer returned is \<open>None\<close>. The local context
  of a digest is uninitialised when a function starts, so its contents are an argument, and
  it is handed on from one digest to the next as the code reuses it.
\<close>

subsection \<open>Strings\<close>

text \<open>The position of the terminating zero, or \<open>n\<close> when the first \<open>n\<close> bytes have none.\<close>

definition strnlen :: "u8 list \<Rightarrow> nat \<Rightarrow> nat" where
  "strnlen s n = (if length s < n then length s else n)"

fun strncmp :: "u8 list \<Rightarrow> u8 list \<Rightarrow> nat \<Rightarrow> int" where
  "strncmp l r 0 = 0"
| "strncmp l r (Suc n) =
     (if peek l \<noteq> 0 \<and> peek r \<noteq> 0 \<and> n \<noteq> 0 \<and> peek l = peek r then strncmp (tl l) (tl r) n
      else uint (peek l) - uint (peek r))"

definition chars :: "string \<Rightarrow> u8 list" where
  "chars = map (\<lambda>c. of_char c)"

subsection \<open>Base 64\<close>

definition b64 :: "u8 list" where
  "b64 = chars ''./0123456789ABCDEFGHIJKLMNOPQRSTUVWXYZabcdefghijklmnopqrstuvwxyz''"

primrec to64 :: "u32 \<Rightarrow> nat \<Rightarrow> u8 list" where
  "to64 u 0 = []"
| "to64 u (Suc n) = b64 ! unat (u mod 64) # to64 (u div 64) n"

text \<open>Three bytes of a digest at a time, in the order of a table \<open>perm\<close>.\<close>

definition triples64 :: "u8 list \<Rightarrow> (nat \<times> nat \<times> nat) list \<Rightarrow> u8 list" where
  "triples64 md perm =
     concat (map (\<lambda>(i, j, k). to64 (push_bit 16 (ucast (md ! i)) OR push_bit 8 (ucast (md ! j)) OR ucast (md ! k)) 4) perm)"

subsection \<open>Parts shared by the functions\<close>

text \<open>The loop over the salt: its length, or \<open>None\<close> where a character is refused.\<close>

primrec scan_salt :: "(u8 \<Rightarrow> bool) \<Rightarrow> nat \<Rightarrow> u8 list \<Rightarrow> nat option" where
  "scan_salt refused 0 s = Some 0"
| "scan_salt refused (Suc n) s =
     (if peek s = 0 \<or> peek s = 0x24 then Some 0
      else if refused (peek s) then None
      else map_option Suc (scan_salt refused n (tl s)))"

text \<open>The pieces that the loop \<^verbatim>\<open>for (i = n; i > w; i -= w) update(md, w); update(md, i)\<close> hashes.\<close>

function repeated :: "nat \<Rightarrow> nat \<Rightarrow> u8 list \<Rightarrow> u8 list list" where
  "repeated w i md = (if i > w \<and> 0 < w then md # repeated w (i - w) md else [take i md])"
  by pat_completeness auto
termination
  by (relation "measure (\<lambda>(w, i, md). i)") auto

declare repeated.simps [simp del]

text \<open>The pieces of the loop \<^verbatim>\<open>for (i = klen; i > 0; i >>= 1)\<close>: one for a set bit, one for a clear bit.\<close>

function by_bits :: "nat \<Rightarrow> u8 list \<Rightarrow> u8 list \<Rightarrow> u8 list list" where
  "by_bits i odd_piece even_piece =
     (if i = 0 then [] else (if i mod 2 = 1 then odd_piece else even_piece) # by_bits (i div 2) odd_piece even_piece)"
  by pat_completeness auto
termination
  by (relation "measure (\<lambda>(i, p, q). i)") auto

declare by_bits.simps [simp del]

subsection \<open>MD5 passwords\<close>

text \<open>A context initialised, fed the pieces and summed: the digest and the context after the padding.\<close>

definition md5_run :: "md5 \<Rightarrow> u8 list list \<Rightarrow> u8 list \<times> md5" where
  "md5_run ctx xs = (let ctx = foldl md5_update (md5_init ctx) xs in (md5_sum ctx, md5_pad ctx))"

definition md5_iterate :: "u8 list \<Rightarrow> u8 list \<Rightarrow> nat \<Rightarrow> u8 list \<times> md5 \<Rightarrow> u8 list \<times> md5" where
  "md5_iterate key salt i s =
     (case s of (md, ctx) \<Rightarrow>
        md5_run ctx
          ([if i mod 2 \<noteq> 0 then key else md] @
           (if i mod 3 \<noteq> 0 then [salt] else []) @
           (if i mod 7 \<noteq> 0 then [key] else []) @
           [if i mod 2 \<noteq> 0 then md else key]))"

definition md5_hash :: "md5 \<Rightarrow> u8 list \<Rightarrow> u8 list \<Rightarrow> u8 list \<Rightarrow> u8 list" where
  "md5_hash ctx key setting salt =
     (let klen = length key;
          (md, ctx) = md5_run ctx [key, salt, key];
          md' = md[0 := 0];
          (md, ctx) = md5_run ctx ([key, take (3 + length salt) setting] @ repeated 16 klen md @ by_bits klen (take 1 md') (take 1 key));
          (md, ctx) = fold (md5_iterate key salt) [0..<1000] (md, ctx)
      in md)"

definition md5_perm :: "(nat \<times> nat \<times> nat) list" where
  "md5_perm = [(0, 6, 12), (1, 7, 13), (2, 8, 14), (3, 9, 15), (4, 10, 5)]"

definition md5crypt :: "md5 \<Rightarrow> u8 list \<Rightarrow> u8 list \<Rightarrow> u8 list option" where
  "md5crypt ctx key setting =
     (let klen = strnlen key (30000 + 1) in
      if klen > 30000 then None
      else if strncmp setting (chars ''$1$'') 3 \<noteq> 0 then None
      else
        case scan_salt (\<lambda>c. False) 8 (drop 3 setting) of
          None \<Rightarrow> None
        | Some slen \<Rightarrow>
            let md = md5_hash ctx key setting (take slen (drop 3 setting))
            in Some (take (3 + slen) setting @ chars ''$'' @ triples64 md md5_perm @ to64 (ucast (md ! 11)) 2))"

definition test_key :: "u8 list" where
  "test_key = chars ''Xy01@#'' @ [0x01, 0x02, 0x80, 0x7F, 0xFF, 0x0D, 0x0A, 0x81, 0x09] @ chars '' !''"

text \<open>The wrapper: \<open>ctx'\<close> is the uninitialised context of the second call.\<close>

definition crypt_md5 :: "md5 \<Rightarrow> md5 \<Rightarrow> u8 list \<Rightarrow> u8 list \<Rightarrow> u8 list" where
  "crypt_md5 ctx ctx' key setting =
     (let p = md5crypt ctx key setting;
          q = md5crypt ctx' test_key (chars ''$1$abcd0123$'')
      in if p = None \<or> q \<noteq> Some (chars ''$1$abcd0123$9Qcg8DyviekV3tDGMZynJ1'') then chars ''*'' else the p)"

subsection \<open>SHA-2 passwords\<close>

text \<open>
  The optional part \<^verbatim>\<open>rounds=n$\<close> of a setting: the number of rounds, its text in the output (what
  \<^verbatim>\<open>sprintf\<close> writes for it) and the rest of the setting.
\<close>

definition parse_rounds :: "u8 list \<Rightarrow> (u64 \<times> u8 list \<times> u8 list) option" where
  "parse_rounds salt =
     (if strncmp salt (chars ''rounds='') 7 = 0 then
        let salt = drop 7 salt in
        if \<not> isdigit (peek salt) then None
        else
          case strtoul salt 10 of
            (u, cnt, err) \<Rightarrow>
              let e = drop cnt salt in
              if peek e \<noteq> 0x24 then None
              else if u > 9999999 then None
              else
                let r = (if u < 1000 then 1000 else u)
                in Some (r, chars ''rounds='' @ decimal (unat r) @ chars ''$'', tl e)
      else Some (5000, [], salt))"

text \<open>
  The computation of the two files, which differ in the digest \<open>run\<close> and its size \<open>w\<close> only: the
  digests \<open>B\<close>, \<open>A\<close>, \<open>DP\<close>, \<open>DS\<close> and the iteration.
\<close>

definition sha_iterate :: "('c \<Rightarrow> u8 list list \<Rightarrow> u8 list \<times> 'c) \<Rightarrow> nat \<Rightarrow> nat \<Rightarrow> nat \<Rightarrow> u8 list \<Rightarrow> u8 list \<Rightarrow> nat \<Rightarrow> u8 list \<times> 'c \<Rightarrow> u8 list \<times> 'c" where
  "sha_iterate run w klen slen kmd smd i s =
     (case s of (md, ctx) \<Rightarrow>
        run ctx
          ((if i mod 2 \<noteq> 0 then repeated w klen kmd else [md]) @
           (if i mod 3 \<noteq> 0 then [take slen smd] else []) @
           (if i mod 7 \<noteq> 0 then repeated w klen kmd else []) @
           (if i mod 2 \<noteq> 0 then [md] else repeated w klen kmd)))"

definition sha_hash :: "('c \<Rightarrow> u8 list list \<Rightarrow> u8 list \<times> 'c) \<Rightarrow> nat \<Rightarrow> 'c \<Rightarrow> u8 list \<Rightarrow> u8 list \<Rightarrow> nat \<Rightarrow> u8 list" where
  "sha_hash run w ctx key salt r =
     (let klen = length key;
          slen = length salt;
          (md, ctx) = run ctx [key, salt, key];
          (md, ctx) = run ctx ([key, salt] @ repeated w klen md @ by_bits klen md key);
          (kmd, ctx) = run ctx (replicate klen key);
          (smd, ctx) = run ctx (replicate (16 + unat (md ! 0)) salt);
          (md, ctx) = fold (sha_iterate run w klen slen kmd smd) [0..<r] (md, ctx)
      in md)"

definition refused :: "u8 \<Rightarrow> bool" where
  "refused c \<longleftrightarrow> c = 0x0A \<or> c = 0x3A"

definition sha256_run :: "sha256 \<Rightarrow> u8 list list \<Rightarrow> u8 list \<times> sha256" where
  "sha256_run ctx xs = (let ctx = foldl sha256_update (sha256_init ctx) xs in (sha256_sum ctx, sha256_pad ctx))"

definition sha256_perm :: "(nat \<times> nat \<times> nat) list" where
  "sha256_perm =
     [(0, 10, 20), (21, 1, 11), (12, 22, 2), (3, 13, 23), (24, 4, 14), (15, 25, 5), (6, 16, 26), (27, 7, 17), (18, 28, 8), (9, 19, 29)]"

definition sha256crypt :: "sha256 \<Rightarrow> u8 list \<Rightarrow> u8 list \<Rightarrow> u8 list option" where
  "sha256crypt ctx key setting =
     (let klen = strnlen key (256 + 1) in
      if klen > 256 then None
      else if strncmp setting (chars ''$5$'') 3 \<noteq> 0 then None
      else
        case parse_rounds (drop 3 setting) of
          None \<Rightarrow> None
        | Some (r, rounds, salt) \<Rightarrow>
            case scan_salt refused 16 salt of
              None \<Rightarrow> None
            | Some slen \<Rightarrow>
                let md = sha_hash sha256_run 32 ctx key (take slen salt) (unat r)
                in Some (chars ''$5$'' @ rounds @ take slen salt @ chars ''$'' @ triples64 md sha256_perm @
                     to64 (push_bit 8 (ucast (md ! 31)) OR ucast (md ! 30)) 3))"

definition crypt_sha256 :: "sha256 \<Rightarrow> sha256 \<Rightarrow> u8 list \<Rightarrow> u8 list \<Rightarrow> u8 list" where
  "crypt_sha256 ctx ctx' key setting =
     (let p = sha256crypt ctx key setting;
          q = sha256crypt ctx' test_key (chars ''$5$rounds=1234$abc0123456789$'')
      in if p = None \<or> q \<noteq> Some (chars ''$5$rounds=1234$abc0123456789$3VfDjPt05VHFn47C/ojFZ6KRPYrOjj1lLbH.dkF3bZ6'')
         then chars ''*'' else the p)"

definition sha512_run :: "sha512 \<Rightarrow> u8 list list \<Rightarrow> u8 list \<times> sha512" where
  "sha512_run ctx xs = (let ctx = foldl sha512_update (sha512_init ctx) xs in (sha512_sum ctx, sha512_pad ctx))"

definition sha512_perm :: "(nat \<times> nat \<times> nat) list" where
  "sha512_perm =
     [(0, 21, 42), (22, 43, 1), (44, 2, 23), (3, 24, 45), (25, 46, 4),
      (47, 5, 26), (6, 27, 48), (28, 49, 7), (50, 8, 29), (9, 30, 51),
      (31, 52, 10), (53, 11, 32), (12, 33, 54), (34, 55, 13), (56, 14, 35),
      (15, 36, 57), (37, 58, 16), (59, 17, 38), (18, 39, 60), (40, 61, 19),
      (62, 20, 41)]"

text \<open>The key is measured by a loop \<^verbatim>\<open>for (i = 0; i <= KEY_MAX && key[i]; i++)\<close> here.\<close>

definition sha512crypt :: "sha512 \<Rightarrow> u8 list \<Rightarrow> u8 list \<Rightarrow> u8 list option" where
  "sha512crypt ctx key setting =
     (let klen = length (takeWhile (\<lambda>c. c \<noteq> 0) (take 257 key)) in
      if klen > 256 then None
      else if strncmp setting (chars ''$6$'') 3 \<noteq> 0 then None
      else
        case parse_rounds (drop 3 setting) of
          None \<Rightarrow> None
        | Some (r, rounds, salt) \<Rightarrow>
            case scan_salt refused 16 salt of
              None \<Rightarrow> None
            | Some slen \<Rightarrow>
                let md = sha_hash sha512_run 64 ctx key (take slen salt) (unat r)
                in Some (chars ''$6$'' @ rounds @ take slen salt @ chars ''$'' @ triples64 md sha512_perm @ to64 (ucast (md ! 63)) 2))"

definition crypt_sha512 :: "sha512 \<Rightarrow> sha512 \<Rightarrow> u8 list \<Rightarrow> u8 list \<Rightarrow> u8 list" where
  "crypt_sha512 ctx ctx' key setting =
     (let p = sha512crypt ctx key setting;
          q = sha512crypt ctx' test_key (chars ''$6$rounds=1234$abc0123456789$'')
      in if p = None \<or> q \<noteq> Some (chars ''$6$rounds=1234$abc0123456789$BCpt8zLrc/RcyuXmCDOE1ALqMXB2MH6n1g891HhFj8.w7LxGv.FTkqq6Vxc/km3Y0jE0j24jY5PIv/oOu6reg1'')
         then chars ''*'' else the p)"

end
