(* ===== verification/DigestStandard.thy ===== *)
theory DigestStandard
  imports Digest
begin

text \<open>
  The compression functions of the digests as RFC 1321 and FIPS 180 state them (choice and
  majority in their textbook form, rotations of the word, the message schedule by its
  recurrence, sixty-four uniform steps), and that the code's rewritten forms compute them.
\<close>

subsection \<open>Functions on words\<close>

definition choice :: "'w::len word \<Rightarrow> 'w word \<Rightarrow> 'w word \<Rightarrow> 'w word" where
  "choice x y z = (x AND y) XOR (NOT x AND z)"

definition majority :: "'w::len word \<Rightarrow> 'w word \<Rightarrow> 'w word \<Rightarrow> 'w word" where
  "majority x y z = (x AND y) XOR (x AND z) XOR (y AND z)"

lemma choice_code: "z XOR (x AND (y XOR z)) = choice x y (z :: 'w::len word)"
  by (rule bit_word_eqI) (auto simp: choice_def bit_simps)

lemma majority_code: "(x AND y) OR (z AND (x OR y)) = majority x y (z :: 'w::len word)"
  by (rule bit_word_eqI) (auto simp: majority_def bit_simps)

lemma rotate_code:
  fixes n :: "'w::len word"
  assumes "0 < k" "k < LENGTH('w)"
  shows "drop_bit k n OR push_bit (LENGTH('w) - k) n = word_rotr k n"
proof (rule bit_word_eqI)
  fix i assume i: "i < LENGTH('w)"
  show "bit (drop_bit k n OR push_bit (LENGTH('w) - k) n) i \<longleftrightarrow> bit (word_rotr k n) i"
  proof (cases "k + i < LENGTH('w)")
    case True
    then show ?thesis using i assms by (auto simp: bit_simps add.commute)
  next
    case False
    then have "\<not> bit n (k + i)" "(k + i) mod LENGTH('w) = k + i - LENGTH('w)"
      using i assms impossible_bit [of "k + i" n] by (auto simp: mod_if not_less)
    then show ?thesis using i assms False by (auto simp: bit_simps add.commute)
  qed
qed

subsection \<open>SHA-2\<close>

function message_schedule :: "('w::len word \<Rightarrow> 'w word) \<Rightarrow> ('w word \<Rightarrow> 'w word) \<Rightarrow> 'w word list \<Rightarrow> nat \<Rightarrow> 'w word" where
  "message_schedule r0 r1 M t =
     (if t < 16 then M ! t
      else r1 (message_schedule r0 r1 M (t - 2)) + message_schedule r0 r1 M (t - 7) +
        r0 (message_schedule r0 r1 M (t - 15)) + message_schedule r0 r1 M (t - 16))"
  by pat_completeness auto
termination
  by (relation "measure (\<lambda>(r0, r1, M, t). t)") auto

declare message_schedule.simps [simp del]

lemma schedule_code:
  assumes "length M = 16" "16 \<le> n"
  shows "fold (\<lambda>i W. W @ [r1 (W ! (i - 2)) + W ! (i - 7) + r0 (W ! (i - 15)) + W ! (i - 16)]) [16..<n] M =
    map (message_schedule r0 r1 M) [0..<n]"
  using assms(2)
proof (induction n rule: dec_induct)
  case base
  show ?case using assms(1) by (auto simp: message_schedule.simps intro!: nth_equalityI)
next
  case (step n)
  have i: "map (message_schedule r0 r1 M) [0..<n] ! (n - k) = message_schedule r0 r1 M (n - k)"
    if "0 < k" "k \<le> 16" for k
    using that step.hyps by simp
  have u: "[16..<Suc n] = [16..<n] @ [n]" "[0..<Suc n] = [0..<n] @ [n]" using step.hyps by simp_all
  show ?case
    unfolding u fold_append o_apply step.IH map_append
    using i [of 2] i [of 7] i [of 15] i [of 16] message_schedule.simps [of r0 r1 M n] step.hyps by (simp del: upt_Suc)
qed

type_synonym 'w registers = "'w \<times> 'w \<times> 'w \<times> 'w \<times> 'w \<times> 'w \<times> 'w \<times> 'w"

fun sha2_step :: "('w::len word \<Rightarrow> 'w word) \<Rightarrow> ('w word \<Rightarrow> 'w word) \<Rightarrow> 'w word \<times> 'w word \<Rightarrow> 'w word registers \<Rightarrow> 'w word registers" where
  "sha2_step S0 S1 (k, w) (a, b, c, d, e, f, g, i) =
     (let T1 = i + S1 e + choice e f g + k + w; T2 = S0 a + majority a b c
      in (T1 + T2, a, b, c, d + T1, e, f, g))"

definition sha2_compress ::
  "('w::len word \<Rightarrow> 'w word) \<Rightarrow> ('w word \<Rightarrow> 'w word) \<Rightarrow> ('w word \<Rightarrow> 'w word) \<Rightarrow> ('w word \<Rightarrow> 'w word) \<Rightarrow> 'w word list \<Rightarrow>
    'w word list \<Rightarrow> 'w word list \<Rightarrow> 'w word list" where
  "sha2_compress S0 S1 r0 r1 K v M =
     (case fold (sha2_step S0 S1) (zip K (map (message_schedule r0 r1 M) [0..<length K])) (v ! 0, v ! 1, v ! 2, v ! 3, v ! 4, v ! 5, v ! 6, v ! 7) of
        (a, b, c, d, e, f, g, i) \<Rightarrow> [v ! 0 + a, v ! 1 + b, v ! 2 + c, v ! 3 + d, v ! 4 + e, v ! 5 + f, v ! 6 + g, v ! 7 + i])"

text \<open>SHA-256 on a block of 64 bytes, SHA-512 on one of 128.\<close>

definition sha256_compress :: "u32 list \<Rightarrow> u8 list \<Rightarrow> u32 list" where
  "sha256_compress v b =
     sha2_compress (\<lambda>x. word_rotr 2 x XOR word_rotr 13 x XOR word_rotr 22 x) (\<lambda>x. word_rotr 6 x XOR word_rotr 11 x XOR word_rotr 25 x)
       (\<lambda>x. word_rotr 7 x XOR word_rotr 18 x XOR drop_bit 3 x) (\<lambda>x. word_rotr 17 x XOR word_rotr 19 x XOR drop_bit 10 x)
       sha256_K v (map (sha256_word b) [0..<16])"

definition sha512_compress :: "u64 list \<Rightarrow> u8 list \<Rightarrow> u64 list" where
  "sha512_compress v b =
     sha2_compress (\<lambda>x. word_rotr 28 x XOR word_rotr 34 x XOR word_rotr 39 x) (\<lambda>x. word_rotr 14 x XOR word_rotr 18 x XOR word_rotr 41 x)
       (\<lambda>x. word_rotr 1 x XOR word_rotr 8 x XOR drop_bit 7 x) (\<lambda>x. word_rotr 19 x XOR word_rotr 61 x XOR drop_bit 6 x)
       sha512_K v (map (sha512_word b) [0..<16])"

lemma ror32_code: "0 < k \<Longrightarrow> k < 32 \<Longrightarrow> ror32 n k = word_rotr k n"
  using rotate_code [of k n] by (simp add: ror32_def)

lemma ror64_code: "0 < k \<Longrightarrow> k < 64 \<Longrightarrow> ror64 n k = word_rotr k n"
  using rotate_code [of k n] by (simp add: ror64_def)

lemmas sha256_functions = sha256_Ch_def sha256_Maj_def sha256_S0_def sha256_S1_def sha256_R0_def sha256_R1_def
  ror32_code choice_code majority_code

lemmas sha512_functions = sha512_Ch_def sha512_Maj_def sha512_S0_def sha512_S1_def sha512_R0_def sha512_R1_def
  ror64_code choice_code majority_code

lemma length_K: "length sha256_K = 64" "length sha512_K = 80"
  by (simp_all add: sha256_K_def sha512_K_def)

lemma sha256_round_step:
  "sha256_round = sha2_step (\<lambda>x. word_rotr 2 x XOR word_rotr 13 x XOR word_rotr 22 x) (\<lambda>x. word_rotr 6 x XOR word_rotr 11 x XOR word_rotr 25 x)"
  by (intro ext) (auto simp: sha256_functions)

lemma sha512_round_step:
  "sha512_round = sha2_step (\<lambda>x. word_rotr 28 x XOR word_rotr 34 x XOR word_rotr 39 x) (\<lambda>x. word_rotr 14 x XOR word_rotr 18 x XOR word_rotr 41 x)"
  by (intro ext) (auto simp: sha512_functions)

lemma sha256_schedule_code:
  "sha256_schedule b = map (message_schedule (\<lambda>x. word_rotr 7 x XOR word_rotr 18 x XOR drop_bit 3 x)
     (\<lambda>x. word_rotr 17 x XOR word_rotr 19 x XOR drop_bit 10 x) (map (sha256_word b) [0..<16])) [0..<64]"
proof -
  have r: "sha256_R0 = (\<lambda>x. word_rotr 7 x XOR word_rotr 18 x XOR drop_bit 3 x)"
    "sha256_R1 = (\<lambda>x. word_rotr 17 x XOR word_rotr 19 x XOR drop_bit 10 x)"
    by (simp_all add: fun_eq_iff sha256_functions)
  show ?thesis unfolding sha256_schedule_def r by (rule schedule_code) simp_all
qed

lemma sha512_schedule_code:
  "sha512_schedule b = map (message_schedule (\<lambda>x. word_rotr 1 x XOR word_rotr 8 x XOR drop_bit 7 x)
     (\<lambda>x. word_rotr 19 x XOR word_rotr 61 x XOR drop_bit 6 x) (map (sha512_word b) [0..<16])) [0..<80]"
proof -
  have r: "sha512_R0 = (\<lambda>x. word_rotr 1 x XOR word_rotr 8 x XOR drop_bit 7 x)"
    "sha512_R1 = (\<lambda>x. word_rotr 19 x XOR word_rotr 61 x XOR drop_bit 6 x)"
    by (simp_all add: fun_eq_iff sha512_functions)
  show ?thesis unfolding sha512_schedule_def r by (rule schedule_code) simp_all
qed

lemma sha256_process: "sha256_processblock s b = s\<lparr>h := sha256_compress (h s) b\<rparr>"
  unfolding sha256_processblock_def sha256_compress_def sha2_compress_def length_K sha256_schedule_code sha256_round_step
  by (simp only: split: prod.split) simp

lemma sha512_process: "sha512_processblock s b = s\<lparr>h := sha512_compress (h s) b\<rparr>"
  unfolding sha512_processblock_def sha512_compress_def sha2_compress_def length_K sha512_schedule_code sha512_round_step
  by (simp only: split: prod.split) simp

subsection \<open>MD5\<close>

text \<open>Step \<open>i\<close> of the sixty-four: its function, its word and its rotation.\<close>

definition md5_f :: "nat \<Rightarrow> u32 \<Rightarrow> u32 \<Rightarrow> u32 \<Rightarrow> u32" where
  "md5_f i x y z =
     (if i < 16 then (x AND y) OR (NOT x AND z) else if i < 32 then (x AND z) OR (y AND NOT z)
      else if i < 48 then x XOR y XOR z else y XOR (x OR NOT z))"

definition md5_g :: "nat \<Rightarrow> nat" where
  "md5_g i = (if i < 16 then i else if i < 32 then (5 * i + 1) mod 16 else if i < 48 then (3 * i + 5) mod 16 else 7 * i mod 16)"

definition md5_s :: "nat \<Rightarrow> nat" where
  "md5_s i = [7, 12, 17, 22, 5, 9, 14, 20, 4, 11, 16, 23, 6, 10, 15, 21] ! (4 * (i div 16) + i mod 4)"

fun md5_standard_step :: "u32 list \<Rightarrow> nat \<Rightarrow> u32 \<times> u32 \<times> u32 \<times> u32 \<Rightarrow> u32 \<times> u32 \<times> u32 \<times> u32" where
  "md5_standard_step X i (a, b, c, d) = (d, b + word_rotl (md5_s i) (a + md5_f i b c d + X ! md5_g i + md5_tab ! i), b, c)"

definition md5_compress :: "u32 list \<Rightarrow> u8 list \<Rightarrow> u32 list" where
  "md5_compress v x =
     (case fold (md5_standard_step (map (md5_word x) [0..<16])) [0..<64] (v ! 0, v ! 1, v ! 2, v ! 3) of
        (a, b, c, d) \<Rightarrow> [v ! 0 + a, v ! 1 + b, v ! 2 + c, v ! 3 + d])"

lemma md5_functions:
  "md5_F x y z = (x AND y) OR (NOT x AND z)" "md5_G x y z = (x AND z) OR (y AND NOT z)"
  by (rule bit_word_eqI; auto simp: md5_F_def md5_G_def bit_simps)+

lemma rol_code: "0 < k \<Longrightarrow> k < 32 \<Longrightarrow> rol n k = word_rotl k n"
  using rotate_code [of "32 - k" n] by (simp add: rol_def or.commute word_rotl_eq_word_rotr)

lemma md5_round_steps:
  assumes "map md5_f [i, i + 1, i + 2, i + 3] = [f, f, f, f]"
    and "map md5_g [i, i + 1, i + 2, i + 3] = map ix [i, i + 1, i + 2, i + 3]"
    and "map md5_s [i, i + 1, i + 2, i + 3] = [s1, s2, s3, s4]"
    and "\<forall>s \<in> {s1, s2, s3, s4}. 0 < s \<and> s < 32"
  shows "md5_round f ix s1 s2 s3 s4 X i x = fold (md5_standard_step X) [i, i + 1, i + 2, i + 3] x"
proof -
  obtain a b c d where x: "x = (a, b, c, d)" by (cases x)
  have st: "md5_step f a b c d w s t = b + word_rotl s (a + f b c d + w + t)" if "0 < s" "s < 32" for a b c d w s t
    using that by (simp add: md5_step_def rol_code ac_simps)
  have s: "0 < s1" "s1 < 32" "0 < s2" "s2 < 32" "0 < s3" "s3 < 32" "0 < s4" "s4 < 32" using assms(4) by simp_all
  show ?thesis using assms(1-3) unfolding x
    by (simp only: md5_round.simps Let_def fold.simps md5_standard_step.simps list.map list.inject st s o_apply id_apply)
qed

lemma md5_groups:
  "[0..<64] = concat (map (\<lambda>i. [i, i + 1, i + 2, i + 3]) [0, 4, 8, 12, 16, 20, 24, 28, 32, 36, 40, 44, 48, 52, 56, 60 :: nat])"
  by (simp add: upt_conv_Cons)

lemma md5_first: "i \<in> {0, 4, 8, 12} \<Longrightarrow>
    md5_round md5_F (\<lambda>i. i) 7 12 17 22 X i = fold (md5_standard_step X) [i, i + 1, i + 2, i + 3]"
  by (rule ext, rule md5_round_steps) (auto simp: md5_f_def md5_g_def md5_s_def fun_eq_iff md5_functions)

lemma md5_second: "i \<in> {16, 20, 24, 28} \<Longrightarrow>
    md5_round md5_G (\<lambda>i. (5 * i + 1) mod 16) 5 9 14 20 X i = fold (md5_standard_step X) [i, i + 1, i + 2, i + 3]"
  by (rule ext, rule md5_round_steps) (auto simp: md5_f_def md5_g_def md5_s_def fun_eq_iff md5_functions)

lemma md5_third: "i \<in> {32, 36, 40, 44} \<Longrightarrow>
    md5_round md5_H (\<lambda>i. (3 * i + 5) mod 16) 4 11 16 23 X i = fold (md5_standard_step X) [i, i + 1, i + 2, i + 3]"
  by (rule ext, rule md5_round_steps) (auto simp: md5_f_def md5_g_def md5_s_def fun_eq_iff md5_H_def)

lemma md5_fourth: "i \<in> {48, 52, 56, 60} \<Longrightarrow>
    md5_round md5_I (\<lambda>i. 7 * i mod 16) 6 10 15 21 X i = fold (md5_standard_step X) [i, i + 1, i + 2, i + 3]"
  by (rule ext, rule md5_round_steps) (auto simp: md5_f_def md5_g_def md5_s_def fun_eq_iff md5_I_def)

lemma md5_process: "md5_processblock s b = s\<lparr>h := md5_compress (h s) b\<rparr>"
proof -
  have "md5_rounds b v = fold (md5_standard_step (map (md5_word b) [0..<16])) [0..<64] (v ! 0, v ! 1, v ! 2, v ! 3)" for v
    unfolding md5_groups md5_rounds_def Let_def
    by (simp only: list.map concat.simps append_Nil2 fold_append fold.simps o_apply id_apply
        md5_first md5_second md5_third md5_fourth insertI1 insertI2)
  then show ?thesis by (simp add: md5_processblock_def md5_compress_def del: upt_rec_numeral split: prod.split)
qed

end
