(* ===== verification/DigestCorrect.thy ===== *)
theory DigestCorrect
  imports DigestStandard
begin

text \<open>
  A digest computed piece by piece is the digest of the whole message. The reference pads the
  message (a set bit, the smallest number of zero bytes, the length in bits) and compresses
  its blocks from left to right; a context represents a message when its length, its chaining
  values and the bytes waiting in its buffer are those of the message.
\<close>

subsection \<open>The interface of a digest\<close>

locale message_digest =
  fixes rep :: "'s \<Rightarrow> u8 list \<Rightarrow> bool" and fresh :: "'s \<Rightarrow> bool"
    and init :: "'s \<Rightarrow> 's" and update :: "'s \<Rightarrow> u8 list \<Rightarrow> 's" and sum :: "'s \<Rightarrow> u8 list" and digest :: "u8 list \<Rightarrow> u8 list"
  assumes rep_init: "fresh s \<Longrightarrow> rep (init s) []"
    and rep_update: "rep s m \<Longrightarrow> rep (update s x) (m @ x)"
    and rep_sum: "rep s m \<Longrightarrow> sum s = digest m"
begin

lemma rep_updates: "rep s m \<Longrightarrow> rep (foldl update s xs) (m @ concat xs)"
proof (induction xs arbitrary: s m)
  case (Cons x xs)
  then show ?case using Cons.IH [OF rep_update [OF Cons.prems, of x]] by simp
qed simp

lemma sum_updates: "fresh s \<Longrightarrow> sum (foldl update (init s) xs) = digest (concat xs)"
  using rep_sum [OF rep_updates [OF rep_init]] by simp

lemma sum_split_invariant: "fresh s \<Longrightarrow> fresh s' \<Longrightarrow> concat xs = concat ys \<Longrightarrow>
    sum (foldl update (init s) xs) = sum (foldl update (init s') ys)"
  by (simp add: sum_updates)

end

subsection \<open>Blocks\<close>

definition blocks_of :: "nat \<Rightarrow> u8 list \<Rightarrow> u8 list list" where
  "blocks_of bs m = map (\<lambda>i. take bs (drop (i * bs) m)) [0..<length m div bs]"

definition rest_of :: "nat \<Rightarrow> u8 list \<Rightarrow> u8 list" where
  "rest_of bs m = drop (length m - length m mod bs) m"

definition zero_count :: "nat \<Rightarrow> nat \<Rightarrow> nat \<Rightarrow> nat" where
  "zero_count bs lim n = (bs + lim - (n + 1) mod bs) mod bs"

text \<open>The padding: the length field starts \<open>lim\<close> bytes into the last block and its last eight bytes are given by \<open>enc\<close>.\<close>

definition padding :: "nat \<Rightarrow> nat \<Rightarrow> (u64 \<Rightarrow> u8 list) \<Rightarrow> nat \<Rightarrow> u8 list" where
  "padding bs lim enc n = 0x80 # replicate (zero_count bs lim n + (bs - 8 - lim)) 0 @ enc (of_nat (8 * n))"

lemma blocks_of_short: "length m < bs \<Longrightarrow> blocks_of bs m = []"
  by (simp add: blocks_of_def)

lemma blocks_of_block: "0 < bs \<Longrightarrow> length b = bs \<Longrightarrow> blocks_of bs (b @ m) = b # blocks_of bs m"
proof -
  assume bs: "0 < bs" "length b = bs"
  have "[0..<length (b @ m) div bs] = 0 # map Suc [0..<length m div bs]"
    using bs div_add_self1 [of bs "length m"] by (simp add: map_Suc_upt upt_conv_Cons del: upt_Suc div_add_self1)
  then show ?thesis using bs by (simp add: blocks_of_def)
qed

lemma blocks_of_append: "0 < bs \<Longrightarrow> bs dvd length m \<Longrightarrow> blocks_of bs (m @ x) = blocks_of bs m @ blocks_of bs x"
proof (induction "length m" arbitrary: m rule: less_induct)
  case less
  show ?case
  proof (cases "m = []")
    case True
    then show ?thesis by (simp add: blocks_of_def)
  next
    case False
    with less.prems have l: "bs \<le> length m" by (simp add: dvd_imp_le)
    define b m' where "b = take bs m" and "m' = drop bs m"
    have m: "m = b @ m'" "length b = bs" using l by (simp_all add: b_def m'_def)
    have "length m' < length m" "bs dvd length m'" using less.prems False l by (auto simp: m'_def)
    from less.hyps [OF this(1) less.prems(1) this(2)] show ?thesis
      using less.prems(1) m by (simp add: blocks_of_block)
  qed
qed

lemma zero_count_short:
  assumes "Suc (n mod bs) \<le> lim" "lim < bs"
  shows "zero_count bs lim n = lim - Suc (n mod bs)"
proof -
  have "zero_count bs lim n = (bs + lim - Suc (n mod bs)) mod bs" using assms by (simp add: zero_count_def mod_Suc)
  also have "bs + lim - Suc (n mod bs) = bs + (lim - Suc (n mod bs))" using assms by simp
  finally show ?thesis using assms by (simp del: diff_Suc_eq_diff_pred Nat.add_diff_assoc)
qed

lemma zero_count_long:
  assumes "lim < Suc (n mod bs)" "lim < bs"
  shows "zero_count bs lim n = bs - Suc (n mod bs) + lim"
proof -
  have b: "n mod bs < bs" using assms(2) by simp
  show ?thesis
  proof (cases "Suc (n mod bs) = bs")
    case True
    then show ?thesis using assms by (simp add: zero_count_def mod_Suc)
  next
    case False
    then have "bs + lim - Suc (n mod bs) < bs" "bs + lim - Suc (n mod bs) = bs - Suc (n mod bs) + lim" using assms b by linarith+
    then show ?thesis using False by (simp add: zero_count_def mod_Suc)
  qed
qed

lemma rest_of_short: "length m < bs \<Longrightarrow> rest_of bs m = m"
  by (simp add: rest_of_def)

lemma length_rest_of [simp]: "length (rest_of bs m) = length m mod bs"
  by (simp add: rest_of_def)

lemma rest_of_append: "bs dvd length m \<Longrightarrow> rest_of bs (m @ x) = rest_of bs x"
proof -
  assume "bs dvd length m"
  then have "(length m + length x) mod bs = length x mod bs" by (auto elim: dvdE)
  then show ?thesis by (simp add: rest_of_def) (simp add: le_diff_conv2 trans_le_add2)
qed

lemma rest_of_split:
  obtains full where "m = full @ rest_of bs m" "bs dvd length full"
proof
  show "m = take (length m - length m mod bs) m @ rest_of bs m" by (simp add: rest_of_def)
  show "bs dvd length (take (length m - length m mod bs) m)" by simp
qed

lemma length_copy_to [simp]: "r + length p \<le> length b \<Longrightarrow> length (copy_to b r p) = length b"
  by (simp add: copy_to_def)

lemma copy_to_append: "length a = r \<Longrightarrow> copy_to (a @ t) r p = a @ p @ drop (length p) t"
  by (simp add: copy_to_def)

lemma take_copy_to: "r \<le> length b \<Longrightarrow> take (r + length p) (copy_to b r p) = take r b @ p"
  by (simp add: copy_to_def)

definition chain :: "nat \<Rightarrow> ('w list \<Rightarrow> u8 list \<Rightarrow> 'w list) \<Rightarrow> 'w list \<Rightarrow> u8 list \<Rightarrow> 'w list" where
  "chain bs compress h0 m = foldl compress h0 (blocks_of bs m)"

text \<open>The digest of a whole message.\<close>

definition block_digest ::
  "nat \<Rightarrow> nat \<Rightarrow> (u64 \<Rightarrow> u8 list) \<Rightarrow> ('w list \<Rightarrow> u8 list) \<Rightarrow> ('w list \<Rightarrow> u8 list \<Rightarrow> 'w list) \<Rightarrow> 'w list \<Rightarrow> u8 list \<Rightarrow> u8 list" where
  "block_digest bs lim enc emit compress h0 m = emit (chain bs compress h0 (m @ padding bs lim enc (length m)))"

definition hash_rep :: "nat \<Rightarrow> ('w list \<Rightarrow> u8 list \<Rightarrow> 'w list) \<Rightarrow> 'w list \<Rightarrow> 'w hash_ctx \<Rightarrow> u8 list \<Rightarrow> bool" where
  "hash_rep bs compress h0 s m \<longleftrightarrow> length (buf s) = bs \<and> len s = of_nat (length m) \<and> h s = chain bs compress h0 m \<and>
     take (length m mod bs) (buf s) = rest_of bs m"

lemma chain_blocks_append: "0 < bs \<Longrightarrow> bs dvd length m \<Longrightarrow> chain bs c h0 (m @ x) = chain bs c (chain bs c h0 m) x"
  by (simp add: chain_def blocks_of_append)

lemma chain_short: "length m < bs \<Longrightarrow> chain bs c h0 m = h0"
  by (simp add: chain_def blocks_of_short)

lemma chain_block: "0 < bs \<Longrightarrow> length b = bs \<Longrightarrow> chain bs c h0 (b @ m) = chain bs c (c h0 b) m"
  by (simp add: chain_def blocks_of_block)

subsection \<open>A digest over blocks\<close>

text \<open>The shape the three files share, with the block size \<open>bs\<close> and the place \<open>lim\<close> of the length field.\<close>

locale block_hash =
  fixes bs lim :: nat and h0 :: "'w list" and compress :: "'w list \<Rightarrow> u8 list \<Rightarrow> 'w list" and enc :: "u64 \<Rightarrow> u8 list"
    and emit :: "'w list \<Rightarrow> u8 list"
    and process :: "'w hash_ctx \<Rightarrow> u8 list \<Rightarrow> 'w hash_ctx" and init :: "'w hash_ctx \<Rightarrow> 'w hash_ctx"
    and loop :: "'w hash_ctx \<Rightarrow> u8 list \<Rightarrow> 'w hash_ctx \<times> u8 list"
    and update :: "'w hash_ctx \<Rightarrow> u8 list \<Rightarrow> 'w hash_ctx" and pad :: "'w hash_ctx \<Rightarrow> 'w hash_ctx" and sum :: "'w hash_ctx \<Rightarrow> u8 list"
  assumes lim_less: "0 < lim" "lim + 8 \<le> bs" and bs_dvd: "bs dvd 2 ^ 64" and enc_length: "length (enc n) = 8"
    and process_law: "process s b = s\<lparr>h := compress (h s) b\<rparr>"
    and init_law: "init s = s\<lparr>len := 0, h := h0\<rparr>"
    and loop_law: "loop s p = (if length p \<ge> bs then loop (process s (take bs p)) (drop bs p) else (s, p))"
    and update_law: "update s m =
      (let r = unat (len s) mod bs;
           s = s\<lparr>len := len s + of_nat (length m)\<rparr>
       in if r \<noteq> 0 \<and> length m < bs - r then s\<lparr>buf := copy_to (buf s) r m\<rparr>
          else
            let (s, p) = (if r \<noteq> 0 then
                            let s = s\<lparr>buf := copy_to (buf s) r (take (bs - r) m)\<rparr>
                            in (process s (buf s), drop (bs - r) m)
                          else (s, m));
                (s, p) = loop s p
            in s\<lparr>buf := copy_to (buf s) 0 p\<rparr>)"
    and pad_law: "pad s =
      (let r = unat (len s) mod bs;
           s = s\<lparr>buf := copy_to (buf s) r [0x80]\<rparr>;
           r = r + 1;
           (s, r) = (if r > lim then
                       let s = s\<lparr>buf := copy_to (buf s) r (replicate (bs - r) 0)\<rparr> in (process s (buf s), 0)
                     else (s, r));
           s = s\<lparr>buf := copy_to (buf s) r (replicate (bs - 8 - r) 0)\<rparr>;
           s = s\<lparr>len := len s * 8\<rparr>;
           s = s\<lparr>buf := copy_to (buf s) (bs - 8) (enc (len s))\<rparr>
       in process s (buf s))"
    and sum_law: "sum s = emit (h (pad s))"
begin

lemma bs_pos: "0 < bs"
  using lim_less by simp

lemma len_mod: "len s = of_nat n \<Longrightarrow> unat (len s) mod bs = n mod bs"
  using bs_dvd by (simp add: unat_of_nat mod_mod_cancel)

lemma loop_eq: "loop s p = (s\<lparr>h := chain bs compress (h s) p\<rparr>, rest_of bs p)"
proof (induction "length p" arbitrary: s p rule: less_induct)
  case less
  show ?case
  proof (cases "length p \<ge> bs")
    case False
    then show ?thesis by (subst loop_law) (simp add: chain_short rest_of_short)
  next
    case True
    define b q where "b = take bs p" and "q = drop bs p"
    have p: "p = b @ q" "length b = bs" using True by (simp_all add: b_def q_def)
    have "loop s p = loop (process s b) q" using True by (subst loop_law) (simp add: b_def q_def)
    moreover have "length q < length p" using True bs_pos by (simp add: q_def)
    ultimately show ?thesis
      using less.hyps [of q "process s b"] bs_pos p by (simp add: process_law chain_block rest_of_append)
  qed
qed

lemma update_rest:
  assumes s: "length (buf s) = bs" "take r (buf s) = rest" "length rest = r" "r < bs" "unat (len s) mod bs = r"
    and full: "\<not> (r \<noteq> 0 \<and> length x < bs - r)"
  shows "\<exists>b. length b = bs \<and> update s x = s\<lparr>len := len s + of_nat (length x), h := chain bs compress (h s) (rest @ x),
    buf := copy_to b 0 (rest_of bs (rest @ x))\<rparr>"
proof (cases "r = 0")
  case True
  then have "update s x = s\<lparr>len := len s + of_nat (length x), h := chain bs compress (h s) (rest @ x),
      buf := copy_to (buf s) 0 (rest_of bs (rest @ x))\<rparr>"
    using s by (simp add: update_law Let_def loop_eq)
  then show ?thesis using s(1) by blast
next
  case False
  define b where "b = rest @ take (bs - r) x"
  have l: "length b = bs" using s(3,4) full False by (simp add: b_def)
  have c: "copy_to (buf s) r (take (bs - r) x) = b" using s l full False by (simp add: copy_to_def b_def)
  have p: "rest @ x = b @ drop (bs - r) x" by (simp add: b_def)
  have "update s x = s\<lparr>len := len s + of_nat (length x), h := chain bs compress (h s) (rest @ x),
      buf := copy_to b 0 (rest_of bs (rest @ x))\<rparr>"
    unfolding p using s(5) full False l bs_pos c
    by (simp add: update_law Let_def loop_eq process_law chain_block rest_of_append)
  then show ?thesis using l by blast
qed

lemma rep_update_law:
  assumes rep: "hash_rep bs compress h0 s m"
  shows "hash_rep bs compress h0 (update s x) (m @ x)"
proof -
  define r where "r = length m mod bs"
  define rest where "rest = rest_of bs m"
  obtain full where m: "m = full @ rest" "bs dvd length full" using rest_of_split [of m bs] by (auto simp: rest_def)
  have s: "length (buf s) = bs" "take r (buf s) = rest" "length rest = r" "r < bs" "unat (len s) mod bs = r"
    using rep bs_pos len_mod [of s "length m"] by (auto simp: hash_rep_def r_def rest_def)
  have hs: "h s = chain bs compress h0 full"
    using rep m bs_pos s(3,4) by (simp add: hash_rep_def chain_blocks_append chain_short)
  have c: "chain bs compress h0 (m @ x) = chain bs compress (h s) (rest @ x)" "rest_of bs (m @ x) = rest_of bs (rest @ x)"
    "length (m @ x) mod bs = length (rest @ x) mod bs"
    using m bs_pos hs by (simp_all add: chain_blocks_append rest_of_append) (auto elim: dvdE)
  have len: "len s = of_nat (length m)" using rep by (simp add: hash_rep_def)
  show ?thesis
  proof (cases "r \<noteq> 0 \<and> length x < bs - r")
    case True
    then have "update s x = s\<lparr>len := len s + of_nat (length x), buf := copy_to (buf s) r x\<rparr>"
      using s(5) by (simp add: update_law Let_def)
    moreover have "length (rest @ x) < bs" "r \<le> bs" using True s(3,4) by auto
    moreover have "take (length (rest @ x)) (copy_to (buf s) r x) = rest @ x"
      using take_copy_to [of r "buf s" x] s(1-4) by simp
    ultimately show ?thesis
      unfolding hash_rep_def c using s(1,3) len by (simp add: chain_short rest_of_short)
  next
    case False
    then obtain b where b: "length b = bs" "update s x = s\<lparr>len := len s + of_nat (length x), h := chain bs compress (h s) (rest @ x),
        buf := copy_to b 0 (rest_of bs (rest @ x))\<rparr>"
      using update_rest [OF s] by blast
    have "length (rest_of bs (rest @ x)) < bs" using bs_pos by simp
    then show ?thesis
      unfolding hash_rep_def c b(2) using b(1) len take_copy_to [of 0 b "rest_of bs (rest @ x)"] by simp
  qed
qed

lemma pad_short:
  assumes s: "length (buf s) = bs" "take r (buf s) = rest" "length rest = r" "r < bs" "unat (len s) mod bs = r" and r: "Suc r \<le> lim"
  shows "h (pad s) = compress (h s) (rest @ 0x80 # replicate (bs - 8 - Suc r) 0 @ enc (len s * 8))"
proof -
  define b where "b = rest @ 0x80 # replicate (bs - 8 - Suc r) 0 @ enc (len s * 8)"
  obtain t where t: "buf s = rest @ t" "length t = bs - r" using s(1-3) append_take_drop_id [of r "buf s"] by (metis length_drop)
  define z where "z = replicate (bs - 8 - Suc r) (0 :: u8)"
  have "copy_to (buf s) r [0x80] = (rest @ [0x80]) @ drop 1 t" using t s(3) by (simp add: copy_to_append)
  moreover have "copy_to ((rest @ [0x80]) @ drop 1 t) (Suc r) z = (rest @ 0x80 # z) @ drop (bs - 8 - Suc r) (drop 1 t)"
    using s(3) by (subst copy_to_append) (simp_all add: z_def)
  moreover have "copy_to ((rest @ 0x80 # z) @ drop (bs - 8 - Suc r) (drop 1 t)) (bs - 8) (enc (len s * 8)) = b"
    using s(3,4) r lim_less t by (subst copy_to_append) (simp_all add: z_def b_def enc_length)
  ultimately have "copy_to (copy_to (copy_to (buf s) r [0x80]) (Suc r) (replicate (bs - 8 - Suc r) 0)) (bs - 8) (enc (len s * 8)) = b"
    by (simp add: z_def)
  then show ?thesis using s(5) r by (simp add: pad_law Let_def process_law b_def)
qed

lemma pad_long:
  assumes s: "length (buf s) = bs" "take r (buf s) = rest" "length rest = r" "r < bs" "unat (len s) mod bs = r" and r: "lim < Suc r"
  shows "h (pad s) = compress (compress (h s) (rest @ 0x80 # replicate (bs - Suc r) 0)) (replicate (bs - 8) 0 @ enc (len s * 8))"
proof -
  define b where "b = rest @ 0x80 # replicate (bs - Suc r) 0"
  define b' where "b' = replicate (bs - 8) 0 @ enc (len s * 8)"
  have c: "copy_to (copy_to (buf s) r [0x80]) (Suc r) (replicate (bs - Suc r) 0) = b"
    using s by (simp add: copy_to_def b_def)
  have "length b = bs" using s by (simp add: b_def)
  then have "copy_to (copy_to b 0 (replicate (bs - 8) 0)) (bs - 8) (enc (len s * 8)) = b'"
    using lim_less by (simp add: copy_to_def b'_def enc_length)
  then show ?thesis using s(5) r c by (simp add: pad_law Let_def process_law b_def b'_def)
qed

lemma rep_sum_law:
  assumes rep: "hash_rep bs compress h0 s m"
  shows "sum s = block_digest bs lim enc emit compress h0 m"
proof -
  define r where "r = length m mod bs"
  define rest where "rest = rest_of bs m"
  define e where "e = enc (len s * 8)"
  obtain full where m: "m = full @ rest" "bs dvd length full" using rest_of_split [of m bs] by (auto simp: rest_def)
  have s: "length (buf s) = bs" "take r (buf s) = rest" "length rest = r" "r < bs" "unat (len s) mod bs = r"
    using rep bs_pos len_mod [of s "length m"] by (auto simp: hash_rep_def r_def rest_def)
  have hs: "h s = chain bs compress h0 full"
    using rep m bs_pos s(3,4) by (simp add: hash_rep_def chain_blocks_append chain_short)
  have e: "length e = 8" "enc (of_nat (8 * length m)) = e"
    using rep by (simp_all add: e_def enc_length hash_rep_def mult.commute)
  have c: "chain bs compress h0 (m @ padding bs lim enc (length m)) = chain bs compress (h s) (rest @ padding bs lim enc (length m))"
    using m bs_pos hs by (simp add: chain_blocks_append)
  have "h (pad s) = chain bs compress (h s) (rest @ padding bs lim enc (length m))"
  proof (cases "Suc r \<le> lim")
    case True
    define b where "b = rest @ 0x80 # replicate (bs - 8 - Suc r) 0 @ e"
    have "zero_count bs lim (length m) + (bs - 8 - lim) = bs - 8 - Suc r"
      using True lim_less by (simp add: zero_count_short r_def [symmetric])
    then have "rest @ padding bs lim enc (length m) = b @ []" by (simp only: padding_def e(2) b_def) simp
    moreover have "length b = bs" using True lim_less s(3,4) e(1) by (simp add: b_def)
    ultimately show ?thesis
      using pad_short [OF s True, folded e_def, folded b_def] chain_block [OF bs_pos, of b compress "h s" "[]"] bs_pos
      by (simp only: chain_short list.size)
  next
    case False
    define b where "b = rest @ 0x80 # replicate (bs - Suc r) (0 :: u8)"
    define b' where "b' = replicate (bs - 8) 0 @ e"
    have "zero_count bs lim (length m) + (bs - 8 - lim) = bs - Suc r + (bs - 8)"
      using False lim_less by (simp add: zero_count_long r_def [symmetric])
    then have "rest @ padding bs lim enc (length m) = b @ b' @ []"
      by (simp only: padding_def e(2) b_def b'_def replicate_add) simp
    moreover have "length b = bs" "length b' = bs" using lim_less s(3,4) e(1) by (simp_all add: b_def b'_def)
    ultimately show ?thesis
      using pad_long [OF s, folded e_def, folded b_def b'_def] False chain_block [OF bs_pos, of b compress "h s" "b' @ []"]
        chain_block [OF bs_pos, of b' compress "compress (h s) b" "[]"] bs_pos
      by (simp only: chain_short list.size not_le not_less)
  qed
  then show ?thesis by (simp add: sum_law block_digest_def c)
qed

end

sublocale block_hash \<subseteq> message_digest "hash_rep bs compress h0" "\<lambda>s. length (buf s) = bs" init update sum
  "block_digest bs lim enc emit compress h0"
proof unfold_locales
  fix s :: "'w hash_ctx" and m x
  show "length (buf s) = bs \<Longrightarrow> hash_rep bs compress h0 (init s) []"
    using bs_pos by (simp add: hash_rep_def init_law chain_short rest_of_def)
  show "hash_rep bs compress h0 s m \<Longrightarrow> hash_rep bs compress h0 (update s x) (m @ x)" by (rule rep_update_law)
  show "hash_rep bs compress h0 s m \<Longrightarrow> sum s = block_digest bs lim enc emit compress h0 m" by (rule rep_sum_law)
qed

subsection \<open>The three digests\<close>

definition le_bytes :: "u64 \<Rightarrow> u8 list" where
  "le_bytes n = map (\<lambda>i. ucast (drop_bit (8 * i) n)) [0, 1, 2, 3, 4, 5, 6, 7]"

definition be_bytes :: "u64 \<Rightarrow> u8 list" where
  "be_bytes n = map (\<lambda>i. ucast (drop_bit (8 * i) n)) [7, 6, 5, 4, 3, 2, 1, 0]"

definition md5_h0 :: "u32 list" where
  "md5_h0 = [0x67452301, 0xefcdab89, 0x98badcfe, 0x10325476]"

definition sha256_h0 :: "u32 list" where
  "sha256_h0 = [0x6a09e667, 0xbb67ae85, 0x3c6ef372, 0xa54ff53a, 0x510e527f, 0x9b05688c, 0x1f83d9ab, 0x5be0cd19]"

definition sha512_h0 :: "u64 list" where
  "sha512_h0 = [0x6a09e667f3bcc908, 0xbb67ae8584caa73b, 0x3c6ef372fe94f82b, 0xa54ff53a5f1d36f1,
     0x510e527fade682d1, 0x9b05688c2b3e6c1f, 0x1f83d9abfb41bd6b, 0x5be0cd19137e2179]"

text \<open>The chaining values as bytes: the values \<open>v ! 0\<close> to \<open>v ! (n - 1)\<close>, their bytes in the order of \<open>js\<close>.\<close>

definition emit_words :: "nat \<Rightarrow> nat list \<Rightarrow> 'w::len word list \<Rightarrow> u8 list" where
  "emit_words n js v = concat (map (\<lambda>i. map (\<lambda>j. ucast (drop_bit (8 * j) (v ! i))) js) [0..<n])"

text \<open>RFC 1321 (MD5) and FIPS 180 (SHA-256, SHA-512) of a whole message.\<close>

definition md5_digest :: "u8 list \<Rightarrow> u8 list" where
  "md5_digest = block_digest 64 56 le_bytes (emit_words 4 [0, 1, 2, 3]) md5_compress md5_h0"

definition sha256_digest :: "u8 list \<Rightarrow> u8 list" where
  "sha256_digest = block_digest 64 56 be_bytes (emit_words 8 [3, 2, 1, 0]) sha256_compress sha256_h0"

definition sha512_digest :: "u8 list \<Rightarrow> u8 list" where
  "sha512_digest = block_digest 128 112 be_bytes (emit_words 8 [7, 6, 5, 4, 3, 2, 1, 0]) sha512_compress sha512_h0"

lemma le_bytes_list: "[ucast n, ucast (drop_bit 8 n), ucast (drop_bit 16 n), ucast (drop_bit 24 n),
    ucast (drop_bit 32 n), ucast (drop_bit 40 n), ucast (drop_bit 48 n), ucast (drop_bit 56 n)] = le_bytes n"
  by (simp add: le_bytes_def)

lemma be_bytes_list: "[ucast (drop_bit 56 n), ucast (drop_bit 48 n), ucast (drop_bit 40 n), ucast (drop_bit 32 n),
    ucast (drop_bit 24 n), ucast (drop_bit 16 n), ucast (drop_bit 8 n), ucast n] = be_bytes n"
  by (simp add: be_bytes_def)

lemma bytes_length: "length (le_bytes n) = 8" "length (be_bytes n) = 8"
  by (simp_all add: le_bytes_def be_bytes_def)

lemma unat_mod_block: "unat (x mod 64 :: u64) = unat x mod 64" "unat (x mod 128 :: u64) = unat x mod 128"
  by (simp_all add: unat_mod)

lemma block_minus: "(64 :: nat) - 8 = 56" "(128 :: nat) - 8 = 120"
  by simp_all

lemma block_sizes: "(64 :: nat) dvd 2 ^ 64" "(128 :: nat) dvd 2 ^ 64" "0 < (56 :: nat)" "56 + 8 \<le> (64 :: nat)"
  "0 < (112 :: nat)" "112 + 8 \<le> (128 :: nat)"
  by simp_all

lemma md5_sum_eq: "md5_sum s = emit_words 4 [0, 1, 2, 3] (h (md5_pad s))"
  by (simp add: md5_sum_def emit_words_def Let_def)

lemma sha256_sum_eq: "sha256_sum s = emit_words 8 [3, 2, 1, 0] (h (sha256_pad s))"
  by (simp add: sha256_sum_def emit_words_def Let_def)

lemma sha512_sum_eq: "sha512_sum s = emit_words 8 [7, 6, 5, 4, 3, 2, 1, 0] (h (sha512_pad s))"
  by (simp add: sha512_sum_def emit_words_def Let_def)

lemma md5_laws:
  "md5_update s m =
     (let r = unat (len s) mod 64;
          s = s\<lparr>len := len s + of_nat (length m)\<rparr>
      in if r \<noteq> 0 \<and> length m < 64 - r then s\<lparr>buf := copy_to (buf s) r m\<rparr>
         else
           let (s, p) = (if r \<noteq> 0 then
                           let s = s\<lparr>buf := copy_to (buf s) r (take (64 - r) m)\<rparr>
                           in (md5_processblock s (buf s), drop (64 - r) m)
                         else (s, m));
               (s, p) = md5_blocks s p
           in s\<lparr>buf := copy_to (buf s) 0 p\<rparr>)"
  "md5_pad s =
     (let r = unat (len s) mod 64;
          s = s\<lparr>buf := copy_to (buf s) r [0x80]\<rparr>;
          r = r + 1;
          (s, r) = (if r > 56 then
                      let s = s\<lparr>buf := copy_to (buf s) r (replicate (64 - r) 0)\<rparr> in (md5_processblock s (buf s), 0)
                    else (s, r));
          s = s\<lparr>buf := copy_to (buf s) r (replicate (64 - 8 - r) 0)\<rparr>;
          s = s\<lparr>len := len s * 8\<rparr>;
          s = s\<lparr>buf := copy_to (buf s) (64 - 8) (le_bytes (len s))\<rparr>
      in md5_processblock s (buf s))"
  by (simp_all only: md5_update_def md5_pad_def unat_mod_block block_minus le_bytes_list)

interpretation md5: block_hash 64 56 md5_h0 md5_compress le_bytes
  "emit_words 4 [0, 1, 2, 3]"
  md5_processblock md5_init md5_blocks md5_update md5_pad md5_sum
  proof unfold_locales
  fix s :: md5 and p :: "u8 list"
  show "md5_blocks s p = (if length p \<ge> 64 then md5_blocks (md5_processblock s (take 64 p)) (drop 64 p) else (s, p))"
    by (rule md5_blocks.simps)
qed (simp_all only: md5_laws md5_process md5_init_def md5_h0_def md5_sum_eq bytes_length block_sizes)

lemma sha256_laws:
  "sha256_update s m =
     (let r = unat (len s) mod 64;
          s = s\<lparr>len := len s + of_nat (length m)\<rparr>
      in if r \<noteq> 0 \<and> length m < 64 - r then s\<lparr>buf := copy_to (buf s) r m\<rparr>
         else
           let (s, p) = (if r \<noteq> 0 then
                           let s = s\<lparr>buf := copy_to (buf s) r (take (64 - r) m)\<rparr>
                           in (sha256_processblock s (buf s), drop (64 - r) m)
                         else (s, m));
               (s, p) = sha256_blocks s p
           in s\<lparr>buf := copy_to (buf s) 0 p\<rparr>)"
  "sha256_pad s =
     (let r = unat (len s) mod 64;
          s = s\<lparr>buf := copy_to (buf s) r [0x80]\<rparr>;
          r = r + 1;
          (s, r) = (if r > 56 then
                      let s = s\<lparr>buf := copy_to (buf s) r (replicate (64 - r) 0)\<rparr> in (sha256_processblock s (buf s), 0)
                    else (s, r));
          s = s\<lparr>buf := copy_to (buf s) r (replicate (64 - 8 - r) 0)\<rparr>;
          s = s\<lparr>len := len s * 8\<rparr>;
          s = s\<lparr>buf := copy_to (buf s) (64 - 8) (be_bytes (len s))\<rparr>
      in sha256_processblock s (buf s))"
  by (simp_all only: sha256_update_def sha256_pad_def unat_mod_block block_minus be_bytes_list)

interpretation sha256: block_hash 64 56 sha256_h0 sha256_compress be_bytes
  "emit_words 8 [3, 2, 1, 0]"
  sha256_processblock sha256_init sha256_blocks sha256_update sha256_pad sha256_sum
  proof unfold_locales
  fix s :: sha256 and p :: "u8 list"
  show "sha256_blocks s p = (if length p \<ge> 64 then sha256_blocks (sha256_processblock s (take 64 p)) (drop 64 p) else (s, p))"
    by (rule sha256_blocks.simps)
qed (simp_all only: sha256_laws sha256_process sha256_init_def sha256_h0_def sha256_sum_eq bytes_length block_sizes)

lemma sha512_laws:
  "sha512_update s m =
     (let r = unat (len s) mod 128;
          s = s\<lparr>len := len s + of_nat (length m)\<rparr>
      in if r \<noteq> 0 \<and> length m < 128 - r then s\<lparr>buf := copy_to (buf s) r m\<rparr>
         else
           let (s, p) = (if r \<noteq> 0 then
                           let s = s\<lparr>buf := copy_to (buf s) r (take (128 - r) m)\<rparr>
                           in (sha512_processblock s (buf s), drop (128 - r) m)
                         else (s, m));
               (s, p) = sha512_blocks s p
           in s\<lparr>buf := copy_to (buf s) 0 p\<rparr>)"
  "sha512_pad s =
     (let r = unat (len s) mod 128;
          s = s\<lparr>buf := copy_to (buf s) r [0x80]\<rparr>;
          r = r + 1;
          (s, r) = (if r > 112 then
                      let s = s\<lparr>buf := copy_to (buf s) r (replicate (128 - r) 0)\<rparr> in (sha512_processblock s (buf s), 0)
                    else (s, r));
          s = s\<lparr>buf := copy_to (buf s) r (replicate (128 - 8 - r) 0)\<rparr>;
          s = s\<lparr>len := len s * 8\<rparr>;
          s = s\<lparr>buf := copy_to (buf s) (128 - 8) (be_bytes (len s))\<rparr>
      in sha512_processblock s (buf s))"
  by (simp_all only: sha512_update_def sha512_pad_def unat_mod_block block_minus be_bytes_list)

interpretation sha512: block_hash 128 112 sha512_h0 sha512_compress be_bytes
  "emit_words 8 [7, 6, 5, 4, 3, 2, 1, 0]"
  sha512_processblock sha512_init sha512_blocks sha512_update sha512_pad sha512_sum
  proof unfold_locales
  fix s :: sha512 and p :: "u8 list"
  show "sha512_blocks s p = (if length p \<ge> 128 then sha512_blocks (sha512_processblock s (take 128 p)) (drop 128 p) else (s, p))"
    by (rule sha512_blocks.simps)
qed (simp_all only: sha512_laws sha512_process sha512_init_def sha512_h0_def sha512_sum_eq bytes_length block_sizes)

subsection \<open>Properties\<close>

text \<open>
  C18. A digest does not depend on how the message is cut into pieces: from a context with a
  buffer of one block, initialised and fed any pieces of any lengths (empty ones, ones that
  fill the buffer exactly, ones of many blocks), each of the three digests gives what the
  padded whole message gives block by block, with the compression functions as RFC 1321 and
  FIPS 180 state them.
\<close>

theorem digest_updates:
  assumes "length (buf m) = 64" "length (buf s) = 64" "length (buf t) = 128"
  shows "md5_sum (foldl md5_update (md5_init m) xs) = md5_digest (concat xs) \<and>
    sha256_sum (foldl sha256_update (sha256_init s) xs) = sha256_digest (concat xs) \<and>
    sha512_sum (foldl sha512_update (sha512_init t) xs) = sha512_digest (concat xs)"
  using md5.sum_updates [OF assms(1)] sha256.sum_updates [OF assms(2)] sha512.sum_updates [OF assms(3)]
  by (simp add: md5_digest_def sha256_digest_def sha512_digest_def)

theorem digest_updates_witness:
  "sha256_sum (foldl sha256_update (sha256_init \<lparr>len = 9, h = [], buf = replicate 64 7\<rparr>) [[0x61], [], [0x62, 0x63]]) =
     sha256_digest [0x61, 0x62, 0x63]"
  using digest_updates [of "\<lparr>len = 9, h = [], buf = replicate 64 7\<rparr>" "\<lparr>len = 9, h = [], buf = replicate 64 7\<rparr>"
      "\<lparr>len = 9, h = [], buf = replicate 128 7\<rparr>" "[[0x61], [], [0x62, 0x63]]"]
  by simp

end
