(* ===== verification/StrtolCorrect.thy ===== *)
theory StrtolCorrect
  imports Strtol
begin

text \<open>
  The conversion of text to numbers against the value of its digits: the loops compute it
  exactly as long as it fits, the limits of the types clamp it, and the library reads back
  what the kernel prints.
\<close>

text \<open>The value of a digit, a letter of either case counting from ten; \<open>255\<close> for any other character.\<close>

definition digit_value :: "u8 \<Rightarrow> nat" where
  "digit_value c =
     (let n = unat c in
      if 48 \<le> n \<and> n < 58 then n - 48 else if 65 \<le> n \<and> n < 91 then n - 55 else if 97 \<le> n \<and> n < 123 then n - 87 else 255)"

definition text_value :: "nat \<Rightarrow> u8 list \<Rightarrow> nat" where
  "text_value b ds = undigits b (map digit_value ds)"

subsection \<open>Characters\<close>

definition run_of :: "nat \<Rightarrow> nat \<Rightarrow> u8 list" where
  "run_of a b = map word_of_nat [a..<b]"

lemma run_of_simps: "length (run_of a b) = b - a" "i < b - a \<Longrightarrow> b \<le> 256 \<Longrightarrow> unat (run_of a b ! i) = a + i"
  by (simp_all add: run_of_def unat_of_nat del: of_nat_add)

lemma table_eq: "table = 255 # replicate 48 255 @ run_of 0 10 @ replicate 7 255 @ run_of 10 36 @
    replicate 6 255 @ run_of 10 36 @ replicate 133 255"
  by (simp add: table_def run_of_def upt_rec numeral_eq_Suc)

lemma digit_value_val: "digit_value c = unat (val c)"
proof -
  define n where "n = unat c"
  have "n < 256" by (simp add: n_def)
  then show ?thesis by (auto simp: digit_value_def val_def table_eq Let_def nth_append run_of_simps n_def [symmetric])
qed

lemma val_less: "ucast (val c) < (b :: u32) \<longleftrightarrow> digit_value c < unat b" "ucast (val c) < (b' :: u64) \<longleftrightarrow> digit_value c < unat b'"
  by (simp_all add: word_less_nat_alt digit_value_val unsigned_ucast_eq take_bit_nat_eq_self order_less_trans [OF unat_u8_less])

lemma unat_val: "unat (ucast (val c) :: u32) = digit_value c" "unat (ucast (val c) :: u64) = digit_value c"
  by (simp_all add: digit_value_val unsigned_ucast_eq take_bit_nat_eq_self order_less_trans [OF unat_u8_less])

lemma unat_char: "unat (ucast (c :: u8) :: u32) = unat c" "unat (ucast c :: u64) = unat c"
  by (simp_all add: unsigned_ucast_eq take_bit_nat_eq_self order_less_trans [OF unat_u8_less])

lemma char_minus:
  fixes c :: u8
  assumes "k < 2 ^ 32"
  shows "unat ((ucast c :: u32) - word_of_nat k) = (if k \<le> unat c then unat c - k else unat c + 2 ^ 32 - k)"
    "unat ((ucast c :: u64) - word_of_nat k) = (if k \<le> unat c then unat c - k else unat c + 2 ^ 64 - k)"
  using assms by (simp_all add: unat_sub_if' unat_char unat_of_nat)

lemma isdigit_iff: "isdigit c \<longleftrightarrow> digit_value c < 10"
  using char_minus(1) [of 48 c] by (auto simp: isdigit_def word_less_nat_alt digit_value_def Let_def)

lemma digit_minus:
  assumes "digit_value c < 10"
  shows "unat ((ucast c :: u32) - 0x30) = digit_value c" "unat ((ucast c :: u64) - 0x30) = digit_value c"
  using assms char_minus [of 48 c] by (auto simp: digit_value_def Let_def split: if_splits)

lemma digit_not_blank: "digit_value c < 36 \<Longrightarrow> \<not> isspace c \<and> c \<noteq> 0x2B \<and> c \<noteq> 0x2D"
  using char_minus(1) [of 9 c] by (auto simp: isspace_def word_less_nat_alt digit_value_def Let_def split: if_splits)

lemma digit_value_ends: "digit_value 0 = 255" "digit_value c = 0 \<longleftrightarrow> c = 0x30"
  by (auto simp: digit_value_def Let_def word_unat_eq_iff split: if_splits)

subsection \<open>The loops\<close>

text \<open>A loop whose guard excludes overflow computes the value of a prefix of the digits.\<close>

lemma scan_while_exact:
  fixes x :: "'w::len word"
  assumes step: "\<And>c x. digit_value c < b \<Longrightarrow> fits c x \<Longrightarrow> unat (step x c) = b * unat x + digit_value c"
    and ok: "\<And>c x. ok c x \<longleftrightarrow> digit_value c < b \<and> fits c x"
    and ds: "\<forall>c \<in> set ds. digit_value c < b" and rest: "b \<le> digit_value (peek rest)"
  shows "\<exists>d1 d2. ds = d1 @ d2 \<and> snd (scan_while ok step (ds @ rest) x) = d2 @ rest \<and>
    unat (fst (scan_while ok step (ds @ rest) x)) = foldl (\<lambda>a d. b * a + d) (unat x) (map digit_value d1) \<and>
    (d2 \<noteq> [] \<longrightarrow> \<not> fits (hd d2) (fst (scan_while ok step (ds @ rest) x)))"
  using ds
proof (induction ds arbitrary: x)
  case Nil
  have "scan_while ok step rest x = (x, rest)" using rest ok by (cases rest) (auto simp: peek_def)
  then show ?case by simp
next
  case (Cons c ds)
  show ?case
  proof (cases "fits c x")
    case True
    have "\<forall>c \<in> set ds. digit_value c < b" using Cons.prems by simp
    from Cons.IH [OF this, of "step x c"] obtain d1 d2 where
      "ds = d1 @ d2" "snd (scan_while ok step (ds @ rest) (step x c)) = d2 @ rest"
      "unat (fst (scan_while ok step (ds @ rest) (step x c))) = foldl (\<lambda>a d. b * a + d) (unat (step x c)) (map digit_value d1)"
      "d2 \<noteq> [] \<longrightarrow> \<not> fits (hd d2) (fst (scan_while ok step (ds @ rest) (step x c)))"
      by blast
    moreover have "ok c x" using True Cons.prems ok [of c x] by simp
    moreover have "unat (step x c) = b * unat x + digit_value c" using True Cons.prems step [of c x] by simp
    ultimately show ?thesis by (intro exI [of _ "c # d1"] exI [of _ d2]) simp
  next
    case False
    moreover from this have "\<not> ok c x" using ok [of c x] by simp
    ultimately show ?thesis by (intro exI [of _ "[]"] exI [of _ "c # ds"]) simp
  qed
qed

text \<open>The narrow loop followed by the wide one.\<close>

lemma two_loops:
  fixes stepn :: "u32 \<Rightarrow> u8 \<Rightarrow> u32" and stepw :: "u64 \<Rightarrow> u8 \<Rightarrow> u64"
  assumes stepn: "\<And>c x. digit_value c < b \<Longrightarrow> fitsn c x \<Longrightarrow> unat (stepn x c) = b * unat x + digit_value c"
    and okn: "\<And>c x. okn c x \<longleftrightarrow> digit_value c < b \<and> fitsn c x"
    and stepw: "\<And>c x. digit_value c < b \<Longrightarrow> fitsw c x \<Longrightarrow> unat (stepw x c) = b * unat x + digit_value c"
    and okw: "\<And>c x. okw c x \<longleftrightarrow> digit_value c < b \<and> fitsw c x"
    and over: "\<And>c x. digit_value c < b \<Longrightarrow> \<not> fitsw c x \<Longrightarrow> 2 ^ 64 \<le> b * unat x + digit_value c"
    and ds: "\<forall>c \<in> set ds. digit_value c < b" and rest: "b \<le> digit_value (peek rest)"
  shows "\<exists>d1 d2 y. ds = d1 @ d2 \<and>
    (case scan_while okn stepn (ds @ rest) 0 of (x, t) \<Rightarrow> scan_while okw stepw t (ucast x)) = (y, d2 @ rest) \<and>
    unat y = text_value b d1 \<and> (d2 \<noteq> [] \<longrightarrow> 2 ^ 64 \<le> b * unat y + digit_value (hd d2))"
proof -
  obtain a1 a2 x where a: "ds = a1 @ a2" "scan_while okn stepn (ds @ rest) 0 = (x, a2 @ rest)"
      "unat x = foldl (\<lambda>a d. b * a + d) 0 (map digit_value a1)"
    using scan_while_exact [of b fitsn stepn okn, OF stepn okn ds rest, of 0] by (metis prod.collapse unsigned_0)
  have "\<forall>c \<in> set a2. digit_value c < b" using ds a(1) by simp
  from scan_while_exact [of b fitsw stepw okw, OF stepw okw this rest, of "ucast x"]
  obtain b1 b2 y where b: "a2 = b1 @ b2" "scan_while okw stepw (a2 @ rest) (ucast x) = (y, b2 @ rest)"
      "unat y = foldl (\<lambda>a d. b * a + d) (unat (ucast x :: u64)) (map digit_value b1)" "b2 \<noteq> [] \<longrightarrow> \<not> fitsw (hd b2) y"
    by (metis prod.collapse)
  have "unat (ucast x :: u64) = unat x" by (simp add: unsigned_ucast_eq take_bit_nat_eq_self order_less_trans [OF unat_u32_less])
  then have "unat y = text_value b (a1 @ b1)" using a(3) b(3) by (simp add: text_value_def undigits_def)
  moreover have "b2 \<noteq> [] \<longrightarrow> 2 ^ 64 \<le> b * unat y + digit_value (hd b2)" using over b(4) ds a(1) b(1) by auto
  ultimately show ?thesis using a b by (intro exI [of _ "a1 @ b1"] exI [of _ b2] exI [of _ y]) simp
qed

subsection \<open>The three kinds of base\<close>

lemma narrow_fits:
  fixes b d x :: nat
  assumes "b \<le> 36" "d < b"
  shows "x \<le> 0xFFFFFFFF div 36 - 1 \<Longrightarrow> b * x + d < 2 ^ 32"
    and "x \<le> 0xFFFFFFFF div 32 \<Longrightarrow> b \<le> 32 \<Longrightarrow> b * x + d < 2 ^ 32"
proof -
  show "b * x + d < 2 ^ 32" if "x \<le> 0xFFFFFFFF div 36 - 1"
    using mult_le_mono [OF assms(1) that] assms by simp
  show "b * x + d < 2 ^ 32" if "x \<le> 0xFFFFFFFF div 32" "b \<le> 32"
    using mult_le_mono [OF that(2,1)] assms(2) that(2) by simp
qed

lemma wide_fits:
  fixes B y d :: u64
  assumes "0 < unat B"
  shows "y \<le> 0xFFFFFFFFFFFFFFFF div B \<and> B * y \<le> 0xFFFFFFFFFFFFFFFF - d \<longleftrightarrow> unat B * unat y + unat d < 2 ^ 64"
proof -
  have q: "unat (0xFFFFFFFFFFFFFFFF div B) = (2 ^ 64 - 1) div unat B" by (simp add: unat_div)
  have dm: "unat d \<le> 0xFFFFFFFFFFFFFFFF" using unat_u64_less [of d] by linarith
  have d: "unat (0xFFFFFFFFFFFFFFFF - d) = 2 ^ 64 - 1 - unat d"
    using dm by (subst unat_sub) (simp_all add: word_le_nat_alt)
  have le: "y \<le> 0xFFFFFFFFFFFFFFFF div B \<longleftrightarrow> unat B * unat y < 2 ^ 64"
    using assms by (simp add: word_le_nat_alt q less_eq_div_iff_mult_less_eq mult.commute del: unat_div) linarith
  show ?thesis
  proof (cases "unat B * unat y < 2 ^ 64")
    case True
    then have "unat (B * y) = unat B * unat y" by (simp add: unat_word_ariths)
    then have "B * y \<le> 0xFFFFFFFFFFFFFFFF - d \<longleftrightarrow> unat B * unat y \<le> 2 ^ 64 - 1 - unat d"
      by (simp only: word_le_nat_alt d)
    moreover have "p \<le> 2 ^ 64 - 1 - e \<longleftrightarrow> p + e < 2 ^ 64" if "e < 2 ^ 64" for p e :: nat using that by auto
    ultimately show ?thesis using True le by simp
  next
    case False
    then show ?thesis using le by linarith
  qed
qed

lemma unat_base: "b \<le> 36 \<Longrightarrow> unat (word_of_nat b :: u32) = b" "b \<le> 36 \<Longrightarrow> unat (ucast (word_of_nat b :: u32) :: u64) = b"
  by (simp_all add: unat_of_nat unsigned_ucast_eq take_bit_nat_eq_self)

definition exact_scan :: "nat \<Rightarrow> u8 list \<Rightarrow> u8 list \<Rightarrow> u64 \<times> u8 list \<Rightarrow> bool" where
  "exact_scan b ds rest r \<longleftrightarrow> (\<exists>d1 d2 y. ds = d1 @ d2 \<and> r = (y, d2 @ rest) \<and> unat y = text_value b d1 \<and>
     (d2 \<noteq> [] \<longrightarrow> 2 ^ 64 \<le> b * unat y + digit_value (hd d2)))"

lemma scan_digits_other:
  assumes b: "2 \<le> b" "b \<le> 36" "b \<noteq> 10" "word_of_nat b AND (word_of_nat b - 1 :: u32) \<noteq> 0"
    and ds: "\<forall>c \<in> set ds. digit_value c < b" and rest: "b \<le> digit_value (peek rest)"
  shows "exact_scan b ds rest (scan_digits (word_of_nat b) (ds @ rest))"
proof -
  define B where "B = (word_of_nat b :: u32)"
  have B: "unat B = b" "unat (ucast B :: u64) = b" using unat_base [OF b(2)] by (simp_all add: B_def)
  have n: "B \<noteq> 10" "B AND (B - 1) \<noteq> 0" using b(3,4) B(1) by (auto simp: B_def)
  have w: "y \<le> 0xFFFFFFFFFFFFFFFF div ucast B \<and> ucast B * y \<le> 0xFFFFFFFFFFFFFFFF - ucast (val c) \<longleftrightarrow>
      b * unat y + digit_value c < 2 ^ 64" for y :: u64 and c
    using wide_fits [of "ucast B" y "ucast (val c)"] b(1) by (simp only: B(2) unat_val)
  have "scan_digits B (ds @ rest) =
      (case scan_while (\<lambda>c x. ucast (val c) < B \<and> x \<le> 0xFFFFFFFF div 36 - 1) (\<lambda>x c. x * B + ucast (val c)) (ds @ rest) (0 :: u32) of
         (x, t) \<Rightarrow> scan_while (\<lambda>c y. ucast (val c) < B \<and> y \<le> 0xFFFFFFFFFFFFFFFF div ucast B \<and>
               ucast B * y \<le> 0xFFFFFFFFFFFFFFFF - ucast (val c)) (\<lambda>y c. y * ucast B + ucast (val c)) t (ucast x))"
    using n by (simp add: scan_digits_def)
  moreover have "\<exists>d1 d2 y. ds = d1 @ d2 \<and>
      (case scan_while (\<lambda>c x. ucast (val c) < B \<and> x \<le> 0xFFFFFFFF div 36 - 1) (\<lambda>x c. x * B + ucast (val c)) (ds @ rest) (0 :: u32) of
         (x, t) \<Rightarrow> scan_while (\<lambda>c y. ucast (val c) < B \<and> y \<le> 0xFFFFFFFFFFFFFFFF div ucast B \<and>
               ucast B * y \<le> 0xFFFFFFFFFFFFFFFF - ucast (val c)) (\<lambda>y c. y * ucast B + ucast (val c)) t (ucast x :: u64)) = (y, d2 @ rest) \<and>
      unat y = text_value b d1 \<and> (d2 \<noteq> [] \<longrightarrow> 2 ^ 64 \<le> b * unat y + digit_value (hd d2))"
  proof (rule two_loops [where fitsn = "\<lambda>c x. x \<le> 0xFFFFFFFF div 36 - 1" and fitsw = "\<lambda>c y. b * unat y + digit_value c < 2 ^ 64"])
    fix c and x :: u32
    assume "digit_value c < b" "x \<le> 0xFFFFFFFF div 36 - 1"
    moreover from this(2) have "unat x \<le> 0xFFFFFFFF div 36 - 1" by (simp add: word_le_nat_alt)
    ultimately show "unat (x * B + ucast (val c)) = b * unat x + digit_value c"
      using narrow_fits(1) [OF b(2), of "digit_value c" "unat x"] by (simp add: unat_word_ariths B unat_val mult.commute)
  next
    fix c and x :: u64
    assume "digit_value c < b" "b * unat x + digit_value c < 2 ^ 64"
    then show "unat (x * ucast B + ucast (val c)) = b * unat x + digit_value c"
      by (simp add: unat_word_ariths B unat_val mult.commute)
  qed (use ds rest in \<open>simp_all only: val_less B w not_less\<close>)
  ultimately show ?thesis unfolding exact_scan_def B_def by simp
qed

lemma scan_digits_ten:
  assumes ds: "\<forall>c \<in> set ds. digit_value c < 10" and rest: "10 \<le> digit_value (peek rest)"
  shows "exact_scan 10 ds rest (scan_digits 10 (ds @ rest))"
proof -
  have w: "digit_value c < 10 \<and> y \<le> 0xFFFFFFFFFFFFFFFF div 10 \<and> 10 * y \<le> 0xFFFFFFFFFFFFFFFF - (ucast c - 0x30) \<longleftrightarrow>
      digit_value c < 10 \<and> 10 * unat y + digit_value c < 2 ^ 64" for y :: u64 and c
    using wide_fits [of 10 y "ucast c - 0x30"] digit_minus(2) [of c] by auto
  have "\<exists>d1 d2 y. ds = d1 @ d2 \<and>
      (case scan_while (\<lambda>c x. isdigit c \<and> x \<le> 0xFFFFFFFF div 10 - 1) (\<lambda>x c. x * 10 + (ucast c - 0x30)) (ds @ rest) (0 :: u32) of
         (x, t) \<Rightarrow>
           scan_while (\<lambda>c y. isdigit c \<and> y \<le> 0xFFFFFFFFFFFFFFFF div 10 \<and> 10 * y \<le> 0xFFFFFFFFFFFFFFFF - (ucast c - 0x30))
             (\<lambda>y c. y * 10 + (ucast c - 0x30)) t (ucast x :: u64)) = (y, d2 @ rest) \<and>
      unat y = text_value 10 d1 \<and> (d2 \<noteq> [] \<longrightarrow> 2 ^ 64 \<le> 10 * unat y + digit_value (hd d2))"
  proof (rule two_loops [where fitsn = "\<lambda>c x. x \<le> 0xFFFFFFFF div 10 - 1" and fitsw = "\<lambda>c y. 10 * unat y + digit_value c < 2 ^ 64"])
    fix c and x :: u32
    assume "digit_value c < 10" "x \<le> 0xFFFFFFFF div 10 - 1"
    moreover from this(2) have "unat x \<le> 0xFFFFFFFF div 10 - 1" by (simp add: word_le_nat_alt)
    ultimately show "unat (x * 10 + (ucast c - 0x30)) = 10 * unat x + digit_value c"
      by (simp add: unat_word_ariths digit_minus)
  next
    fix c and x :: u64
    assume "digit_value c < 10" "10 * unat x + digit_value c < 2 ^ 64"
    then show "unat (x * 10 + (ucast c - 0x30)) = 10 * unat x + digit_value c" by (simp add: unat_word_ariths digit_minus)
  qed (use ds rest in \<open>simp_all only: isdigit_iff w not_less\<close>)
  then show ?thesis by (simp add: exact_scan_def scan_digits_def)
qed

lemma push_or: "unat d < 2 ^ k \<Longrightarrow> push_bit k x OR d = push_bit k x + d" for x d :: "'w::len word"
proof -
  assume "unat d < 2 ^ k"
  then have "take_bit k d = d" unfolding word_unat_eq_iff unsigned_take_bit_eq by (rule take_bit_nat_eq_self)
  then have "\<not> bit d n" if "k \<le> n" for n using that by (metis bit_take_bit_iff not_le)
  then show ?thesis by (intro disjunctive_add [symmetric]) (auto simp: bit_simps)
qed

lemma powers_of_two:
  assumes "2 \<le> b" "b \<le> 36" "word_of_nat b AND (word_of_nat b - 1 :: u32) = 0"
  shows "b = 2 ^ shift_of (word_of_nat b)" "1 \<le> shift_of (word_of_nat b)" "shift_of (word_of_nat b) \<le> 5"
proof -
  have b: "b \<in> set [2..<37]" unfolding set_upt atLeastLessThan_iff using assms(1,2) by linarith
  have "\<forall>b \<in> set [2..<37]. word_of_nat b AND (word_of_nat b - 1 :: u32) = 0 \<longrightarrow>
      b = 2 ^ shift_of (word_of_nat b) \<and> 1 \<le> shift_of (word_of_nat b) \<and> shift_of (word_of_nat b) \<le> 5"
    by code_simp
  from bspec [OF this b] show "b = 2 ^ shift_of (word_of_nat b)" "1 \<le> shift_of (word_of_nat b)" "shift_of (word_of_nat b) \<le> 5"
    using assms(3) by blast+
qed

lemma scan_digits_power:
  assumes b: "2 \<le> b" "b \<le> 36" "word_of_nat b AND (word_of_nat b - 1 :: u32) = 0"
    and ds: "\<forall>c \<in> set ds. digit_value c < b" and rest: "b \<le> digit_value (peek rest)"
  shows "exact_scan b ds rest (scan_digits (word_of_nat b) (ds @ rest))"
proof -
  define B where "B = (word_of_nat b :: u32)"
  define k where "k = shift_of B"
  have B: "unat B = b" "B AND (B - 1) = 0" using unat_base [OF b(2)] b(3) by (simp_all add: B_def)
  have k: "b = 2 ^ k" "1 \<le> k" "k \<le> 5" using powers_of_two [OF b] by (simp_all add: k_def B_def)
  have b32: "b \<le> 32" using power_increasing [OF k(3), of "2 :: nat"] by (simp add: k(1))
  have kc: "k = 1 \<or> k = 2 \<or> k = 3 \<or> k = 4 \<or> k = 5" using k by linarith
  then have "B \<noteq> 10" using B(1) k(1) by auto
  have u: "unat (push_bit k x) = b * unat x" if "b * unat x < 2 ^ 32" for x :: u32
    using that kc unfolding k(1) push_bit_eq_mult by (elim disjE) (simp_all add: unat_word_ariths mult.commute)
  have u': "unat (push_bit k x) = b * unat x" if "b * unat x < 2 ^ 64" for x :: u64
    using that kc unfolding k(1) push_bit_eq_mult by (elim disjE) (simp_all add: unat_word_ariths mult.commute)
  have w: "digit_value c < b \<and> y \<le> drop_bit k 0xFFFFFFFFFFFFFFFF \<longleftrightarrow> digit_value c < b \<and> b * unat y + digit_value c < 2 ^ 64"
    for y :: u64 and c
    using kc unfolding k(1) by (elim disjE) (auto simp: word_le_nat_alt)
  have "\<exists>d1 d2 y. ds = d1 @ d2 \<and>
      (case scan_while (\<lambda>c x. ucast (val c) < B \<and> x \<le> 0xFFFFFFFF div 32) (\<lambda>x c. push_bit k x OR ucast (val c)) (ds @ rest) (0 :: u32) of
         (x, t) \<Rightarrow> scan_while (\<lambda>c y. ucast (val c) < B \<and> y \<le> drop_bit k 0xFFFFFFFFFFFFFFFF)
               (\<lambda>y c. push_bit k y OR ucast (val c)) t (ucast x :: u64)) = (y, d2 @ rest) \<and>
      unat y = text_value b d1 \<and> (d2 \<noteq> [] \<longrightarrow> 2 ^ 64 \<le> b * unat y + digit_value (hd d2))"
  proof (rule two_loops [where fitsn = "\<lambda>c x. x \<le> 0xFFFFFFFF div 32" and fitsw = "\<lambda>c y. b * unat y + digit_value c < 2 ^ 64"])
    fix c and x :: u32
    assume d: "digit_value c < b" and "x \<le> 0xFFFFFFFF div 32"
    from this(2) have "unat x \<le> 0xFFFFFFFF div 32" by (simp add: word_le_nat_alt)
    then have "b * unat x + digit_value c < 2 ^ 32" using narrow_fits(2) [OF b(2) d] b32 by blast
    then show "unat (push_bit k x OR ucast (val c)) = b * unat x + digit_value c"
      using d by (subst push_or) (simp_all add: unat_val k(1) [symmetric] unat_word_ariths u)
  next
    fix c and x :: u64
    assume d: "digit_value c < b" and "b * unat x + digit_value c < 2 ^ 64"
    then show "unat (push_bit k x OR ucast (val c)) = b * unat x + digit_value c"
      by (subst push_or) (simp_all add: unat_val k(1) [symmetric] unat_word_ariths u')
  qed (use ds rest in \<open>simp_all only: val_less B w not_less\<close>)
  then show ?thesis using B(2) \<open>B \<noteq> 10\<close> unfolding exact_scan_def B_def [symmetric] scan_digits_def by (simp add: k_def Let_def)
qed

lemma scan_digits_exact:
  assumes b: "2 \<le> b" "b \<le> 36" and ds: "\<forall>c \<in> set ds. digit_value c < b" and rest: "b \<le> digit_value (peek rest)"
  shows "exact_scan b ds rest (scan_digits (word_of_nat b) (ds @ rest))"
proof (cases "b = 10")
  case True
  then show ?thesis using scan_digits_ten ds rest by simp
next
  case False
  then show ?thesis using scan_digits_power [OF b _ ds rest] scan_digits_other [OF b False _ ds rest] by blast
qed

lemma text_value_append: "text_value b (d1 @ d2) \<ge> text_value b d1" if "0 < b"
proof -
  have "foldl (\<lambda>a d. b * a + d) x ds \<ge> x" for x and ds :: "nat list"
  proof (induction ds arbitrary: x)
    case (Cons d ds)
    have "x \<le> b * x" using that by simp
    also have "\<dots> \<le> b * x + d" by simp
    also note Cons [of "b * x + d"]
    finally show ?case by simp
  qed simp
  then show ?thesis by (simp add: text_value_def undigits_def)
qed

lemma skip_digits: "\<forall>c \<in> set ds. digit_value c < b \<Longrightarrow> b \<le> digit_value (peek rest) \<Longrightarrow> b \<le> 36 \<Longrightarrow>
    snd (scan_while (\<lambda>c u. ucast (val c) < (word_of_nat b :: u32)) (\<lambda>u c. u) (ds @ rest) ()) = rest"
proof (induction ds)
  case Nil
  then show ?case by (cases rest) (auto simp: val_less unat_base peek_def)
qed (simp add: val_less unat_base)

text \<open>The number read and the limit applied to it.\<close>

definition clamped :: "u64 \<Rightarrow> bool \<Rightarrow> nat \<Rightarrow> u64 \<times> scan_error option" where
  "clamped lim neg v =
     (if lim AND 1 = 0 then
        (if neg then (if v \<le> unat lim then (- word_of_nat v, None) else (lim, Some ERANGE))
         else (if v < unat lim then (word_of_nat v, None) else (lim - 1, Some ERANGE)))
      else if v \<le> unat lim then (if neg then - word_of_nat v else word_of_nat v, None)
      else (lim, Some ERANGE))"

lemma scan_finish_eq:
  assumes b: "2 \<le> b" "b \<le> 36" and ds: "\<forall>c \<in> set ds. digit_value c < b" and rest: "b \<le> digit_value (peek rest)"
    and lim: "lim = 0xFFFFFFFFFFFFFFFF \<or> lim = 0x8000000000000000"
  shows "scan_finish n (word_of_nat b) lim neg (ds @ rest) =
    (fst (clamped lim neg (text_value b ds)), n - length rest, snd (clamped lim neg (text_value b ds)))"
proof -
  obtain d1 d2 y where d: "ds = d1 @ d2" "scan_digits (word_of_nat b) (ds @ rest) = (y, d2 @ rest)" "unat y = text_value b d1"
      "d2 \<noteq> [] \<longrightarrow> 2 ^ 64 \<le> b * unat y + digit_value (hd d2)"
    using scan_digits_exact [OF b ds rest] unfolding exact_scan_def by blast
  show ?thesis
  proof (cases "d2 = []")
    case True
    have o: "\<not> ucast (val (peek rest)) < (word_of_nat b :: u32)" using rest by (simp add: val_less unat_base [OF b(2)])
    have v: "unat y = text_value b ds" "y = word_of_nat (text_value b ds)" using d(1,3) True by (simp_all add: d(3) [symmetric])
    show ?thesis
      using d(2) True o lim unfolding scan_finish_def clamped_def v(1) [symmetric]
      by (auto simp: word_le_nat_alt word_less_nat_alt not_le not_less)
  next
    case False
    then obtain c d3 where d2: "d2 = c # d3" by (cases d2) auto
    have "text_value b (d1 @ [c]) = b * unat y + digit_value c" by (simp add: text_value_def undigits_def d(3))
    then have "2 ^ 64 \<le> text_value b ds"
      using d(1,4) text_value_append [of b "d1 @ [c]" d3] b(1) by (simp add: d2)
    moreover have "ucast (val (peek (d2 @ rest))) < (word_of_nat b :: u32)"
      using ds d(1) by (simp add: d2 peek_def val_less unat_base [OF b(2)])
    moreover have "snd (scan_while (\<lambda>c u. ucast (val c) < (word_of_nat b :: u32)) (\<lambda>u c. u) (d2 @ rest) ()) = rest"
      using ds d(1) rest b(2) by (intro skip_digits) auto
    ultimately show ?thesis
      using d(2) lim unfolding scan_finish_def clamped_def by auto
  qed
qed

subsection \<open>A number in its text\<close>

text \<open>
  White space, an optional sign, digits of the base and what follows them. In base sixteen a
  single zero is not followed by an \<open>x\<close>, which would start a prefix.
\<close>

definition number_text :: "nat \<Rightarrow> u8 list \<Rightarrow> u8 list \<Rightarrow> u8 list \<Rightarrow> u8 list \<Rightarrow> bool" where
  "number_text b ws sg ds rest \<longleftrightarrow> 2 \<le> b \<and> b \<le> 36 \<and> list_all isspace ws \<and> sg \<in> set [[], [0x2B], [0x2D]] \<and>
     ds \<noteq> [] \<and> list_all (\<lambda>c. digit_value c < b) ds \<and> b \<le> digit_value (peek rest) \<and>
     \<not> (b = 16 \<and> ds = [0x30] \<and> peek rest OR 32 = 0x78)"

lemma or_exp_cases:
  fixes c :: u8
  shows "c = ((c OR 2 ^ k) AND NOT (2 ^ k)) OR (if bit c k then 2 ^ k else 0)"
  by (rule bit_word_eqI) (auto simp: bit_simps)

lemma x_char: "c OR 32 = 0x78 \<Longrightarrow> digit_value c = 33"
  using or_exp_cases [of c 5] by (auto simp: digit_value_def split: if_splits)

lemma intscan_number:
  assumes n: "number_text b ws sg ds rest" and lim: "lim = 0xFFFFFFFFFFFFFFFF \<or> lim = 0x8000000000000000"
  shows "intscan (ws @ sg @ ds @ rest) (word_of_nat b) True lim =
    (fst (clamped lim (sg = [0x2D]) (text_value b ds)), length (ws @ sg @ ds), snd (clamped lim (sg = [0x2D]) (text_value b ds)))"
proof -
  define s where "s = ws @ sg @ ds @ rest"
  define B where "B = (word_of_nat b :: u32)"
  have b: "2 \<le> b" "b \<le> 36" and ws: "\<forall>c \<in> set ws. isspace c" and ds: "\<forall>c \<in> set ds. digit_value c < b" and rest: "b \<le> digit_value (peek rest)"
    using n by (auto simp: number_text_def list_all_iff)
  obtain c ds' where c: "ds = c # ds'" using n by (cases ds) (auto simp: number_text_def)
  have c36: "digit_value c < 36" "digit_value c < b" using ds b(2) by (auto simp: c)
  note blank = digit_not_blank [OF c36(1)]
  have B: "unat B = b" using unat_base [OF b(2)] by (simp add: B_def)
  have base: "\<not> (B > 36 \<or> B = 1)" "B \<noteq> 0" "B = 16 \<longleftrightarrow> b = 16" using b B by (auto simp: word_less_nat_alt word_unat_eq_iff)
  have sg: "sg = [] \<or> sg = [0x2B] \<or> sg = [0x2D]" using n by (auto simp: number_text_def)
  have t: "dropWhile isspace s = sg @ ds @ rest"
    using ws sg blank by (auto simp: s_def c dropWhile_append isspace_def)
  have p: "peek (ds @ rest) = c" by (simp add: c peek_def)
  have val: "\<not> ucast (val c) \<ge> B" using c36(2) by (simp add: not_le val_less B)
  have fin: "scan_finish (length s) B lim (sg = [0x2D]) (d @ rest) =
      (fst (clamped lim (sg = [0x2D]) (text_value b d)), length (ws @ sg @ ds), snd (clamped lim (sg = [0x2D]) (text_value b d)))"
    if "\<forall>c \<in> set d. digit_value c < b" for d
    using scan_finish_eq [OF b that rest lim, of "length s" "sg = [0x2D]"] by (simp add: B_def s_def)
  have neg: "scan_sign (sg @ ds @ rest) = (sg = [0x2D], ds @ rest)"
    using sg blank by (auto simp: scan_sign_def peek_def c)
  have "intscan s B True lim =
      (fst (clamped lim (sg = [0x2D]) (text_value b ds)), length (ws @ sg @ ds), snd (clamped lim (sg = [0x2D]) (text_value b ds)))"
  proof (cases "b = 16 \<and> c = 0x30")
    case False
    then show ?thesis
      using base val fin [OF ds] by (auto simp: intscan_def t neg p)
  next
    case True
    have "digit_value 0x30 = 0" by (simp add: digit_value_ends)
    then have z: "text_value b ds = text_value b ds'" using True by (simp add: c text_value_def undigits_def)
    have "peek (ds' @ rest) OR 32 \<noteq> 0x78"
    proof (cases ds')
      case Nil
      then show ?thesis using n True by (simp add: number_text_def c)
    next
      case (Cons d e)
      then have "digit_value d < 16" using ds True by (simp add: c)
      then show ?thesis using x_char [of d] Cons by (auto simp: peek_def)
    qed
    moreover have "tl (ds @ rest) = ds' @ rest" by (simp add: c)
    moreover have "B = 16" "peek (ds @ rest) = 0x30" using base(3) True p by simp_all
    ultimately have "intscan s B True lim = scan_finish (length s) B lim (sg = [0x2D]) (ds' @ rest)"
      by (simp add: intscan_def t neg)
    moreover have "\<forall>c \<in> set ds'. digit_value c < b" using ds by (simp add: c)
    ultimately show ?thesis using fin [of ds'] unfolding z by simp
  qed
  then show ?thesis by (simp add: s_def B_def)
qed

subsection \<open>What the kernel prints\<close>

lemma digit_value_dec_char: "d < 10 \<Longrightarrow> digit_value (dec_char d) = d"
  by (simp add: digit_value_def dec_char_def unat_word_ariths unat_of_nat)

lemma digit_value_hex_char: "d < 16 \<Longrightarrow> digit_value (hex_char d) = d"
  by (simp add: digit_value_def hex_char_def unat_word_ariths unat_of_nat)

lemma map_cancel: "(\<And>d. d \<in> set ds \<Longrightarrow> f (g d) = d) \<Longrightarrow> map f (map g ds) = ds"
  by (induction ds) simp_all

lemma decimal_value: "text_value 10 (decimal n) = n" "list_all (\<lambda>c. digit_value c < 10) (decimal n)"
proof -
  have m: "map digit_value (decimal n) = digits 10 n"
    unfolding decimal_def using digits_less [of 10 _ n] by (intro map_cancel digit_value_dec_char) simp
  then show "text_value 10 (decimal n) = n" by (simp only: text_value_def undigits_digits)
  show "list_all (\<lambda>c. digit_value c < 10) (decimal n)"
    using digits_less [of 10 _ n] by (auto simp: list_all_iff decimal_def digit_value_dec_char)
qed

lemma hexadecimal_value: "text_value 16 (hexadecimal n) = n" "list_all (\<lambda>c. digit_value c < 16) (hexadecimal n)"
proof -
  have m: "map digit_value (hexadecimal n) = digits 16 n"
    unfolding hexadecimal_def using digits_less [of 16 _ n] by (intro map_cancel digit_value_hex_char) simp
  then show "text_value 16 (hexadecimal n) = n" by (simp only: text_value_def undigits_digits)
  show "list_all (\<lambda>c. digit_value c < 16) (hexadecimal n)"
    using digits_less [of 16 _ n] by (auto simp: list_all_iff hexadecimal_def digit_value_hex_char)
qed

lemma text_nonempty: "decimal n \<noteq> []" "hexadecimal n \<noteq> []"
  by (simp_all add: decimal_def hexadecimal_def)

lemma decimal_text: "sg \<in> set [[], [0x2B], [0x2D]] \<Longrightarrow> number_text 10 [] sg (decimal n) []"
  by (simp add: number_text_def decimal_value peek_def digit_value_ends text_nonempty)

lemma hexadecimal_text: "number_text 16 [] [] (hexadecimal n) []"
  by (simp add: number_text_def hexadecimal_value peek_def digit_value_ends text_nonempty)

text \<open>The number \<^verbatim>\<open>atoi\<close> builds below zero.\<close>

lemma atox_loop:
  fixes n :: "'w::len word"
  assumes "list_all (\<lambda>c. digit_value c < 10) ds" "10 \<le> digit_value (peek rest)"
  shows "fst (scan_while (\<lambda>c n. isdigit c) (\<lambda>n c. 10 * n - (ucast c - 0x30)) (ds @ rest) (- of_nat a)) =
    (- of_nat (foldl (\<lambda>a d. 10 * a + d) a (map digit_value ds)) :: 'w word)"
  using assms(1)
proof (induction ds arbitrary: a)
  case Nil
  then show ?case using assms(2) by (cases rest) (auto simp: peek_def isdigit_iff)
next
  case (Cons c ds)
  then have c: "digit_value c < 10" by simp
  then have n: "unat c = 48 + digit_value c" by (auto simp: digit_value_def Let_def split: if_splits)
  have "(ucast c :: 'w word) = of_nat (unat c)" by (rule of_nat_unat [symmetric])
  then have u: "(ucast c :: 'w word) = 48 + of_nat (digit_value c)" by (simp add: n)
  have "10 * (- of_nat a) - (ucast c - 0x30) = (- of_nat (10 * a + digit_value c) :: 'w word)" by (simp add: u)
  then have "scan_while (\<lambda>c n. isdigit c) (\<lambda>n c. 10 * n - (ucast c - 0x30)) ((c # ds) @ rest) (- of_nat a) =
      scan_while (\<lambda>c n. isdigit c) (\<lambda>n c. 10 * n - (ucast c - 0x30)) (ds @ rest) (- of_nat (10 * a + digit_value c) :: 'w word)"
    using c by (simp only: append_Cons scan_while.simps isdigit_iff if_True)
  then show ?case using Cons.IH [of "10 * a + digit_value c"] Cons.prems by (simp add: list.map)
qed

lemma atox_number:
  assumes "number_text 10 ws sg ds rest"
  shows "(atox (ws @ sg @ ds @ rest) :: 'w::len word) = (if sg = [0x2D] then - of_nat (text_value 10 ds) else of_nat (text_value 10 ds))"
proof -
  obtain d ds' where d: "ds = d # ds'" using assms by (cases ds) (auto simp: number_text_def)
  have nb: "\<not> isspace d" "d \<noteq> 0x2B" "d \<noteq> 0x2D" using assms digit_not_blank [of d] by (auto simp: number_text_def d)
  have "dropWhile isspace (ws @ sg @ ds @ rest) = sg @ ds @ rest"
    using assms nb by (auto simp: number_text_def d list_all_iff isspace_def)
  then have "scan_sign (dropWhile isspace (ws @ sg @ ds @ rest)) = (sg = [0x2D], ds @ rest)"
    using assms nb by (auto simp: scan_sign_def peek_def number_text_def d)
  then show ?thesis
    using assms atox_loop [of ds rest 0, where ?'w = 'w] by (simp add: atox_def number_text_def text_value_def undigits_def)
qed

subsection \<open>Properties\<close>

lemma strtox_number:
  assumes "number_text b ws sg ds rest" "lim = 0xFFFFFFFFFFFFFFFF \<or> lim = 0x8000000000000000"
  shows "strtox (ws @ sg @ ds @ rest) (word_of_nat b) lim =
    (fst (clamped lim (sg = [0x2D]) (text_value b ds)), length (ws @ sg @ ds), snd (clamped lim (sg = [0x2D]) (text_value b ds)))"
  using intscan_number [OF assms] by (simp only: strtox_def)

lemma sint_of_nat: "n < 2 ^ 63 \<Longrightarrow> sint (word_of_nat n :: u64) = int n"
  by (subst sint_small) (simp_all add: unat_of_nat)

lemma sint_minus_of_nat: "n \<le> 2 ^ 63 \<Longrightarrow> sint (- word_of_nat n :: u64) = - int n"
proof -
  assume n: "n \<le> 2 ^ 63"
  show ?thesis
  proof (cases "n = 0")
    case False
    then have "unat (- word_of_nat n :: u64) = 2 ^ 64 - n"
      using n unat_sub_if' [of "0 :: u64" "word_of_nat n"] by (simp add: unat_of_nat)
    then show ?thesis using n False by (simp add: sint_eq of_nat_diff)
  qed simp
qed

text \<open>
  C19. \<^verbatim>\<open>strtol\<close> on white space, an optional sign and digits of a base from 2 to 36, whatever
  follows them: the result is the number written there, moved to the nearest bound of the type
  when it does not fit, \<^verbatim>\<open>errno\<close> is \<^verbatim>\<open>ERANGE\<close> exactly in that case, and the end pointer stands right
  after the last digit. \<^verbatim>\<open>strtoul\<close> gives the number modulo \<open>2\<^sup>6\<^sup>4\<close>, negated under a minus sign, and the
  largest number with \<^verbatim>\<open>ERANGE\<close> when the digits exceed it.
\<close>

theorem strtol_number:
  assumes "number_text b ws sg ds rest"
    and "v = (if sg = [0x2D] then - int (text_value b ds) else int (text_value b ds))"
    and "s = ws @ sg @ ds @ rest"
  shows "sint (fst (strtol s (word_of_nat b))) = max (- (2 ^ 63)) (min (2 ^ 63 - 1) v) \<and>
    snd (strtol s (word_of_nat b)) = (length (ws @ sg @ ds), if - (2 ^ 63) \<le> v \<and> v < 2 ^ 63 then None else Some ERANGE) \<and>
    strtoul s (word_of_nat b) =
      (if text_value b ds < 2 ^ 64 then (word_of_int v, length (ws @ sg @ ds), None)
       else (0xFFFFFFFFFFFFFFFF, length (ws @ sg @ ds), Some ERANGE))"
proof -
  define n where "n = text_value b ds"
  have a: "(0x8000000000000000 :: u64) AND 1 = 0" "(0xFFFFFFFFFFFFFFFF :: u64) AND 1 = 1" by simp_all
  have u: "unat (0x8000000000000000 :: u64) = 2 ^ 63" "unat (0xFFFFFFFFFFFFFFFF :: u64) = 2 ^ 64 - 1" by simp_all
  note S = strtox_number [OF assms(1), of "0x8000000000000000"] and U = strtox_number [OF assms(1), of "0xFFFFFFFFFFFFFFFF"]
  have m: "sint (0x8000000000000000 :: u64) = - (2 ^ 63)" "sint (0x7FFFFFFFFFFFFFFF :: u64) = 2 ^ 63 - 1" by simp_all
  have big: "2 ^ 63 \<le> n \<longleftrightarrow> (2 ^ 63 :: int) \<le> int n" "2 ^ 63 < n \<longleftrightarrow> (2 ^ 63 :: int) < int n" by simp_all
  have "sint (fst (strtol s (word_of_nat b))) = max (- (2 ^ 63)) (min (2 ^ 63 - 1) v) \<and>
      snd (strtol s (word_of_nat b)) = (length (ws @ sg @ ds), if - (2 ^ 63) \<le> v \<and> v < 2 ^ 63 then None else Some ERANGE)"
    using S unfolding assms(2,3) strtol_def n_def [symmetric]
    by (auto simp: clamped_def a u m sint_of_nat sint_minus_of_nat not_le not_less big max_def min_def)
  moreover have "strtoul s (word_of_nat b) =
      (if n < 2 ^ 64 then (word_of_int v, length (ws @ sg @ ds), None)
       else (0xFFFFFFFFFFFFFFFF, length (ws @ sg @ ds), Some ERANGE))"
    using U unfolding assms(2,3) strtoul_def n_def [symmetric] by (auto simp: clamped_def a u)
  ultimately show ?thesis unfolding n_def by blast
qed

text \<open>The text is a blank, a minus sign, the digits of \<open>2\<^sup>6\<^sup>3 + 1\<close> in base sixteen and a semicolon.\<close>

theorem strtol_number_witness:
  "sint (fst (strtol ([0x20] @ [0x2D] @ [0x38, 0x30, 0x30, 0x30, 0x30, 0x30, 0x30, 0x30, 0x30, 0x30, 0x30, 0x30, 0x30, 0x30, 0x30, 0x31] @ [0x3B])
      (word_of_nat 16))) = - (2 ^ 63)"
proof -
  have n: "number_text 16 [0x20] [0x2D] [0x38, 0x30, 0x30, 0x30, 0x30, 0x30, 0x30, 0x30, 0x30, 0x30, 0x30, 0x30, 0x30, 0x30, 0x30, 0x31] [0x3B]"
    by (simp add: number_text_def isspace_def peek_def digit_value_def)
  have v: "text_value 16 [0x38, 0x30, 0x30, 0x30, 0x30, 0x30, 0x30, 0x30, 0x30, 0x30, 0x30, 0x30, 0x30, 0x30, 0x30, 0x31] = 2 ^ 63 + 1"
    by (simp add: text_value_def undigits_def digit_value_def)
  show ?thesis using strtol_number [OF n refl refl] unfolding v by simp
qed

definition c_string :: "u8 list \<Rightarrow> u8 list" where
  "c_string = takeWhile (\<lambda>c. c \<noteq> 0)"

lemma c_string_append: "0 \<notin> set s \<Longrightarrow> c_string (s @ 0 # t) = s"
  by (auto simp: c_string_def takeWhile_append)

lemma strtoull_decimal: "n < 2 ^ 64 \<Longrightarrow> strtoull (decimal n) 10 = (word_of_nat n, length (decimal n), None)"
  using strtox_number [OF decimal_text [of "[]" n], of "0xFFFFFFFFFFFFFFFF"]
  by (auto simp: strtoull_def clamped_def decimal_value)

lemma strtoull_hexadecimal: "n < 2 ^ 64 \<Longrightarrow> strtoull (hexadecimal n) 16 = (word_of_nat n, length (hexadecimal n), None)"
  using strtox_number [OF hexadecimal_text [of n], of "0xFFFFFFFFFFFFFFFF"]
  by (auto simp: strtoull_def clamped_def hexadecimal_value)

lemma signed_decimal_reads:
  assumes "- (2 ^ 63) < sint v"
  shows "strtoll (signed_decimal (sint v)) 10 = (v, length (signed_decimal (sint v)), None)"
    and "atoll (signed_decimal (sint v)) = v"
proof -
  define sg n where "sg = (if sint v < 0 then [0x2D] else [] :: u8 list)" and "n = nat \<bar>sint v\<bar>"
  have t: "number_text 10 [] sg (decimal n) []" by (rule decimal_text) (simp add: sg_def)
  have s: "signed_decimal (sint v) = [] @ sg @ decimal n @ []" by (simp add: signed_decimal_def sg_def n_def abs_if)
  have b: "n < 2 ^ 63" using assms sint_lt [of v] by (auto simp: n_def abs_if)
  have v: "(if sg = [0x2D] then - word_of_nat n else word_of_nat n) = v" by (simp add: sg_def n_def abs_if)
  show "strtoll (signed_decimal (sint v)) 10 = (v, length (signed_decimal (sint v)), None)"
    using strtox_number [OF t, of "0x8000000000000000"] b v
    by (auto simp: strtoll_def clamped_def decimal_value s split: if_splits)
  show "atoll (signed_decimal (sint v)) = v" using atox_number [OF t, where ?'w = 64] v by (auto simp: atoll_def s decimal_value split: if_splits)
qed

lemma signed_decimal_nonzero: "0 \<notin> set (signed_decimal i)"
  using decimal_nonzero by (simp add: signed_decimal_def)

text \<open>
  C20. The C library reads back what the kernel prints: into any buffer of at least 21 bytes,
  \<^verbatim>\<open>uint2str\<close>, \<^verbatim>\<open>hex2str\<close> and \<^verbatim>\<open>int2str\<close> write a string that \<^verbatim>\<open>strtoull\<close> in base ten, \<^verbatim>\<open>strtoull\<close> in base
  sixteen, and \<^verbatim>\<open>strtoll\<close> and \<^verbatim>\<open>atoll\<close> turn into the same number, consuming all of it without an
  error. The smallest signed number, which \<^verbatim>\<open>int2str\<close> does not print, is excepted.
\<close>

theorem printed_numbers_read_back:
  assumes "20 < length out" "length out \<le> 2 ^ 63"
  shows "(\<exists>out'. uint2str v out = Some out' \<and> strtoull (c_string out') 10 = (v, length (c_string out'), None)) \<and>
    (\<exists>out'. hex2str v out = Some out' \<and> strtoull (c_string out') 16 = (v, length (c_string out'), None)) \<and>
    (sint v \<noteq> - (2 ^ 63) \<longrightarrow> (\<exists>out'. int2str v out = Some out' \<and>
       strtoll (c_string out') 10 = (v, length (c_string out'), None) \<and> atoll (c_string out') = v))"
proof (intro conjI impI)
  show "\<exists>out'. uint2str v out = Some out' \<and> strtoull (c_string out') 10 = (v, length (c_string out'), None)"
    using uint2str_eq [OF assms] strtoull_decimal [of "unat v"] by (simp add: c_string_append decimal_nonzero)
  show "\<exists>out'. hex2str v out = Some out' \<and> strtoull (c_string out') 16 = (v, length (c_string out'), None)"
    using hex2str_eq [of out v] assms strtoull_hexadecimal [of "unat v"] by (simp add: c_string_append hexadecimal_nonzero)
  assume v: "sint v \<noteq> - (2 ^ 63)"
  then have "- (2 ^ 63) < sint v" using sint_ge [of v] by simp
  from signed_decimal_reads [OF this]
  show "\<exists>out'. int2str v out = Some out' \<and>
      strtoll (c_string out') 10 = (v, length (c_string out'), None) \<and> atoll (c_string out') = v"
    using int2str_eq [OF v assms] by (simp add: c_string_append signed_decimal_nonzero)
qed

theorem printed_numbers_read_back_witness:
  "\<exists>out'. int2str (- 42) (replicate 21 7) = Some out' \<and>
     strtoll (c_string out') 10 = (- 42, length (c_string out'), None) \<and> atoll (c_string out') = - 42"
  using printed_numbers_read_back [of "replicate 21 7" "- 42"] by simp

end
