(* ===== verification/CryptCorrect.thy ===== *)
theory CryptCorrect
  imports Crypt DigestCorrect StrtolCorrect
begin

text \<open>
  What the password functions compute, in terms of digests of whole messages; that the hash
  does not depend on the uninitialised context; and that a hash given as the setting hashes
  the same password to itself, which is how a password is checked.
\<close>

subsection \<open>A context reused for several digests\<close>

context block_hash
begin

lemma process_buf [simp]: "buf (process s b) = buf s" "len (process s b) = len s"
  by (simp_all add: process_law)

lemma pad_keeps_buffer:
  assumes "length (buf s) = bs"
  shows "length (buf (pad s)) = bs"
proof -
  define r where "r = unat (len s) mod bs"
  have r: "r < bs" using bs_pos by (simp add: r_def)
  show ?thesis
  proof (cases "r + 1 > lim")
    case True
    then show ?thesis using assms lim_less r unfolding pad_law Let_def r_def [symmetric] by (simp add: enc_length)
  next
    case False
    then show ?thesis using assms lim_less r unfolding pad_law Let_def r_def [symmetric] by (simp add: enc_length)
  qed
qed

end

subsection \<open>The hashes on whole messages\<close>

text \<open>The first \<open>n\<close> bytes of a digest repeated.\<close>

definition stretch :: "nat \<Rightarrow> u8 list \<Rightarrow> u8 list" where
  "stretch n md = map (\<lambda>i. md ! (i mod length md)) [0..<n]"

text \<open>A piece for each binary digit of the number, from the lowest.\<close>

fun bits_of :: "nat \<Rightarrow> bool list" where
  "bits_of n = (if n = 0 then [] else odd n # bits_of (n div 2))"

declare bits_of.simps [simp del]

text \<open>
  The password hash by SHA-256 or SHA-512: \<open>P\<close> and \<open>S\<close> replace key and salt in the rounds.
\<close>

definition sha_spec :: "(u8 list \<Rightarrow> u8 list) \<Rightarrow> u8 list \<Rightarrow> u8 list \<Rightarrow> nat \<Rightarrow> u8 list" where
  "sha_spec digest key salt r =
     (let B = digest (key @ salt @ key);
          A = digest (key @ salt @ stretch (length key) B @ concat (map (\<lambda>b. if b then B else key) (bits_of (length key))));
          P = stretch (length key) (digest (concat (replicate (length key) key)));
          S = take (length salt) (digest (concat (replicate (16 + unat (A ! 0)) salt)))
      in fold (\<lambda>i A. digest ((if odd i then P else A) @ (if i mod 3 = 0 then [] else S) @ (if i mod 7 = 0 then [] else P) @
           (if odd i then A else P))) [0..<r] A)"

definition md5_spec :: "u8 list \<Rightarrow> u8 list \<Rightarrow> u8 list" where
  "md5_spec key salt =
     (let B = md5_digest (key @ salt @ key);
          A = md5_digest (key @ chars ''$1$'' @ salt @ stretch (length key) B @ map (\<lambda>b. if b then 0 else hd key) (bits_of (length key)))
      in fold (\<lambda>i A. md5_digest ((if odd i then key else A) @ (if i mod 3 = 0 then [] else salt) @ (if i mod 7 = 0 then [] else key) @
           (if odd i then A else key))) [0..<1000] A)"

lemma by_bits_eq: "by_bits n p q = map (\<lambda>b. if b then p else q) (bits_of n)"
  by (induction n rule: bits_of.induct) (subst by_bits.simps, subst bits_of.simps, simp add: odd_iff_mod_2_eq_one)

lemma stretch_step: "length md = w \<Longrightarrow> w < n \<Longrightarrow> stretch n md = md @ stretch (n - w) md"
proof -
  assume "length md = w" "w < n"
  then have "[0..<n] = [0..<w] @ map (\<lambda>i. i + w) [0..<n - w]" using upt_add_eq_append [of 0 w "n - w"] by (simp add: map_add_upt)
  moreover have "map (\<lambda>i. md ! (i mod length md)) [0..<w] = md" using \<open>length md = w\<close> by (auto intro!: nth_equalityI)
  ultimately show ?thesis using \<open>length md = w\<close> by (simp add: stretch_def o_def)
qed

lemma concat_repeated: "length md = w \<Longrightarrow> 0 < w \<Longrightarrow> concat (repeated w n md) = stretch n md"
proof (induction w n md rule: repeated.induct)
  case (1 w n md)
  show ?case
  proof (cases "n > w")
    case True
    then show ?thesis using 1 by (subst repeated.simps) (simp add: stretch_step)
  next
    case False
    then have "stretch n md = take n md" using 1 by (auto simp: stretch_def intro!: nth_equalityI)
    then show ?thesis using False by (subst repeated.simps) simp
  qed
qed

text \<open>The interface the password functions use: one digest after another from one context.\<close>

locale digest_run =
  fixes run :: "'c \<Rightarrow> u8 list list \<Rightarrow> u8 list \<times> 'c" and okay :: "'c \<Rightarrow> bool" and digest :: "u8 list \<Rightarrow> u8 list" and w :: nat
  assumes run_digest: "okay c \<Longrightarrow> fst (run c xs) = digest (concat xs)"
    and run_okay: "okay c \<Longrightarrow> okay (snd (run c xs))"
    and digest_length: "length (digest m) = w"
    and width: "0 < w"
begin

lemma run_pair: "okay c \<Longrightarrow> \<exists>c'. run c xs = (digest (concat xs), c') \<and> okay c'"
  using run_digest [of c xs] run_okay [of c xs] by (cases "run c xs") simp

lemma fold_pair:
  assumes "okay c" "\<And>i md c. okay c \<Longrightarrow> \<exists>c'. step i (md, c) = (f i md, c') \<and> okay c'"
  shows "\<exists>c'. fold step is (md, c) = (fold f is md, c') \<and> okay c'"
  using assms(1)
proof (induction "is" arbitrary: md c)
  case (Cons i "is")
  obtain c' where "step i (md, c) = (f i md, c')" "okay c'" using assms(2) [OF Cons.prems] by blast
  then show ?case using Cons.IH by simp
qed simp

lemma sha_iterate_pair:
  assumes "okay c" "length kmd = w"
  shows "\<exists>c'. sha_iterate run w klen slen kmd smd i (md, c) =
    (digest ((if odd i then stretch klen kmd else md) @ (if i mod 3 = 0 then [] else take slen smd) @
       (if i mod 7 = 0 then [] else stretch klen kmd) @ (if odd i then md else stretch klen kmd)), c') \<and> okay c'"
proof -
  have e: "concat ((if i mod 2 \<noteq> 0 then repeated w klen kmd else [md]) @ (if i mod 3 \<noteq> 0 then [take slen smd] else []) @
      (if i mod 7 \<noteq> 0 then repeated w klen kmd else []) @ (if i mod 2 \<noteq> 0 then [md] else repeated w klen kmd)) =
    (if odd i then stretch klen kmd else md) @ (if i mod 3 = 0 then [] else take slen smd) @
       (if i mod 7 = 0 then [] else stretch klen kmd) @ (if odd i then md else stretch klen kmd)"
    using concat_repeated [OF assms(2) width] by (simp add: odd_iff_mod_2_eq_one)
  show ?thesis unfolding sha_iterate_def prod.case e [symmetric] by (rule run_pair [OF assms(1)])
qed

lemma sha_hash_eq:
  assumes "okay c"
  shows "sha_hash run w c key salt r = sha_spec digest key salt r"
proof -
  define B where "B = digest (key @ salt @ key)"
  define A where "A = digest (key @ salt @ stretch (length key) B @ concat (map (\<lambda>b. if b then B else key) (bits_of (length key))))"
  define DP where "DP = digest (concat (replicate (length key) key))"
  define DS where "DS = digest (concat (replicate (16 + unat (A ! 0)) salt))"
  obtain c1 where c1: "run c [key, salt, key] = (B, c1)" "okay c1"
    using run_pair [OF assms, of "[key, salt, key]"] by (auto simp: B_def)
  have "length B = w" by (simp add: B_def digest_length)
  then have e: "concat ([key, salt] @ repeated w (length key) B @ by_bits (length key) B key) =
      key @ salt @ stretch (length key) B @ concat (map (\<lambda>b. if b then B else key) (bits_of (length key)))"
    using concat_repeated [OF _ width] by (simp add: by_bits_eq)
  obtain c2 where c2: "run c1 ([key, salt] @ repeated w (length key) B @ by_bits (length key) B key) = (A, c2)" "okay c2"
    using run_pair [OF c1(2)] unfolding A_def e [symmetric] by blast
  obtain c3 where c3: "run c2 (replicate (length key) key) = (DP, c3)" "okay c3"
    using run_pair [OF c2(2)] unfolding DP_def by blast
  obtain c4 where c4: "run c3 (replicate (16 + unat (A ! 0)) salt) = (DS, c4)" "okay c4"
    using run_pair [OF c3(2)] unfolding DS_def by blast
  have "\<exists>c'. fold (sha_iterate run w (length key) (length salt) DP DS) [0..<r] (A, c4) =
    (fold (\<lambda>i A. digest ((if odd i then stretch (length key) DP else A) @ (if i mod 3 = 0 then [] else take (length salt) DS) @
       (if i mod 7 = 0 then [] else stretch (length key) DP) @ (if odd i then A else stretch (length key) DP))) [0..<r] A, c') \<and> okay c'"
    using c4(2) by (rule fold_pair) (rule sha_iterate_pair, simp_all add: DP_def digest_length)
  then show ?thesis
    unfolding sha_hash_def sha_spec_def Let_def c1 B_def [symmetric] A_def [symmetric] DP_def [symmetric] DS_def [symmetric] prod.case c2 c3 c4
    by auto
qed

end

lemma emit_words_length [simp]: "length (emit_words n js v) = n * length js"
  by (induction n) (simp_all add: emit_words_def)

lemma digest_lengths [simp]: "length (md5_digest m) = 16" "length (sha256_digest m) = 32" "length (sha512_digest m) = 64"
  by (simp_all add: md5_digest_def sha256_digest_def sha512_digest_def block_digest_def)

interpretation md5_runs: digest_run md5_run "\<lambda>c. length (buf c) = 64" md5_digest 16
proof
  fix c :: md5 and xs :: "u8 list list"
  assume c: "length (buf c) = 64"
  then have "length (buf (foldl md5_update (md5_init c) xs)) = 64"
    using md5.rep_updates [OF md5.rep_init, of c xs] by (simp add: hash_rep_def)
  then show "length (buf (snd (md5_run c xs))) = 64" by (simp add: md5_run_def Let_def md5.pad_keeps_buffer)
  show "fst (md5_run c xs) = md5_digest (concat xs)"
    using md5.sum_updates [OF c] by (simp add: md5_run_def Let_def md5_digest_def)
qed simp_all

interpretation sha256_runs: digest_run sha256_run "\<lambda>c. length (buf c) = 64" sha256_digest 32
proof
  fix c :: sha256 and xs :: "u8 list list"
  assume c: "length (buf c) = 64"
  then have "length (buf (foldl sha256_update (sha256_init c) xs)) = 64"
    using sha256.rep_updates [OF sha256.rep_init, of c xs] by (simp add: hash_rep_def)
  then show "length (buf (snd (sha256_run c xs))) = 64" by (simp add: sha256_run_def Let_def sha256.pad_keeps_buffer)
  show "fst (sha256_run c xs) = sha256_digest (concat xs)"
    using sha256.sum_updates [OF c] by (simp add: sha256_run_def Let_def sha256_digest_def)
qed simp_all

interpretation sha512_runs: digest_run sha512_run "\<lambda>c. length (buf c) = 128" sha512_digest 64
proof
  fix c :: sha512 and xs :: "u8 list list"
  assume c: "length (buf c) = 128"
  then have "length (buf (foldl sha512_update (sha512_init c) xs)) = 128"
    using sha512.rep_updates [OF sha512.rep_init, of c xs] by (simp add: hash_rep_def)
  then show "length (buf (snd (sha512_run c xs))) = 128" by (simp add: sha512_run_def Let_def sha512.pad_keeps_buffer)
  show "fst (sha512_run c xs) = sha512_digest (concat xs)"
    using sha512.sum_updates [OF c] by (simp add: sha512_run_def Let_def sha512_digest_def)
qed simp_all

lemma md5_iterate_pair:
  assumes "length (buf c) = 64"
  shows "\<exists>c'. md5_iterate key salt i (md, c) =
    (md5_digest ((if odd i then key else md) @ (if i mod 3 = 0 then [] else salt) @ (if i mod 7 = 0 then [] else key) @
       (if odd i then md else key)), c') \<and> length (buf c') = 64"
proof -
  have e: "concat ([if i mod 2 \<noteq> 0 then key else md] @ (if i mod 3 \<noteq> 0 then [salt] else []) @
      (if i mod 7 \<noteq> 0 then [key] else []) @ [if i mod 2 \<noteq> 0 then md else key]) =
    (if odd i then key else md) @ (if i mod 3 = 0 then [] else salt) @ (if i mod 7 = 0 then [] else key) @ (if odd i then md else key)"
    by (simp add: odd_iff_mod_2_eq_one)
  show ?thesis unfolding md5_iterate_def prod.case e [symmetric] by (rule md5_runs.run_pair [OF assms])
qed

lemma bits_of_zero: "bits_of 0 = []"
  by (simp add: bits_of.simps)

lemma concat_singletons: "concat (map (\<lambda>b. if b then [x] else [y]) bs) = map (\<lambda>b. if b then x else y) bs"
  by (induction bs) simp_all

lemma md5_hash_eq:
  assumes "length (buf c) = 64" "take (3 + length salt) setting = chars ''$1$'' @ salt"
  shows "md5_hash c key setting salt = md5_spec key salt"
proof -
  define B where "B = md5_digest (key @ salt @ key)"
  define A where "A = md5_digest (key @ chars ''$1$'' @ salt @ stretch (length key) B @ map (\<lambda>b. if b then 0 else hd key) (bits_of (length key)))"
  obtain c1 where c1: "md5_run c [key, salt, key] = (B, c1)" "length (buf c1) = 64"
    using md5_runs.run_pair [OF assms(1), of "[key, salt, key]"] by (auto simp: B_def)
  have l: "length B = 16" by (simp add: B_def)
  then have z: "take 1 (B[0 := 0]) = [0]" by (cases B) simp_all
  have k: "concat (by_bits (length key) (take 1 (B[0 := 0])) (take 1 key)) = map (\<lambda>b. if b then 0 else hd key) (bits_of (length key))"
    unfolding z by (cases key) (simp_all add: by_bits_eq bits_of_zero concat_singletons)
  have e: "concat ([key, take (3 + length salt) setting] @ repeated 16 (length key) B @ by_bits (length key) (take 1 (B[0 := 0])) (take 1 key)) =
      key @ chars ''$1$'' @ salt @ stretch (length key) B @ map (\<lambda>b. if b then 0 else hd key) (bits_of (length key))"
    using concat_repeated [OF l] by (simp add: k assms(2) del: One_nat_def)
  obtain c2 where c2: "md5_run c1 ([key, take (3 + length salt) setting] @ repeated 16 (length key) B @
      by_bits (length key) (take 1 (B[0 := 0])) (take 1 key)) = (A, c2)" "length (buf c2) = 64"
    using md5_runs.run_pair [OF c1(2)] unfolding A_def e [symmetric] by blast
  have "\<exists>c'. fold (md5_iterate key salt) [0..<1000] (A, c2) =
    (fold (\<lambda>i A. md5_digest ((if odd i then key else A) @ (if i mod 3 = 0 then [] else salt) @ (if i mod 7 = 0 then [] else key) @
       (if odd i then A else key))) [0..<1000] A, c') \<and> length (buf c') = 64"
    using c2(2) by (rule md5_runs.fold_pair) (rule md5_iterate_pair)
  then show ?thesis
    unfolding md5_hash_def md5_spec_def Let_def c1 B_def [symmetric] A_def [symmetric] prod.case c2 by auto
qed

subsection \<open>Settings\<close>

lemma strncmp_prefix: "0 \<notin> set p \<Longrightarrow> length p = n \<Longrightarrow> strncmp s p n = 0 \<longleftrightarrow> take n s = p"
proof (induction p arbitrary: s n)
  case (Cons c p)
  obtain m where n: "n = Suc m" using Cons.prems by (cases n) simp_all
  show ?case
  proof (cases s)
    case Nil
    then show ?thesis using Cons.prems by (simp add: n peek_def uint_0_iff)
  next
    case (Cons d t)
    then show ?thesis using Cons.IH [of m t] Cons.prems by (cases p) (auto simp: n peek_def uint_0_iff word_uint_eq_iff [symmetric])
  qed
qed simp

lemma chars_simps: "chars [] = []" "chars (c # s) = of_char c # chars s"
  by (simp_all add: chars_def)

lemma chars_dollar: "chars ''$'' = [0x24]"
  by (simp add: chars_simps)

lemma strncmp_prefixes:
  "strncmp s (chars ''$1$'') 3 = 0 \<longleftrightarrow> take 3 s = chars ''$1$''"
  "strncmp s (chars ''$5$'') 3 = 0 \<longleftrightarrow> take 3 s = chars ''$5$''"
  "strncmp s (chars ''$6$'') 3 = 0 \<longleftrightarrow> take 3 s = chars ''$6$''"
  "strncmp s (chars ''rounds='') 7 = 0 \<longleftrightarrow> take 7 s = chars ''rounds=''"
  by (rule strncmp_prefix; simp add: chars_simps)+

lemma scan_salt_Some:
  "scan_salt no n s = Some k \<Longrightarrow> k \<le> n \<and> k \<le> length s \<and> (\<forall>c \<in> set (take k s). c \<noteq> 0 \<and> c \<noteq> 0x24 \<and> \<not> no c)"
proof (induction n arbitrary: s k)
  case (Suc n)
  show ?case
  proof (cases s)
    case (Cons c t)
    then show ?thesis using Suc by (fastforce simp: peek_def split: if_splits)
  qed (use Suc.prems in \<open>simp add: peek_def\<close>)
qed simp

lemma scan_salt_again: "scan_salt no n s = Some k \<Longrightarrow> scan_salt no n (take k s @ 0x24 # t) = Some k"
proof (induction n arbitrary: s k)
  case (Suc n)
  show ?case
  proof (cases s)
    case (Cons c s')
    then show ?thesis using Suc by (auto simp: peek_def split: if_splits)
  qed (use Suc.prems in \<open>simp add: peek_def\<close>)
qed simp

lemma strtoul_decimal:
  assumes "n < 2 ^ 64" "10 \<le> digit_value (peek t)"
  shows "strtoul (decimal n @ t) 10 = (word_of_nat n, length (decimal n), None)"
proof -
  have "number_text 10 [] [] (decimal n) t"
    using assms(2) by (simp add: number_text_def decimal_value text_nonempty)
  from strtox_number [OF this, of "0xFFFFFFFFFFFFFFFF"] show ?thesis
    using assms(1) by (simp add: strtoul_def clamped_def decimal_value)
qed

lemma decimal_starts: "isdigit (peek (decimal n @ t))"
  using decimal_value(2) [of n] text_nonempty(1) [of n] by (cases "decimal n") (simp_all add: peek_def isdigit_iff)

lemma parse_rounds_text:
  assumes "1000 \<le> r" "r \<le> 9999999"
  shows "parse_rounds (chars ''rounds='' @ decimal (unat r) @ chars ''$'' @ t) = Some (r, chars ''rounds='' @ decimal (unat r) @ chars ''$'', t)"
proof -
  have r: "\<not> r < 1000" "\<not> 9999999 < r" using assms by (simp_all add: not_less)
  have l: "length (chars ''rounds='') = 7" by (simp add: chars_simps)
  have p: "peek (0x24 # t) = 0x24" "10 \<le> digit_value 0x24" by (simp_all add: peek_def digit_value_def)
  show ?thesis
    using strtoul_decimal [of "unat r" "0x24 # t"] decimal_starts [of "unat r" "0x24 # t"]
    by (simp add: parse_rounds_def strncmp_prefixes l r p Let_def chars_dollar)
qed

lemma parse_rounds_cases:
  assumes "parse_rounds s = Some (r, rounds, salt)"
  obtains (default) "r = 5000" "rounds = []" "salt = s" "take 7 s \<noteq> chars ''rounds=''"
  | (given) "1000 \<le> r" "r \<le> 9999999" "rounds = chars ''rounds='' @ decimal (unat r) @ chars ''$''"
  using assms by (auto simp: parse_rounds_def strncmp_prefixes Let_def not_less split: if_splits prod.splits)

lemma parse_rounds_again:
  assumes "parse_rounds s = Some (r, rounds, salt)" "scan_salt no n salt = Some k"
  shows "parse_rounds (rounds @ take k salt @ 0x24 # t) = Some (r, rounds, take k salt @ 0x24 # t)"
  using assms(1)
proof (cases rule: parse_rounds_cases)
  case default
  have "take 7 (take k salt @ 0x24 # t) \<noteq> chars ''rounds=''"
  proof (cases "7 \<le> k")
    case True
    then show ?thesis using default scan_salt_Some [OF assms(2)] by simp
  next
    case False
    then have "0x24 \<in> set (take 7 (take k salt @ 0x24 # t))"
      by (cases "7 - length (take k salt)") (auto simp: min_def split: if_splits)
    moreover have "0x24 \<notin> set (chars ''rounds='')" by (simp add: chars_simps)
    ultimately show ?thesis by metis
  qed
  then show ?thesis using default by (simp add: parse_rounds_def strncmp_prefixes)
next
  case given
  then show ?thesis using parse_rounds_text [of r "take k salt @ 0x24 # t"] by (simp add: chars_dollar)
qed

subsection \<open>The functions\<close>

text \<open>A result is the normalised setting, a dollar sign and the hash; hashing with it as the setting repeats it.\<close>

lemma md5crypt_again:
  assumes "md5crypt c key setting = Some out" "length (buf c) = 64" "length (buf c') = 64"
  shows "md5crypt c' key out = Some out"
proof -
  obtain k where k: "scan_salt (\<lambda>c. False) 8 (drop 3 setting) = Some k"
    and pre: "\<not> strnlen key (30000 + 1) > 30000" "take 3 setting = chars ''$1$''"
    using assms(1) by (auto simp: md5crypt_def strncmp_prefixes Let_def split: if_splits option.splits)
  define salt where "salt = take k (drop 3 setting)"
  have t: "take (3 + k) setting = chars ''$1$'' @ salt" using pre(2) by (simp add: salt_def take_add)
  have l: "length salt = k" using scan_salt_Some [OF k] by (simp add: salt_def)
  define md where "md = md5_spec key salt"
  define tail where "tail = triples64 md md5_perm @ to64 (ucast (md ! 11)) 2"
  have out: "out = chars ''$1$'' @ salt @ 0x24 # tail"
    using assms(1) k pre md5_hash_eq [OF assms(2), of salt setting key] t l
    by (simp add: md5crypt_def strncmp_prefixes Let_def salt_def [symmetric] md_def [symmetric] tail_def [symmetric] chars_dollar)
  have o: "take 3 out = chars ''$1$''" "drop 3 out = salt @ 0x24 # tail" by (simp_all add: out chars_simps)
  have k': "scan_salt (\<lambda>c. False) 8 (drop 3 out) = Some k" using scan_salt_again [OF k] by (simp only: o salt_def)
  have t': "take (3 + k) out = chars ''$1$'' @ salt" using o l by (simp add: take_add)
  show ?thesis
    using k' pre o md5_hash_eq [OF assms(3), of salt out key] t' l
    by (simp add: md5crypt_def strncmp_prefixes Let_def md_def [symmetric] tail_def [symmetric] chars_dollar) (simp add: out)
qed

lemma sha256crypt_again:
  assumes "sha256crypt c key setting = Some out" "length (buf c) = 64" "length (buf c') = 64"
  shows "sha256crypt c' key out = Some out"
proof -
  obtain r rounds s k where k: "parse_rounds (drop 3 setting) = Some (r, rounds, s)" "scan_salt refused 16 s = Some k"
    and pre: "\<not> strnlen key (256 + 1) > 256" "take 3 setting = chars ''$5$''"
    using assms(1) by (auto simp: sha256crypt_def strncmp_prefixes Let_def split: if_splits option.splits)
  define salt where "salt = take k s"
  have l: "length salt = k" using scan_salt_Some [OF k(2)] by (simp add: salt_def)
  define md where "md = sha_spec sha256_digest key salt (unat r)"
  define tail where "tail = triples64 md sha256_perm @ to64 (push_bit 8 (ucast (md ! 31)) OR ucast (md ! 30)) 3"
  note md = sha256_runs.sha_hash_eq [of _ key salt "unat r", folded md_def]
  have out: "out = chars ''$5$'' @ rounds @ salt @ 0x24 # tail"
    using assms(1) k pre md [OF assms(2)]
    by (simp add: sha256crypt_def strncmp_prefixes Let_def salt_def [symmetric] tail_def [symmetric] chars_dollar)
  have o: "take 3 out = chars ''$5$''" "drop 3 out = rounds @ salt @ 0x24 # tail" by (simp_all add: out chars_simps)
  have p: "parse_rounds (drop 3 out) = Some (r, rounds, salt @ 0x24 # tail)" "scan_salt refused 16 (salt @ 0x24 # tail) = Some k"
    using parse_rounds_again [OF k] scan_salt_again [OF k(2)] by (simp_all only: o salt_def)
  show ?thesis
    using p pre o(1) md [OF assms(3)] l
    by (simp add: sha256crypt_def strncmp_prefixes Let_def tail_def [symmetric] chars_dollar) (simp add: out)
qed

lemma sha512crypt_again:
  assumes "sha512crypt c key setting = Some out" "length (buf c) = 128" "length (buf c') = 128"
  shows "sha512crypt c' key out = Some out"
proof -
  obtain r rounds s k where k: "parse_rounds (drop 3 setting) = Some (r, rounds, s)" "scan_salt refused 16 s = Some k"
    and pre: "\<not> length (takeWhile (\<lambda>c. c \<noteq> 0) (take 257 key)) > 256" "take 3 setting = chars ''$6$''"
    using assms(1) by (auto simp: sha512crypt_def strncmp_prefixes Let_def split: if_splits option.splits)
  define salt where "salt = take k s"
  have l: "length salt = k" using scan_salt_Some [OF k(2)] by (simp add: salt_def)
  define md where "md = sha_spec sha512_digest key salt (unat r)"
  define tail where "tail = triples64 md sha512_perm @ to64 (ucast (md ! 63)) 2"
  note md = sha512_runs.sha_hash_eq [of _ key salt "unat r", folded md_def]
  have out: "out = chars ''$6$'' @ rounds @ salt @ 0x24 # tail"
    using assms(1) k pre md [OF assms(2)]
    by (simp add: sha512crypt_def strncmp_prefixes Let_def salt_def [symmetric] tail_def [symmetric] chars_dollar)
  have o: "take 3 out = chars ''$6$''" "drop 3 out = rounds @ salt @ 0x24 # tail" by (simp_all add: out chars_simps)
  have p: "parse_rounds (drop 3 out) = Some (r, rounds, salt @ 0x24 # tail)" "scan_salt refused 16 (salt @ 0x24 # tail) = Some k"
    using parse_rounds_again [OF k] scan_salt_again [OF k(2)] by (simp_all only: o salt_def)
  show ?thesis
    using p pre o(1) md [OF assms(3)] l
    by (simp add: sha512crypt_def strncmp_prefixes Let_def tail_def [symmetric] chars_dollar) (simp add: out)
qed

lemma md5crypt_context: "length (buf c) = 64 \<Longrightarrow> length (buf c') = 64 \<Longrightarrow> md5crypt c key s = md5crypt c' key s"
proof (cases "take 3 s = chars ''$1$''")
  case True
  assume c: "length (buf c) = 64" "length (buf c') = 64"
  have "md5_hash c key s (take k (drop 3 s)) = md5_hash c' key s (take k (drop 3 s))"
    if "scan_salt (\<lambda>c. False) 8 (drop 3 s) = Some k" for k
  proof -
    have "length (take k (drop 3 s)) = k" using scan_salt_Some [OF that] by simp
    then have "take (3 + length (take k (drop 3 s))) s = chars ''$1$'' @ take k (drop 3 s)" using True by (simp add: take_add)
    then show ?thesis using md5_hash_eq c by metis
  qed
  then show ?thesis by (simp add: md5crypt_def Let_def cong: option.case_cong split: option.split)
qed (simp add: md5crypt_def strncmp_prefixes)

lemma sha256crypt_context: "length (buf c) = 64 \<Longrightarrow> length (buf c') = 64 \<Longrightarrow> sha256crypt c key s = sha256crypt c' key s"
proof -
  assume "length (buf c) = 64" "length (buf c') = 64"
  then have "sha_hash sha256_run 32 c = sha_hash sha256_run 32 c'" by (intro ext) (simp add: sha256_runs.sha_hash_eq)
  then show ?thesis by (simp only: sha256crypt_def)
qed

lemma sha512crypt_context: "length (buf c) = 128 \<Longrightarrow> length (buf c') = 128 \<Longrightarrow> sha512crypt c key s = sha512crypt c' key s"
proof -
  assume "length (buf c) = 128" "length (buf c') = 128"
  then have "sha_hash sha512_run 64 c = sha_hash sha512_run 64 c'" by (intro ext) (simp add: sha512_runs.sha_hash_eq)
  then show ?thesis by (simp only: sha512crypt_def)
qed

lemma star_refused: "md5crypt m key (chars ''*'') = None" "sha256crypt s key (chars ''*'') = None" "sha512crypt t key (chars ''*'') = None"
proof -
  have "take 3 (chars ''*'') \<noteq> chars ''$1$''" "take 3 (chars ''*'') \<noteq> chars ''$5$''" "take 3 (chars ''*'') \<noteq> chars ''$6$''"
    by (simp_all add: chars_simps)
  then show "md5crypt m key (chars ''*'') = None" "sha256crypt s key (chars ''*'') = None" "sha512crypt t key (chars ''*'') = None"
    by (simp_all add: md5crypt_def sha256crypt_def sha512crypt_def strncmp_prefixes)
qed

text \<open>The wrappers: a function with a self test that replaces every result by a star when it fails.\<close>

lemma wrapper_again:
  assumes "\<And>out. f s = Some out \<Longrightarrow> f' out = Some out" "f' star = None" "q = q'"
  shows "(if f' (if f s = None \<or> q \<noteq> good then star else the (f s)) = None \<or> q' \<noteq> good then star
      else the (f' (if f s = None \<or> q \<noteq> good then star else the (f s)))) =
    (if f s = None \<or> q \<noteq> good then star else the (f s))"
  using assms by (cases "f s") auto

lemma scan_salt_all: "length salt \<le> n \<Longrightarrow> \<forall>c \<in> set salt. c \<noteq> 0 \<and> c \<noteq> 0x24 \<and> \<not> no c \<Longrightarrow> peek t = 0 \<or> peek t = 0x24 \<Longrightarrow>
    scan_salt no n (salt @ t) = Some (length salt)"
proof (induction n arbitrary: salt)
  case (Suc n)
  then show ?case by (cases salt) (auto simp: peek_def)
qed simp

lemma to64_length [simp]: "length (to64 u n) = n"
  by (induction n arbitrary: u) simp_all

lemma b64_plain: "length b64 = 64" "c \<in> set b64 \<Longrightarrow> c \<notin> {0, 0x0A, 0x3A}"
  by (auto simp: b64_def chars_simps)

lemma to64_plain: "c \<in> set (to64 u n) \<Longrightarrow> c \<notin> {0, 0x0A, 0x3A}"
proof (induction n arbitrary: u)
  case (Suc n)
  have "unat (u mod 64) < length b64" by (simp add: unat_mod b64_plain)
  then have "b64 ! unat (u mod 64) \<in> set b64" by (rule nth_mem)
  then show ?case using Suc b64_plain(2) by auto
qed simp

lemma triples64_simps: "length (triples64 md perm) = 4 * length perm" "c \<in> set (triples64 md perm) \<Longrightarrow> c \<notin> {0, 0x0A, 0x3A}"
  using to64_plain by (induction perm) (fastforce simp: triples64_def)+

lemma decimal_plain: "c \<in> set (decimal n) \<Longrightarrow> c \<notin> {0, 0x0A, 0x3A}"
  using decimal_value(2) [of n] by (auto simp: list_all_iff digit_value_def)

lemma parse_rounds_plain:
  assumes "parse_rounds s = Some (r, rounds, salt)"
  shows "length rounds \<le> 15 \<and> set rounds \<inter> {0, 0x0A, 0x3A} = {}"
  using assms
proof (cases rule: parse_rounds_cases)
  case given
  have "unat r < 10 ^ 7" using given(2) by (simp add: word_le_nat_alt)
  then have "length (decimal (unat r)) \<le> 7" using digits_length [of 10 "unat r" 7] by (simp add: decimal_def)
  then show ?thesis using given(3) decimal_plain [of _ "unat r"] by (auto simp: chars_simps)
qed simp

lemma md5crypt_fits:
  assumes "md5crypt m key setting = Some out"
  shows "length out < 64 \<and> 0 \<notin> set out"
proof -
  from assms obtain k md where k: "scan_salt (\<lambda>c. False) 8 (drop 3 setting) = Some k" "take 3 setting = chars ''$1$''"
    and out: "out = take (3 + k) setting @ chars ''$'' @ triples64 md md5_perm @ to64 (ucast (md ! 11)) 2"
    by (auto simp: md5crypt_def strncmp_prefixes Let_def split: if_splits option.splits)
  show ?thesis
    using scan_salt_Some [OF k(1)] k(2) triples64_simps(1) [of md md5_perm] triples64_simps(2) [of _ md md5_perm] to64_plain [of 0]
    by (auto simp: out take_add chars_simps md5_perm_def)
qed

lemma sha256crypt_fits:
  assumes "sha256crypt s key setting = Some out"
  shows "length out < 128 \<and> set out \<inter> {0, 0x0A, 0x3A} = {}"
proof -
  from assms obtain r rounds salt k md where k: "parse_rounds (drop 3 setting) = Some (r, rounds, salt)" "scan_salt refused 16 salt = Some k"
    and out: "out = chars ''$5$'' @ rounds @ take k salt @ chars ''$'' @ triples64 md sha256_perm @
       to64 (push_bit 8 (ucast (md ! 31)) OR ucast (md ! 30)) 3"
    by (auto simp: sha256crypt_def Let_def split: if_splits option.splits)
  show ?thesis
    using scan_salt_Some [OF k(2)] parse_rounds_plain [OF k(1)] triples64_simps(1) [of md sha256_perm] triples64_simps(2) [of _ md sha256_perm] to64_plain
    by (auto simp: out chars_simps sha256_perm_def refused_def)
qed

lemma sha512crypt_fits:
  assumes "sha512crypt t key setting = Some out"
  shows "length out < 128 \<and> set out \<inter> {0, 0x0A, 0x3A} = {}"
proof -
  from assms obtain r rounds salt k md where k: "parse_rounds (drop 3 setting) = Some (r, rounds, salt)" "scan_salt refused 16 salt = Some k"
    and out: "out = chars ''$6$'' @ rounds @ take k salt @ chars ''$'' @ triples64 md sha512_perm @ to64 (ucast (md ! 63)) 2"
    by (auto simp: sha512crypt_def Let_def split: if_splits option.splits)
  show ?thesis
    using scan_salt_Some [OF k(2)] parse_rounds_plain [OF k(1)] triples64_simps(1) [of md sha512_perm] triples64_simps(2) [of _ md sha512_perm] to64_plain
    by (auto simp: out chars_simps sha512_perm_def refused_def)
qed

lemma setting_parts:
  assumes "1000 \<le> r" "r \<le> 9999999" "length salt \<le> 16" "set salt \<inter> {0, 0x0A, 0x24, 0x3A} = {}"
  shows "parse_rounds (chars ''rounds='' @ decimal r @ chars ''$'' @ salt) =
      Some (word_of_nat r, chars ''rounds='' @ decimal r @ chars ''$'', salt)"
    and "scan_salt refused 16 salt = Some (length salt)"
proof -
  have "unat (word_of_nat r :: u64) = r" using assms(2) by (simp add: unat_of_nat)
  then show "parse_rounds (chars ''rounds='' @ decimal r @ chars ''$'' @ salt) =
      Some (word_of_nat r, chars ''rounds='' @ decimal r @ chars ''$'', salt)"
    using parse_rounds_text [of "word_of_nat r" salt] assms(1,2) by (simp add: word_le_nat_alt)
  show "scan_salt refused 16 salt = Some (length salt)"
    using scan_salt_all [of salt 16 refused "[]"] assms(3,4) by (auto simp: peek_def refused_def)
qed

lemma take_chars3: "take 3 (chars [a, b, c] @ t) = chars [a, b, c]" "drop 3 (chars [a, b, c] @ t) = t"
  by (simp_all add: chars_simps)

subsection \<open>Properties\<close>

text \<open>
  C21. Checking a password: hashing a key with its own hash as the setting gives that hash, for
  MD5, SHA-256 and SHA-512 and any setting, with or without a rounds field, also where the
  number of rounds is written with leading zeros or is raised to the minimum. The contents of
  the uninitialised contexts of the calls play no role.
\<close>

theorem crypt_verifies:
  assumes "list_all (\<lambda>c. length (buf c) = 64) [m1, m2, m3, m4]"
    and "list_all (\<lambda>c. length (buf c) = 64) [s1, s2, s3, s4]"
    and "list_all (\<lambda>c. length (buf c) = 128) [t1, t2, t3, t4]"
  shows "crypt_md5 m1 m2 key (crypt_md5 m3 m4 key setting) = crypt_md5 m3 m4 key setting \<and>
    crypt_sha256 s1 s2 key (crypt_sha256 s3 s4 key setting) = crypt_sha256 s3 s4 key setting \<and>
    crypt_sha512 t1 t2 key (crypt_sha512 t3 t4 key setting) = crypt_sha512 t3 t4 key setting"
proof (intro conjI)
  show "crypt_md5 m1 m2 key (crypt_md5 m3 m4 key setting) = crypt_md5 m3 m4 key setting"
    unfolding crypt_md5_def Let_def using assms(1)
    by (intro wrapper_again) (auto intro: md5crypt_again md5crypt_context simp: star_refused)
  show "crypt_sha256 s1 s2 key (crypt_sha256 s3 s4 key setting) = crypt_sha256 s3 s4 key setting"
    unfolding crypt_sha256_def Let_def using assms(2)
    by (intro wrapper_again) (auto intro: sha256crypt_again sha256crypt_context simp: star_refused)
  show "crypt_sha512 t1 t2 key (crypt_sha512 t3 t4 key setting) = crypt_sha512 t3 t4 key setting"
    unfolding crypt_sha512_def Let_def using assms(3)
    by (intro wrapper_again) (auto intro: sha512crypt_again sha512crypt_context simp: star_refused)
qed

theorem crypt_verifies_witness:
  "crypt_sha256 \<lparr>len = 1, h = [], buf = replicate 64 1\<rparr> \<lparr>len = 2, h = [], buf = replicate 64 2\<rparr> (chars ''pw'')
     (crypt_sha256 \<lparr>len = 3, h = [], buf = replicate 64 3\<rparr> \<lparr>len = 4, h = [], buf = replicate 64 4\<rparr> (chars ''pw'') (chars ''$5$rounds=007$NaCl'')) =
   crypt_sha256 \<lparr>len = 3, h = [], buf = replicate 64 3\<rparr> \<lparr>len = 4, h = [], buf = replicate 64 4\<rparr> (chars ''pw'') (chars ''$5$rounds=007$NaCl'')"
  using crypt_verifies [of "\<lparr>len = 1, h = [], buf = replicate 64 1\<rparr>" "\<lparr>len = 2, h = [], buf = replicate 64 2\<rparr>"
      "\<lparr>len = 3, h = [], buf = replicate 64 3\<rparr>" "\<lparr>len = 4, h = [], buf = replicate 64 4\<rparr>"
      "\<lparr>len = 1, h = [], buf = replicate 64 1\<rparr>" "\<lparr>len = 2, h = [], buf = replicate 64 2\<rparr>"
      "\<lparr>len = 3, h = [], buf = replicate 64 3\<rparr>" "\<lparr>len = 4, h = [], buf = replicate 64 4\<rparr>"
      "\<lparr>len = 1, h = [], buf = replicate 128 1\<rparr>" "\<lparr>len = 2, h = [], buf = replicate 128 2\<rparr>"
      "\<lparr>len = 3, h = [], buf = replicate 128 3\<rparr>" "\<lparr>len = 4, h = [], buf = replicate 128 4\<rparr>"
      "chars ''pw''" "chars ''$5$rounds=007$NaCl''"]
  by simp

text \<open>
  C23. A result always fits, with its terminating zero, in the buffer it is written to: 64 bytes
  are enough for MD5 and the 128 of \<^verbatim>\<open>crypt\<close> for SHA-256 and SHA-512. The SHA-2 results have no
  newline and no colon, which would break a line of the password file, and none has a zero.
\<close>

theorem crypt_output_fits:
  "length (crypt_md5 m m' key setting) < 64 \<and> 0 \<notin> set (crypt_md5 m m' key setting) \<and>
   length (crypt_sha256 s s' key setting) < 128 \<and> set (crypt_sha256 s s' key setting) \<inter> {0, 0x0A, 0x3A} = {} \<and>
   length (crypt_sha512 t t' key setting) < 128 \<and> set (crypt_sha512 t t' key setting) \<inter> {0, 0x0A, 0x3A} = {}"
  using md5crypt_fits [of m key setting] sha256crypt_fits [of s key setting] sha512crypt_fits [of t key setting]
  by (auto simp: crypt_md5_def crypt_sha256_def crypt_sha512_def Let_def chars_simps)

text \<open>
  C22. The SHA-2 password functions compute the published scheme: for a setting with a number of
  rounds in the accepted range and a salt of at most sixteen allowed characters, the result is
  the setting, a dollar sign and the encoding of the hash that \<open>sha_spec\<close> defines over digests of
  whole messages, whatever the uninitialised context holds.
\<close>

theorem sha_crypt_computes:
  assumes "length (buf c) = 64" "length (buf d) = 128" "length key \<le> 256"
    and "1000 \<le> r" "r \<le> 9999999" "length salt \<le> 16" "set salt \<inter> {0, 0x0A, 0x24, 0x3A} = {}"
    and "conf = chars ''rounds='' @ decimal r @ chars ''$'' @ salt"
    and "md = sha_spec sha256_digest key salt r" and "md' = sha_spec sha512_digest key salt r"
  shows "sha256crypt c key (chars ''$5$'' @ conf) =
      Some (chars ''$5$'' @ conf @ chars ''$'' @ triples64 md sha256_perm @ to64 (push_bit 8 (ucast (md ! 31)) OR ucast (md ! 30)) 3) \<and>
    sha512crypt d key (chars ''$6$'' @ conf) =
      Some (chars ''$6$'' @ conf @ chars ''$'' @ triples64 md' sha512_perm @ to64 (ucast (md' ! 63)) 2)"
proof -
  note f = setting_parts [OF assms(4-7), folded assms(8)]
  have r: "unat (word_of_nat r :: u64) = r" using assms(5) by (simp add: unat_of_nat)
  have k: "\<not> 256 < strnlen key (256 + 1)" "\<not> 256 < length (takeWhile (\<lambda>c. c \<noteq> 0) (take 257 key))"
    using assms(3) length_takeWhile_le [of "\<lambda>c. c \<noteq> 0" "take 257 key"] by (auto simp: strnlen_def)
  have s: "sha_hash sha256_run 32 c key salt r = md" "sha_hash sha512_run 64 d key salt r = md'"
    by (simp_all add: assms(9,10) sha256_runs.sha_hash_eq [OF assms(1)] sha512_runs.sha_hash_eq [OF assms(2)])
  show ?thesis
    unfolding sha256crypt_def sha512crypt_def Let_def strncmp_prefixes take_chars3 f option.case prod.case take_all [OF order_refl] r s
    using k by (simp add: assms(8))
qed

theorem sha_crypt_computes_witness:
  "sha512crypt \<lparr>len = 1, h = [], buf = replicate 128 1\<rparr> (chars ''pw'') (chars ''$6$'' @ chars ''rounds='' @ decimal 1000 @ chars ''$'' @ chars ''NaCl'') =
     Some (chars ''$6$'' @ (chars ''rounds='' @ decimal 1000 @ chars ''$'' @ chars ''NaCl'') @ chars ''$'' @
       triples64 (sha_spec sha512_digest (chars ''pw'') (chars ''NaCl'') 1000) sha512_perm @
       to64 (ucast (sha_spec sha512_digest (chars ''pw'') (chars ''NaCl'') 1000 ! 63)) 2)"
proof -
  have k: "length (chars ''pw'') \<le> 256" by (simp add: chars_simps)
  have s: "length (chars ''NaCl'') \<le> 16" "set (chars ''NaCl'') \<inter> {0, 0x0A, 0x24, 0x3A} = {}" by (simp_all add: chars_simps)
  have b: "length (buf \<lparr>len = 1, h = [] :: u32 list, buf = replicate 64 1\<rparr>) = 64"
    "length (buf \<lparr>len = 1, h = [] :: u64 list, buf = replicate 128 1\<rparr>) = 128" by simp_all
  have r: "1000 \<le> (1000 :: nat)" "1000 \<le> (9999999 :: nat)" by simp_all
  show ?thesis using sha_crypt_computes [OF b k r s refl refl refl] by blast
qed

end
