(* ===== verification/Calendar.thy ===== *)
theory Calendar
  imports Prelude "HOL-Library.Signed_Division"
begin

text \<open>
  Calendar time in the C library (\<^verbatim>\<open>musl-1.2.3/src/time\<close>): seconds since 1970 to a broken-down
  time and back. Divisions of C round to zero (\<open>sdiv\<close>, \<open>smod\<close>). The numbers are unbounded: the guard
  at the start of \<^verbatim>\<open>__secs_to_tm\<close> keeps every value it computes within its type, and from fields
  of type \<^verbatim>\<open>int\<close> the sums of \<^verbatim>\<open>__tm_to_secs\<close> stay below \<open>2\<^sup>6\<^sup>3\<close>.
\<close>

record tm =
  tm_sec :: int
  tm_min :: int
  tm_hour :: int
  tm_mday :: int
  tm_mon :: int
  tm_year :: int
  tm_wday :: int
  tm_yday :: int
  tm_isdst :: int
  tm_gmtoff :: int
  tm_zone :: string

definition INT_MAX :: int where "INT_MAX = 2147483647"
definition INT_MIN :: int where "INT_MIN = - 2147483648"

definition LEAPOCH :: int where "LEAPOCH = 946684800 + 86400 * (31 + 29)"
definition DAYS_PER_400Y :: int where "DAYS_PER_400Y = 365 * 400 + 97"
definition DAYS_PER_100Y :: int where "DAYS_PER_100Y = 365 * 100 + 24"
definition DAYS_PER_4Y :: int where "DAYS_PER_4Y = 365 * 4 + 1"

text \<open>Quotient and remainder of C with the correction the code makes when the remainder is negative.\<close>

definition split_floor :: "int \<Rightarrow> int \<Rightarrow> int \<times> int" where
  "split_floor a b =
     (let q = a sdiv b; r = a smod b in if r < 0 then (q - 1, r + b) else (q, r))"

text \<open>A quotient that must stay below \<open>n\<close>: the last, longer part belongs to part \<open>n - 1\<close>.\<close>

definition split_last :: "int \<Rightarrow> int \<Rightarrow> int \<Rightarrow> int \<times> int" where
  "split_last a b n =
     (let q = a sdiv b; q = (if q = n then q - 1 else q) in (q, a - q * b))"

fun month_loop :: "int list \<Rightarrow> int \<Rightarrow> int \<Rightarrow> int \<times> int" where
  "month_loop [] months remdays = (months, remdays)"
| "month_loop (d # ds) months remdays = (if d \<le> remdays then month_loop ds (months + 1) (remdays - d) else (months, remdays))"

definition days_in_month :: "int list" where
  "days_in_month = [31, 30, 31, 30, 31, 31, 30, 31, 30, 31, 31, 29]"

definition secs_to_tm :: "int \<Rightarrow> tm \<Rightarrow> tm option" where
  "secs_to_tm t tm =
     (if t < INT_MIN * 31622400 \<or> t > INT_MAX * 31622400 then None
      else
        let secs = t - LEAPOCH;
            (days, remsecs) = split_floor secs 86400;
            wday = (3 + days) smod 7;
            wday = (if wday < 0 then wday + 7 else wday);
            (qc_cycles, remdays) = split_floor days DAYS_PER_400Y;
            (c_cycles, remdays) = split_last remdays DAYS_PER_100Y 4;
            (q_cycles, remdays) = split_last remdays DAYS_PER_4Y 25;
            (remyears, remdays) = split_last remdays 365 4;
            leap = (if remyears = 0 \<and> (q_cycles \<noteq> 0 \<or> c_cycles = 0) then 1 else 0);
            yday = remdays + 31 + 28 + leap;
            yday = (if yday \<ge> 365 + leap then yday - (365 + leap) else yday);
            years = remyears + 4 * q_cycles + 100 * c_cycles + 400 * qc_cycles;
            (months, remdays) = month_loop days_in_month 0 remdays;
            (months, years) = (if months \<ge> 10 then (months - 12, years + 1) else (months, years))
        in if years + 100 > INT_MAX \<or> years + 100 < INT_MIN then None
           else Some (tm\<lparr>tm_year := years + 100, tm_mon := months + 2, tm_mday := remdays + 1, tm_wday := wday, tm_yday := yday,
                  tm_hour := remsecs sdiv 3600, tm_min := remsecs sdiv 60 smod 60, tm_sec := remsecs smod 60\<rparr>))"

text \<open>The shift and the mask of a negative number round down.\<close>

definition year_to_secs :: "int \<Rightarrow> int \<times> bool" where
  "year_to_secs year =
     (if 2 \<le> year \<and> year \<le> 138 then
        let y = year;
            leaps = (y - 68) div 4;
            is_leap = ((y - 68) mod 4 = 0);
            leaps = (if is_leap then leaps - 1 else leaps)
        in (31536000 * (y - 70) + 86400 * leaps, is_leap)
      else
        let (cycles, rem) = split_floor (year - 100) 400;
            (centuries, leaps, is_leap) =
              (if rem = 0 then (0, 0, True)
               else
                 let (centuries, rem) =
                       (if rem \<ge> 200 then (if rem \<ge> 300 then (3, rem - 300) else (2, rem - 200))
                        else (if rem \<ge> 100 then (1, rem - 100) else (0, rem)))
                 in if rem = 0 then (centuries, 0, False) else (centuries, rem div 4, rem mod 4 = 0));
            leaps = leaps + 97 * cycles + 24 * centuries - (if is_leap then 1 else 0)
        in ((year - 100) * 31536000 + leaps * 86400 + 946684800 + 86400, is_leap))"

definition secs_through_month :: "int list" where
  "secs_through_month =
     [0, 31 * 86400, 59 * 86400, 90 * 86400, 120 * 86400, 151 * 86400, 181 * 86400, 212 * 86400,
      243 * 86400, 273 * 86400, 304 * 86400, 334 * 86400]"

definition month_to_secs :: "int \<Rightarrow> bool \<Rightarrow> int" where
  "month_to_secs month is_leap =
     (let t = secs_through_month ! nat month in if is_leap \<and> month \<ge> 2 then t + 86400 else t)"

definition tm_to_secs :: "tm \<Rightarrow> int" where
  "tm_to_secs tm =
     (let year = tm_year tm;
          month = tm_mon tm;
          (month, year) =
            (if month \<ge> 12 \<or> month < 0 then
               let (adj, month) = split_floor month 12 in (month, year + adj)
             else (month, year));
          (t, is_leap) = year_to_secs year
      in t + month_to_secs month is_leap + 86400 * (tm_mday tm - 1) + 3600 * tm_hour tm + 60 * tm_min tm + tm_sec tm)"

definition utc :: string where "utc = ''UTC''"

definition gmtime_r :: "int \<Rightarrow> tm \<Rightarrow> tm option" where
  "gmtime_r t tm =
     (case secs_to_tm t tm of
        None \<Rightarrow> None
      | Some tm \<Rightarrow> Some (tm\<lparr>tm_isdst := 0, tm_gmtoff := 0, tm_zone := utc\<rparr>))"

text \<open>The argument \<open>new\<close> is the uninitialised local of that name; \<open>None\<close> is the overflow error.\<close>

definition timegm :: "tm \<Rightarrow> tm \<Rightarrow> (int \<times> tm) option" where
  "timegm new tm =
     (let t = tm_to_secs tm in
      case secs_to_tm t new of
        None \<Rightarrow> None
      | Some new \<Rightarrow> Some (t, new\<lparr>tm_isdst := 0, tm_gmtoff := 0, tm_zone := utc\<rparr>))"

end
