(* ===== verification/CalendarCorrect.thy ===== *)
theory CalendarCorrect
  imports Calendar
begin

text \<open>
  The conversions against the Gregorian calendar: a year is a leap year by the rule of four
  hundred years, a date is a day of its month, and its number counts the days from the first
  of January 1970.
\<close>

subsection \<open>The Gregorian calendar\<close>

definition leap_year :: "int \<Rightarrow> bool" where
  "leap_year y \<longleftrightarrow> 4 dvd y \<and> (\<not> 100 dvd y \<or> 400 dvd y)"

definition month_length :: "int \<Rightarrow> int \<Rightarrow> int" where
  "month_length y m = (if m = 1 then (if leap_year y then 29 else 28) else if m \<in> {3, 5, 8, 10} then 30 else 31)"

text \<open>The leap years from year 1 to year \<open>y\<close>.\<close>

definition leaps :: "int \<Rightarrow> int" where
  "leaps y = y div 4 - y div 100 + y div 400"

definition year_start :: "int \<Rightarrow> int" where
  "year_start y = 365 * (y - 1970) + leaps (y - 1) - leaps 1969"

definition month_start :: "int \<Rightarrow> int \<Rightarrow> int" where
  "month_start y m = sum_list (map (\<lambda>i. month_length y (int i)) [0..<nat m])"

definition day_number :: "int \<Rightarrow> int \<Rightarrow> int \<Rightarrow> int" where
  "day_number y m d = year_start y + month_start y m + d - 1"

lemma div_step: "0 < k \<Longrightarrow> y div k = (y - 1) div k + (if k dvd y then 1 else (0 :: int))"
proof -
  assume k: "0 < k"
  define q r where "q = y div k" and "r = y mod k"
  have y: "y = k * q + r" "0 \<le> r" "r < k" using k by (simp_all add: q_def r_def)
  show ?thesis
  proof (cases "r = 0")
    case True
    have "(y - 1) div k = q - 1" by (rule int_div_pos_eq [of _ _ _ "k - 1"]) (use y True k in \<open>simp_all add: algebra_simps\<close>)
    then show ?thesis using True by (simp add: q_def r_def dvd_eq_mod_eq_0)
  next
    case False
    have "(y - 1) div k = q" by (rule int_div_pos_eq [of _ _ _ "r - 1"]) (use y False k in simp_all)
    then show ?thesis using False by (simp add: q_def r_def dvd_eq_mod_eq_0)
  qed
qed

lemma alternating_step: "a = a' + x \<Longrightarrow> b = b' + y \<Longrightarrow> c = c' + z \<Longrightarrow> a - b + c = a' - b' + c' + x - y + (z :: int)"
  by simp

lemma leaps_step: "leaps y = leaps (y - 1) + (if leap_year y then 1 else 0)"
proof -
  have "leaps y = leaps (y - 1) + (if 4 dvd y then 1 else 0) - (if 100 dvd y then 1 else 0) + (if 400 dvd y then 1 else 0)"
    unfolding leaps_def by (rule alternating_step; rule div_step) simp_all
  moreover have "100 dvd y \<longrightarrow> 4 dvd y"
    by (rule impI, rule dvd_trans [of 4 100]) simp_all
  moreover have "400 dvd y \<longrightarrow> 100 dvd y"
    by (rule impI, rule dvd_trans [of 100 400]) simp_all
  ultimately show ?thesis unfolding leap_year_def by (cases "400 dvd y"; cases "100 dvd y"; cases "4 dvd y") simp_all
qed

text \<open>Years and months follow each other without gaps.\<close>

lemma year_start_next: "year_start (y + 1) = year_start y + (if leap_year y then 366 else 365)"
  using leaps_step [of y] by (simp add: year_start_def)

lemma year_start_1970: "year_start 1970 = 0"
  by (simp add: year_start_def)

lemma month_start_step: "0 \<le> m \<Longrightarrow> month_start y (m + 1) = month_start y m + month_length y m"
  by (simp add: month_start_def nat_add_distrib)

lemma month_start_0: "month_start y 0 = 0"
  by (simp add: month_start_def)

lemma month_starts:
  "month_start y 0 = 0"
  "month_start y 1 = 31"
  "month_start y 2 = 59 + (if leap_year y then 1 else 0)"
  "month_start y 3 = 90 + (if leap_year y then 1 else 0)"
  "month_start y 4 = 120 + (if leap_year y then 1 else 0)"
  "month_start y 5 = 151 + (if leap_year y then 1 else 0)"
  "month_start y 6 = 181 + (if leap_year y then 1 else 0)"
  "month_start y 7 = 212 + (if leap_year y then 1 else 0)"
  "month_start y 8 = 243 + (if leap_year y then 1 else 0)"
  "month_start y 9 = 273 + (if leap_year y then 1 else 0)"
  "month_start y 10 = 304 + (if leap_year y then 1 else 0)"
  "month_start y 11 = 334 + (if leap_year y then 1 else 0)"
  "month_start y 12 = 365 + (if leap_year y then 1 else 0)"
  using month_start_0 [of y] month_start_step [of 0 y] month_start_step [of 1 y] month_start_step [of 2 y] month_start_step [of 3 y] month_start_step [of 4 y] month_start_step [of 5 y] month_start_step [of 6 y] month_start_step [of 7 y] month_start_step [of 8 y] month_start_step [of 9 y] month_start_step [of 10 y] month_start_step [of 11 y]
  by (simp_all add: month_length_def del: One_nat_def)

lemma year_start_months: "year_start (y + 1) = year_start y + month_start y 12"
  by (simp add: year_start_next month_starts)

lemma year_start_mono: "y \<le> y' \<Longrightarrow> year_start y \<le> year_start y'"
proof (induction "nat (y' - y)" arbitrary: y)
  case (Suc n)
  then have "year_start (y + 1) \<le> year_start y'" by (intro Suc.hyps) auto
  then show ?case by (simp add: year_start_next split: if_splits)
qed simp

subsection \<open>Divisions\<close>

lemma split_floor_eq: "0 < b \<Longrightarrow> split_floor a b = (a div b, a mod b)"
proof -
  assume b: "0 < b"
  show ?thesis
  proof (cases "0 \<le> a")
    case True
    then have "a sdiv b = a div b" "a smod b = a mod b"
      using b by (simp_all add: signed_divide_int_def signed_modulo_int_def sgn_if)
    then show ?thesis using b by (simp add: split_floor_def Let_def not_less)
  next
    case False
    then have "a sdiv b = - (- a div b)" "a smod b = - (- a mod b)"
      using b by (simp_all add: signed_divide_int_def signed_modulo_int_def sgn_if)
    then show ?thesis
      using b zdiv_zminus1_eq_if [of b "- a"] zmod_zminus1_eq_if [of "- a" b] pos_mod_sign [of b "- a"]
      by (auto simp: split_floor_def Let_def less_le)
  qed
qed

lemma split_last_eq:
  assumes "0 < b" "0 < n" "0 \<le> a" "a \<le> n * b" "split_last a b n = (q, r)"
  shows "0 \<le> q \<and> q < n \<and> a = q * b + r \<and> 0 \<le> r \<and> (r < b \<or> r = b \<and> q = n - 1)"
proof -
  have d: "a sdiv b = a div b" using assms(1,3) by (simp add: signed_divide_int_def sgn_if)
  have q: "0 \<le> a div b" "a div b \<le> n" using assms(1,3) zdiv_mono1 [OF assms(4,1)] assms(1) by (simp_all add: pos_imp_zdiv_nonneg_iff)
  show ?thesis
  proof (cases "a div b = n")
    case True
    have "n * b \<le> a" using div_mult_mod_eq [of a b] pos_mod_sign [OF assms(1), of a] unfolding True by linarith
    then have "a = n * b" using assms(4) by simp
    then show ?thesis using assms True d by (auto simp: split_last_def Let_def algebra_simps)
  next
    case False
    then show ?thesis
      using assms q d pos_mod_bound [of b a] pos_mod_sign [of b a] div_mult_mod_eq [of a b]
      by (auto simp: split_last_def Let_def minus_div_mult_eq_mod)
  qed
qed

subsection \<open>Years that start in March\<close>

text \<open>
  The days from the first of March 2000 to the one of year \<open>2000 + y\<close>: the leap day, where there
  is one, is the last day of such a year.
\<close>

definition march :: "int \<Rightarrow> int" where
  "march y = 365 * y + leaps y"

lemma march_cycles:
  assumes "0 \<le> n" "n < 4" "0 \<le> q" "q < 25" "0 \<le> c" "c < 4"
  shows "march (n + 4 * q + 100 * c + 400 * k) = 365 * n + 1461 * q + 36524 * c + 146097 * k"
    and "leap_year (n + 4 * q + 100 * c + 400 * k) \<longleftrightarrow> n = 0 \<and> (q \<noteq> 0 \<or> c = 0)"
proof -
  let ?y = "n + 4 * q + 100 * c + 400 * k"
  have d4: "?y div 4 = q + 25 * c + 100 * k" by (rule int_div_pos_eq [of _ _ _ n]) (use assms in simp_all)
  have d100: "?y div 100 = c + 4 * k" by (rule int_div_pos_eq [of _ _ _ "n + 4 * q"]) (use assms in simp_all)
  have d400: "?y div 400 = k" by (rule int_div_pos_eq [of _ _ _ "n + 4 * q + 100 * c"]) (use assms in simp_all)
  show "march ?y = 365 * n + 1461 * q + 36524 * c + 146097 * k" by (simp add: march_def leaps_def d4 d100 d400)
  have m4: "?y mod 4 = n" by (rule int_mod_pos_eq [of _ _ "q + 25 * c + 100 * k"]) (use assms in simp_all)
  have m100: "?y mod 100 = n + 4 * q" by (rule int_mod_pos_eq [of _ _ "c + 4 * k"]) (use assms in simp_all)
  have m400: "?y mod 400 = n + 4 * q + 100 * c" by (rule int_mod_pos_eq [of _ _ k]) (use assms in simp_all)
  show "leap_year ?y \<longleftrightarrow> n = 0 \<and> (q \<noteq> 0 \<or> c = 0)"
    using assms unfolding leap_year_def dvd_eq_mod_eq_0 m4 m100 m400 by linarith
qed

lemma two_thousand: "(2000 :: int) = 500 * 4" "(2000 :: int) = 20 * 100" "(2000 :: int) = 5 * 400"
  by simp_all

lemma leaps_2000: "leaps (2000 + y) = 485 + leaps y"
proof -
  have "(2000 + y) div 4 = 500 + y div 4" unfolding two_thousand(1) by (rule div_mult_self3) simp
  moreover have "(2000 + y) div 100 = 20 + y div 100" unfolding two_thousand(2) by (rule div_mult_self3) simp
  moreover have "(2000 + y) div 400 = 5 + y div 400" unfolding two_thousand(3) by (rule div_mult_self3) simp
  ultimately show ?thesis by (simp only: leaps_def)
qed

lemma leap_year_2000: "leap_year (2000 + y) = leap_year y"
proof -
  have "(2000 + y) mod 4 = y mod 4" unfolding two_thousand(1) by (rule mod_mult_self3)
  moreover have "(2000 + y) mod 100 = y mod 100" unfolding two_thousand(2) by (rule mod_mult_self3)
  moreover have "(2000 + y) mod 400 = y mod 400" unfolding two_thousand(3) by (rule mod_mult_self3)
  ultimately show ?thesis by (simp only: leap_year_def dvd_eq_mod_eq_0)
qed

lemma march_year_start: "year_start (2000 + y) + 59 + (if leap_year y then 1 else 0) = 11017 + march y"
  using leaps_step [of "2000 + y"] leaps_2000 [of y] leap_year_2000 [of y]
  by (simp add: year_start_def march_def leaps_def [of 1969])

lemma cycles:
  assumes "0 \<le> rem" "rem < 146097"
    and "split_last rem DAYS_PER_100Y 4 = (c, r1)" "split_last r1 DAYS_PER_4Y 25 = (q, r2)" "split_last r2 365 4 = (n, r)"
  shows "0 \<le> c \<and> c < 4 \<and> 0 \<le> q \<and> q < 25 \<and> 0 \<le> n \<and> n < 4 \<and> 0 \<le> r \<and> r \<le> 365 \<and>
    rem = 36524 * c + 1461 * q + 365 * n + r \<and> (r = 365 \<longrightarrow> n = 3 \<and> (q \<noteq> 24 \<or> c = 3))"
proof -
  have k: "DAYS_PER_100Y = 36524" "DAYS_PER_4Y = 1461" by (simp_all add: DAYS_PER_100Y_def DAYS_PER_4Y_def)
  have c: "0 \<le> c \<and> c < 4 \<and> rem = c * 36524 + r1 \<and> 0 \<le> r1 \<and> (r1 < 36524 \<or> r1 = 36524 \<and> c = 3)"
    using split_last_eq [of 36524 4 rem c r1] assms(1-3) by (simp add: k)
  then have q: "0 \<le> q \<and> q < 25 \<and> r1 = q * 1461 + r2 \<and> 0 \<le> r2 \<and> r2 < 1461"
    using split_last_eq [of 1461 25 r1 q r2] assms(4) by (auto simp: k)
  then have n: "0 \<le> n \<and> n < 4 \<and> r2 = n * 365 + r \<and> 0 \<le> r \<and> (r < 365 \<or> r = 365 \<and> n = 3)"
    using split_last_eq [of 365 4 r2 n r] assms(5) by simp
  show ?thesis using c q n by auto
qed

lemma month_loop_eq:
  assumes "month_loop ds m r = (m', r')" "0 \<le> r" "r < sum_list ds"
  shows "\<exists>i < length ds. m' = m + int i \<and> r = sum_list (take i ds) + r' \<and> 0 \<le> r' \<and> r' < ds ! i"
  using assms
proof (induction ds arbitrary: m r)
  case (Cons d ds)
  show ?case
  proof (cases "d \<le> r")
    case True
    then obtain i where "i < length ds" "m' = m + 1 + int i" "r - d = sum_list (take i ds) + r'" "0 \<le> r'" "r' < ds ! i"
      using Cons.IH [of "m + 1" "r - d"] Cons.prems by auto
    then show ?thesis by (intro exI [of _ "Suc i"]) auto
  next
    case False
    then show ?thesis using Cons.prems by (intro exI [of _ 0]) auto
  qed
qed simp

text \<open>The day \<open>r\<close> of a year from March on, in the calendar year it falls into.\<close>

lemma march_day:
  assumes "month_loop days_in_month 0 r = (m, d)" "0 \<le> r" "r \<le> 365" "r = 365 \<longrightarrow> leap_year (Y + 1)"
  shows "if m \<ge> 10
    then month_start (Y + 1) (m - 10) + d = r - 306 \<and> 306 \<le> r \<and> 0 \<le> m - 10 \<and> m - 10 < 2 \<and> 0 \<le> d \<and> d < month_length (Y + 1) (m - 10)
    else month_start Y (m + 2) + d = r + 59 + (if leap_year Y then 1 else 0) \<and> r < 306 \<and> 0 \<le> m \<and> 0 \<le> d \<and> d < month_length Y (m + 2)"
proof -
  have "sum_list days_in_month = 366" by (simp add: days_in_month_def)
  then obtain i where i: "i < 12" "m = int i" "r = sum_list (take i days_in_month) + d" "0 \<le> d" "d < days_in_month ! i"
    using month_loop_eq [OF assms(1,2)] assms(3) by (auto simp: days_in_month_def)
  from i(1) have "i = 0 \<or> i = 1 \<or> i = 2 \<or> i = 3 \<or> i = 4 \<or> i = 5 \<or> i = 6 \<or> i = 7 \<or> i = 8 \<or> i = 9 \<or> i = 10 \<or> i = 11" by presburger
  then show ?thesis
    using i(2-5) assms(4) by (elim disjE) (auto simp: days_in_month_def month_starts month_length_def)
qed

subsection \<open>Seconds to dates\<close>

definition valid_date :: "int \<Rightarrow> int \<Rightarrow> int \<Rightarrow> bool" where
  "valid_date y m d \<longleftrightarrow> 0 \<le> m \<and> m < 12 \<and> 1 \<le> d \<and> d \<le> month_length y m"

lemma nonneg_sdiv: "0 \<le> a \<Longrightarrow> 0 < b \<Longrightarrow> a sdiv b = a div b \<and> a smod b = a mod (b :: int)"
  by (simp add: signed_divide_int_def signed_modulo_int_def sgn_if)

lemma wday_eq: "(let w = (3 + days) smod 7 in if w < 0 then w + 7 else w) = (3 + days) mod (7 :: int)"
  using split_floor_eq [of 7 "3 + days"] by (auto simp: split_floor_def Let_def split: if_splits)

text \<open>The date the cycles and the month loop lead to.\<close>

lemma cycles_date:
  assumes "0 \<le> rem" "rem < 146097" "days = 146097 * k + rem"
    and "split_last rem DAYS_PER_100Y 4 = (c, r1)" "split_last r1 DAYS_PER_4Y 25 = (q, r2)" "split_last r2 365 4 = (n, r)"
    and "month_loop days_in_month 0 r = (m, d)" "leap = (if n = 0 \<and> (q \<noteq> 0 \<or> c = 0) then 1 else 0)"
    and "y = 2000 + (n + 4 * q + 100 * c + 400 * k) + (if m \<ge> 10 then 1 else 0)" "m' = (if m \<ge> 10 then m - 12 else m) + 2"
  shows "valid_date y m' (d + 1) \<and> day_number y m' (d + 1) = days + 11017 \<and>
    (if r + 31 + 28 + leap \<ge> 365 + leap then r + 31 + 28 + leap - (365 + leap) else r + 31 + 28 + leap) = days + 11017 - year_start y"
proof -
  define Y where "Y = n + 4 * q + 100 * c + 400 * k"
  have b: "0 \<le> c" "c < 4" "0 \<le> q" "q < 25" "0 \<le> n" "n < 4" "0 \<le> r" "r \<le> 365" "rem = 36524 * c + 1461 * q + 365 * n + r"
    and last: "r = 365 \<Longrightarrow> n = 3 \<and> (q \<noteq> 24 \<or> c = 3)"
    using cycles [OF assms(1,2,4-6)] by auto
  note M = march_cycles [OF b(5,6,3,4,1,2), of k, folded Y_def]
  have leap: "leap = (if leap_year (2000 + Y) then 1 else 0)" using M(2) assms(8) by (simp add: leap_year_2000)
  have next_leap: "leap_year (2000 + Y + 1)" if "r = 365"
  proof (cases "q = 24")
    case True
    then have "Y + 1 = 0 + 4 * 0 + 100 * 0 + 400 * (k + 1)" using last [OF that] by (simp add: Y_def)
    then show ?thesis using march_cycles(2) [of 0 0 0 "k + 1"] leap_year_2000 [of "Y + 1"] by (simp add: algebra_simps)
  next
    case False
    then have "Y + 1 = 0 + 4 * (q + 1) + 100 * c + 400 * k" using last [OF that] by (simp add: Y_def)
    then show ?thesis
      using march_cycles(2) [of 0 "q + 1" c k] leap_year_2000 [of "Y + 1"] b(1-4) False by (simp add: algebra_simps)
  qed
  have start: "year_start (2000 + Y) + 59 + leap + r = days + 11017"
    using march_year_start [of Y] M(1) b(9) assms(3) by (simp add: leap leap_year_2000)
  have nxt: "year_start (2000 + Y + 1) = year_start (2000 + Y) + 365 + leap" using year_start_next [of "2000 + Y"] by (simp add: leap)
  note D = march_day [OF assms(7) b(7,8), of "2000 + Y"]
  show ?thesis
  proof (cases "m \<ge> 10")
    case True
    then have y: "y = 2000 + Y + 1" "m' = m - 10" using assms(9,10) by (simp_all add: Y_def)
    then show ?thesis using D next_leap True start nxt unfolding y valid_date_def day_number_def by simp
  next
    case False
    then have y: "y = 2000 + Y" "m' = m + 2" using assms(9,10) by (simp_all add: Y_def)
    then show ?thesis using D next_leap False start unfolding y valid_date_def day_number_def leap [symmetric] by simp
  qed
qed

lemma leapoch: "(t - LEAPOCH) div 86400 = t div 86400 - 11017" "(t - LEAPOCH) mod 86400 = t mod 86400"
proof -
  have e: "t - LEAPOCH = t + - 11017 * 86400" by (simp add: LEAPOCH_def)
  show "(t - LEAPOCH) div 86400 = t div 86400 - 11017" unfolding e by simp
  show "(t - LEAPOCH) mod 86400 = t mod 86400" unfolding e by (rule mod_mult_self1)
qed

lemma weekday: "(3 + (n - 11017)) mod 7 = (n + 4) mod (7 :: int)"
proof -
  have "3 + (n - 11017) = n + 4 + - 1574 * 7" by simp
  then show ?thesis by (simp only: mod_mult_self1)
qed

lemma secs_to_tm_date:
  assumes "INT_MIN * 31622400 \<le> t" "t \<le> INT_MAX * 31622400"
  shows "\<exists>y m d. valid_date y m d \<and> day_number y m d = t div 86400 \<and>
    (\<forall>tm. secs_to_tm t tm =
      (if y - 1900 > INT_MAX \<or> y - 1900 < INT_MIN then None
       else Some (tm\<lparr>tm_year := y - 1900, tm_mon := m, tm_mday := d, tm_wday := (t div 86400 + 4) mod 7,
              tm_yday := t div 86400 - year_start y, tm_hour := t mod 86400 div 3600, tm_min := t mod 86400 div 60 mod 60,
              tm_sec := t mod 86400 mod 60\<rparr>)))"
proof -
  define days rem k where "days = t div 86400 - 11017" and "rem = days mod 146097" and "k = days div 146097"
  obtain c r1 where e1: "split_last rem DAYS_PER_100Y 4 = (c, r1)" by (metis surj_pair)
  obtain q r2 where e2: "split_last r1 DAYS_PER_4Y 25 = (q, r2)" by (metis surj_pair)
  obtain n r where e3: "split_last r2 365 4 = (n, r)" by (metis surj_pair)
  obtain m d where e4: "month_loop days_in_month 0 r = (m, d)" by (metis surj_pair)
  define leap where "leap = (if n = 0 \<and> (q \<noteq> 0 \<or> c = 0) then 1 else 0 :: int)"
  define y m' where "y = 2000 + (n + 4 * q + 100 * c + 400 * k) + (if m \<ge> 10 then 1 else 0)"
    and "m' = (if m \<ge> 10 then m - 12 else m) + 2"
  have rem: "0 \<le> rem" "rem < 146097" "days = 146097 * k + rem" by (simp_all add: rem_def k_def)
  have e0: "split_floor (t - LEAPOCH) 86400 = (days, t mod 86400)"
    by (simp add: split_floor_eq leapoch days_def)
  have e0': "split_floor days DAYS_PER_400Y = (k, rem)" by (simp add: split_floor_eq DAYS_PER_400Y_def rem_def k_def)
  have w: "(if (3 + days) smod 7 < 0 then (3 + days) smod 7 + 7 else (3 + days) smod 7) = (t div 86400 + 4) mod 7"
    using wday_eq [of days] unfolding Let_def days_def weekday .
  have n: "days + 11017 = t div 86400" by (simp add: days_def)
  note C = cycles_date [OF rem e1 e2 e3 e4 leap_def y_def m'_def, unfolded n]
  have s: "t mod 86400 sdiv 3600 = t mod 86400 div 3600" "t mod 86400 sdiv 60 smod 60 = t mod 86400 div 60 mod 60"
      "t mod 86400 smod 60 = t mod 86400 mod 60"
    by (simp_all add: nonneg_sdiv pos_imp_zdiv_nonneg_iff)
  have g: "\<not> (t < INT_MIN * 31622400 \<or> t > INT_MAX * 31622400)" using assms by simp
  have "secs_to_tm t tm =
      (if y - 1900 > INT_MAX \<or> y - 1900 < INT_MIN then None
       else Some (tm\<lparr>tm_year := y - 1900, tm_mon := m', tm_mday := d + 1, tm_wday := (t div 86400 + 4) mod 7,
              tm_yday := t div 86400 - year_start y, tm_hour := t mod 86400 div 3600, tm_min := t mod 86400 div 60 mod 60,
              tm_sec := t mod 86400 mod 60\<rparr>))" for tm
    unfolding secs_to_tm_def if_not_P [OF g] Let_def e0 e0' prod.case e1 e2 e3 e4 w s leap_def [symmetric]
    using C by (cases "m \<ge> 10") (simp_all add: y_def m'_def)
  then show ?thesis using C by blast
qed

subsection \<open>Dates to seconds\<close>

text \<open>The short cut for the years from 1902 to 2038.\<close>

lemma near_years:
  assumes "2 \<le> year" "year \<le> 138"
  shows "leap_year (1900 + year) \<longleftrightarrow> (year - 68) mod 4 = 0"
    and "year_start (1900 + year) = 365 * (year - 70) + (year - 69) div 4"
proof -
  have m4: "(1900 + year) mod 4 = (year - 68) mod 4" using mod_mult_self1 [of "year - 68" 492 4] by (simp add: algebra_simps)
  have m100: "(1900 + year) mod 100 = (if year < 100 then year else year - 100)"
    by (rule int_mod_pos_eq [of _ _ "if year < 100 then 19 else 20"]) (use assms in auto)
  have m400: "(1900 + year) mod 400 = (if year < 100 then 300 + year else year - 100)"
    by (rule int_mod_pos_eq [of _ _ "if year < 100 then 4 else 5"]) (use assms in auto)
  show "leap_year (1900 + year) \<longleftrightarrow> (year - 68) mod 4 = 0"
    unfolding leap_year_def dvd_eq_mod_eq_0 m4 m100 m400 using assms by auto
  have d4: "(1899 + year) div 4 = 492 + (year - 69) div 4" using div_mult_self1 [of 4 "year - 69" 492] by (simp add: algebra_simps)
  have d100: "(1899 + year) div 100 = (if year \<le> 100 then 19 else 20)"
    by (rule int_div_pos_eq [of _ _ _ "if year \<le> 100 then year - 1 else year - 101"]) (use assms in auto)
  have d400: "(1899 + year) div 400 = (if year \<le> 100 then 4 else 5)"
    by (rule int_div_pos_eq [of _ _ _ "if year \<le> 100 then 299 + year else year - 101"]) (use assms in auto)
  have "leaps (1899 + year) = 477 + (year - 69) div 4" "leaps 1969 = 477"
    unfolding leaps_def d4 d100 d400 by simp_all
  then show "year_start (1900 + year) = 365 * (year - 70) + (year - 69) div 4" by (simp add: year_start_def)
qed

lemma far_years:
  assumes "0 \<le> n" "n < 4" "0 \<le> q" "q < 25" "0 \<le> c" "c < 4" "year = 100 + (n + 4 * q + 100 * c + 400 * k)"
  shows "leap_year (1900 + year) \<longleftrightarrow> n = 0 \<and> (q \<noteq> 0 \<or> c = 0)"
    and "year_start (1900 + year) = 365 * (year - 100) + (q + 24 * c + 97 * k) - (if leap_year (1900 + year) then 1 else 0) + 10958"
proof -
  define Y where "Y = n + 4 * q + 100 * c + 400 * k"
  note M = march_cycles [OF assms(1-6), of k, folded Y_def]
  have y: "1900 + year = 2000 + Y" "year - 100 = Y" using assms(7) by (simp_all add: Y_def)
  show "leap_year (1900 + year) \<longleftrightarrow> n = 0 \<and> (q \<noteq> 0 \<or> c = 0)" unfolding y leap_year_2000 by (rule M(2))
  have "march Y = 365 * Y + (q + 24 * c + 97 * k)" unfolding M(1) by (simp add: Y_def)
  then show "year_start (1900 + year) = 365 * (year - 100) + (q + 24 * c + 97 * k) - (if leap_year (1900 + year) then 1 else 0) + 10958"
    using march_year_start [of Y] unfolding y leap_year_2000 by simp
qed

lemma century_of:
  fixes rem :: int
  assumes "0 \<le> rem" "rem < 400"
  obtains c r where
    "(if rem \<ge> 200 then (if rem \<ge> 300 then (3, rem - 300) else (2, rem - 200)) else (if rem \<ge> 100 then (1, rem - 100) else (0, rem))) = (c :: int, r)"
    "rem = 100 * c + r" "0 \<le> r" "r < 100" "0 \<le> c" "c < 4"
  using that [of 3 "rem - 300"] that [of 2 "rem - 200"] that [of 1 "rem - 100"] that [of 0 rem] assms
  by (cases "rem \<ge> 300"; cases "rem \<ge> 200"; cases "rem \<ge> 100") simp_all

lemma year_to_secs_eq: "year_to_secs year = (86400 * year_start (1900 + year), leap_year (1900 + year))"
proof (cases "2 \<le> year \<and> year \<le> 138")
  case True
  have "(year - 68) div 4 = (year - 69) div 4 + (if (year - 68) mod 4 = 0 then 1 else 0)"
    using div_step [of 4 "year - 68"] by (simp add: dvd_eq_mod_eq_0)
  then show ?thesis using True near_years [of year] by (simp add: year_to_secs_def Let_def)
next
  case False
  define k rem where "k = (year - 100) div 400" and "rem = (year - 100) mod 400"
  have rem: "0 \<le> rem" "rem < 400" "year - 100 = 400 * k + rem" by (simp_all add: k_def rem_def)
  obtain c r where c: "(if rem \<ge> 200 then (if rem \<ge> 300 then (3, rem - 300) else (2, rem - 200)) else (if rem \<ge> 100 then (1, rem - 100) else (0, rem))) = (c, r)"
    "rem = 100 * c + r" "0 \<le> r" "r < 100" "0 \<le> c" "c < 4"
    using century_of [OF rem(1,2)] .
  define q n where "q = r div 4" and "n = r mod 4"
  have r: "r = 4 * q + n" "0 \<le> n" "n < 4" by (simp_all add: q_def n_def)
  then have q: "0 \<le> q" "q < 25" using c(3,4) by linarith+
  have y: "year = 100 + (n + 4 * q + 100 * c + 400 * k)" using rem(3) c(2) r(1) by simp
  note F = far_years [OF r(2,3) q c(5,6) y]
  have s: "split_floor (year - 100) 400 = (k, rem)" by (simp add: split_floor_eq k_def rem_def)
  have z: "rem = 0 \<longleftrightarrow> n = 0 \<and> q = 0 \<and> c = 0" "r = 0 \<longleftrightarrow> n = 0 \<and> q = 0" using c(2,5) r(1,2) q(1) by (intro iffI conjI; (elim conjE)?; linarith)+
  show ?thesis
    unfolding year_to_secs_def if_not_P [OF False] Let_def s prod.case c(1) q_def [symmetric] n_def [symmetric] z
    using F by (cases "n = 0"; cases "q = 0"; cases "c = 0") (simp_all add: algebra_simps)
qed

lemma month_to_secs_eq:
  assumes "0 \<le> m" "m < 12"
  shows "month_to_secs m (leap_year y) = 86400 * month_start y m"
proof -
  have "m = 0 \<or> m = 1 \<or> m = 2 \<or> m = 3 \<or> m = 4 \<or> m = 5 \<or> m = 6 \<or> m = 7 \<or> m = 8 \<or> m = 9 \<or> m = 10 \<or> m = 11" using assms by presburger
  then show ?thesis by (elim disjE) (simp_all add: month_to_secs_def secs_through_month_def month_starts)
qed

lemma tm_to_secs_eq:
  "tm_to_secs tm =
     86400 * day_number (1900 + tm_year tm + tm_mon tm div 12) (tm_mon tm mod 12) (tm_mday tm) +
     3600 * tm_hour tm + 60 * tm_min tm + tm_sec tm"
proof -
  have m: "(if tm_mon tm \<ge> 12 \<or> tm_mon tm < 0 then case split_floor (tm_mon tm) 12 of (adj, month) \<Rightarrow> (month, tm_year tm + adj)
      else (tm_mon tm, tm_year tm)) = (tm_mon tm mod 12, tm_year tm + tm_mon tm div 12)"
    by (simp add: split_floor_eq)
  show ?thesis
    unfolding tm_to_secs_def Let_def m prod.case year_to_secs_eq
    by (simp add: month_to_secs_eq day_number_def algebra_simps)
qed

subsection \<open>Properties\<close>

text \<open>The broken-down time \<open>tm\<close> is the instant \<open>t\<close>, in every field.\<close>

definition denotes :: "tm \<Rightarrow> int \<Rightarrow> bool" where
  "denotes tm t \<longleftrightarrow>
     (let y = 1900 + tm_year tm; n = day_number y (tm_mon tm) (tm_mday tm) in
      valid_date y (tm_mon tm) (tm_mday tm) \<and>
      0 \<le> tm_hour tm \<and> tm_hour tm < 24 \<and> 0 \<le> tm_min tm \<and> tm_min tm < 60 \<and> 0 \<le> tm_sec tm \<and> tm_sec tm < 60 \<and>
      t = 86400 * n + 3600 * tm_hour tm + 60 * tm_min tm + tm_sec tm \<and>
      tm_wday tm = (n + 4) mod 7 \<and> tm_yday tm = n - year_start y)"

lemma date_in_year:
  assumes "valid_date y m d"
  shows "year_start y \<le> day_number y m d" "day_number y m d < year_start (y + 1)"
proof -
  have "m = 0 \<or> m = 1 \<or> m = 2 \<or> m = 3 \<or> m = 4 \<or> m = 5 \<or> m = 6 \<or> m = 7 \<or> m = 8 \<or> m = 9 \<or> m = 10 \<or> m = 11"
    using assms unfolding valid_date_def by presburger
  then have "0 \<le> month_start y m" "month_start y m + month_length y m \<le> month_start y 12"
    by (auto simp: month_starts month_length_def)
  then show "year_start y \<le> day_number y m d" "day_number y m d < year_start (y + 1)"
    using assms by (simp_all add: day_number_def valid_date_def year_start_months)
qed

lemma seconds_of_day:
  fixes s :: int
  assumes "0 \<le> s" "s < 86400"
  shows "0 \<le> s div 3600 \<and> s div 3600 < 24 \<and> 3600 * (s div 3600) + 60 * (s div 60 mod 60) + s mod 60 = s"
proof -
  define u a b where "u = s div 60" and "a = u mod 60" and "b = s mod 60"
  define hr where "hr = u div 60"
  have 1: "s = 60 * u + b" unfolding u_def b_def by (rule mult_div_mod_eq [symmetric])
  have 2: "u = 60 * hr + a" unfolding hr_def a_def by (rule mult_div_mod_eq [symmetric])
  have 3: "s div 3600 = hr" unfolding hr_def u_def by (simp add: zdiv_zmult2_eq [symmetric])
  have "0 \<le> hr" "hr < 24"
    using assms by (simp_all add: 3 [symmetric] pos_imp_zdiv_nonneg_iff div_less_iff_less_mult)
  moreover have "3600 * hr + 60 * a + b = s" unfolding 1 2 by simp
  ultimately show ?thesis unfolding 3 u_def [symmetric] a_def [symmetric] b_def [symmetric] by blast
qed

lemma denotes_date:
  assumes "valid_date y m d" "day_number y m d = n" "t = 86400 * n + 3600 * a + 60 * b + c"
    and "0 \<le> a \<and> a < 24" "0 \<le> b \<and> b < 60" "0 \<le> c \<and> c < 60"
  shows "denotes (tm\<lparr>tm_year := y - 1900, tm_mon := m, tm_mday := d, tm_wday := (n + 4) mod 7, tm_yday := n - year_start y,
    tm_hour := a, tm_min := b, tm_sec := c\<rparr>) t"
  using assms by (simp add: denotes_def Let_def)

lemma outside_guard:
  "t < INT_MIN * 31622400 \<Longrightarrow> t < 86400 * year_start (1900 + INT_MIN)"
  "INT_MAX * 31622400 < t \<Longrightarrow> 86400 * year_start (1900 + INT_MAX + 1) \<le> t"
  by (simp_all add: INT_MIN_def INT_MAX_def year_start_def leaps_def)

lemma secs_to_tm_spec:
  "(secs_to_tm t tm = None \<longleftrightarrow> t < 86400 * year_start (1900 + INT_MIN) \<or> 86400 * year_start (1900 + INT_MAX + 1) \<le> t) \<and>
   (\<forall>r. secs_to_tm t tm = Some r \<longrightarrow> denotes r t \<and> r = tm\<lparr>tm_year := tm_year r, tm_mon := tm_mon r, tm_mday := tm_mday r,
      tm_wday := tm_wday r, tm_yday := tm_yday r, tm_hour := tm_hour r, tm_min := tm_min r, tm_sec := tm_sec r\<rparr>)"
proof (cases "t < INT_MIN * 31622400 \<or> t > INT_MAX * 31622400")
  case True
  then show ?thesis using outside_guard by (auto simp: secs_to_tm_def)
next
  case False
  then obtain y m d where v: "valid_date y m d" "day_number y m d = t div 86400"
    and e: "secs_to_tm t tm =
      (if y - 1900 > INT_MAX \<or> y - 1900 < INT_MIN then None
       else Some (tm\<lparr>tm_year := y - 1900, tm_mon := m, tm_mday := d, tm_wday := (t div 86400 + 4) mod 7,
              tm_yday := t div 86400 - year_start y, tm_hour := t mod 86400 div 3600, tm_min := t mod 86400 div 60 mod 60,
              tm_sec := t mod 86400 mod 60\<rparr>))"
    using secs_to_tm_date [of t] by auto
  have t: "t = 86400 * (t div 86400) + t mod 86400" "0 \<le> t mod 86400" "t mod 86400 < 86400" by simp_all
  have b: "year_start y \<le> t div 86400" "t div 86400 < year_start (y + 1)" using date_in_year [OF v(1)] v(2) by simp_all
  have lo: "y - 1900 < INT_MIN \<longleftrightarrow> t < 86400 * year_start (1900 + INT_MIN)"
    using year_start_mono [of "1900 + INT_MIN" y] year_start_mono [of "y + 1" "1900 + INT_MIN"] b t by linarith
  have hi: "y - 1900 > INT_MAX \<longleftrightarrow> 86400 * year_start (1900 + INT_MAX + 1) \<le> t"
    using year_start_mono [of "1900 + INT_MAX + 1" y] year_start_mono [of "y + 1" "1900 + INT_MAX + 1"] b t by linarith
  note S = seconds_of_day [OF t(2,3)]
  have sum: "t = 86400 * (t div 86400) + 3600 * (t mod 86400 div 3600) + 60 * (t mod 86400 div 60 mod 60) + t mod 86400 mod 60"
    using S t(1) by (simp only: add.assoc)
  show ?thesis
  proof (intro conjI allI impI)
    show "secs_to_tm t tm = None \<longleftrightarrow> t < 86400 * year_start (1900 + INT_MIN) \<or> 86400 * year_start (1900 + INT_MAX + 1) \<le> t"
      unfolding e lo hi by auto
    fix r assume "secs_to_tm t tm = Some r"
    then have r: "r = tm\<lparr>tm_year := y - 1900, tm_mon := m, tm_mday := d, tm_wday := (t div 86400 + 4) mod 7,
        tm_yday := t div 86400 - year_start y, tm_hour := t mod 86400 div 3600, tm_min := t mod 86400 div 60 mod 60,
        tm_sec := t mod 86400 mod 60\<rparr>"
      unfolding e by (simp split: if_splits)
    show "denotes r t" unfolding r by (rule denotes_date [OF v sum]) (use S in simp_all)
    show "r = tm\<lparr>tm_year := tm_year r, tm_mon := tm_mon r, tm_mday := tm_mday r, tm_wday := tm_wday r, tm_yday := tm_yday r,
        tm_hour := tm_hour r, tm_min := tm_min r, tm_sec := tm_sec r\<rparr>"
      unfolding r by simp
  qed
qed

text \<open>The broken-down time a call returns denotes the instant and is fixed by it.\<close>

lemma denotes_secs: "denotes tm t \<Longrightarrow> tm_to_secs tm = t"
  by (simp add: denotes_def Let_def tm_to_secs_eq valid_date_def)

lemma secs_to_tm_other:
  "secs_to_tm t tm = Some r \<Longrightarrow>
    \<exists>r'. secs_to_tm t tm' = Some r' \<and>
      r'\<lparr>tm_isdst := 0, tm_gmtoff := 0, tm_zone := utc\<rparr> = r\<lparr>tm_isdst := 0, tm_gmtoff := 0, tm_zone := utc\<rparr>"
proof -
  assume r: "secs_to_tm t tm = Some r"
  then have "\<not> (t < INT_MIN * 31622400 \<or> t > INT_MAX * 31622400)" by (auto simp: secs_to_tm_def)
  then obtain y m d where e: "\<forall>tm. secs_to_tm t tm =
      (if y - 1900 > INT_MAX \<or> y - 1900 < INT_MIN then None
       else Some (tm\<lparr>tm_year := y - 1900, tm_mon := m, tm_mday := d, tm_wday := (t div 86400 + 4) mod 7,
              tm_yday := t div 86400 - year_start y, tm_hour := t mod 86400 div 3600, tm_min := t mod 86400 div 60 mod 60,
              tm_sec := t mod 86400 mod 60\<rparr>))"
    using secs_to_tm_date [of t] by auto
  have "\<not> (y - 1900 > INT_MAX \<or> y - 1900 < INT_MIN)" using r e [rule_format, of tm] by auto
  note f = e [rule_format, unfolded if_not_P [OF this]]
  from r have r': "r = tm\<lparr>tm_year := y - 1900, tm_mon := m, tm_mday := d, tm_wday := (t div 86400 + 4) mod 7,
      tm_yday := t div 86400 - year_start y, tm_hour := t mod 86400 div 3600, tm_min := t mod 86400 div 60 mod 60,
      tm_sec := t mod 86400 mod 60\<rparr>"
    unfolding f [of tm] by (rule option.inject [THEN iffD1, symmetric])
  show ?thesis unfolding r' by (intro exI conjI, rule f [of tm']) (cases tm, cases tm', simp only: tm.simps)
qed

lemma denotes_zone: "denotes (x\<lparr>tm_isdst := 0, tm_gmtoff := 0, tm_zone := utc\<rparr>) v = denotes x v"
  by (simp add: denotes_def)

definition blank_tm :: tm where
  "blank_tm = \<lparr>tm_sec = 0, tm_min = 0, tm_hour = 0, tm_mday = 0, tm_mon = 0, tm_year = 0, tm_wday = 0, tm_yday = 0,
     tm_isdst = 0, tm_gmtoff = 0, tm_zone = []\<rparr>"

text \<open>
  C25. \<^verbatim>\<open>__secs_to_tm\<close> and the Gregorian calendar: a broken-down time it returns is the instant in
  every field, with a month and a day that exist in that year, the day of the week and the day
  of the year; and it refuses an instant exactly when the year does not fit the type of its
  field.
\<close>

theorem secs_to_tm_gregorian:
  "(secs_to_tm t tm = None \<longleftrightarrow> t < 86400 * year_start (1900 + INT_MIN) \<or> 86400 * year_start (1900 + INT_MAX + 1) \<le> t) \<and>
   (\<forall>r. secs_to_tm t tm = Some r \<longrightarrow> denotes r t)"
  using secs_to_tm_spec [of t tm] by blast

theorem secs_to_tm_gregorian_witness:
  "\<exists>r. secs_to_tm 951827696 blank_tm = Some r \<and> denotes r 951827696 \<and> tm_mon r = 1 \<and> tm_mday r = 29 \<and> tm_year r = 100"
proof -
  have e: "secs_to_tm 951827696 blank_tm = Some (blank_tm\<lparr>tm_year := 100, tm_mon := 1, tm_mday := 29, tm_wday := 2, tm_yday := 59,
      tm_hour := 12, tm_min := 34, tm_sec := 56\<rparr>)"
    by code_simp
  show ?thesis using secs_to_tm_gregorian [of 951827696 blank_tm] unfolding e by simp
qed



end
