(* ===== verification/Tsearch.thy ===== *)
theory Tsearch
  imports Prelude
begin

text \<open>
  Binary search trees of the C library (\<^verbatim>\<open>musl-1.2.3/src/search\<close>): \<^verbatim>\<open>tsearch\<close>, \<^verbatim>\<open>tfind\<close>, \<^verbatim>\<open>tdelete\<close>,
  \<^verbatim>\<open>twalk\<close>, \<^verbatim>\<open>tdestroy\<close>. A tree is a value and a null pointer its empty case. The stack \<open>a\<close> of
  addresses of child slots is the list of the nodes on the path with the side taken, the
  innermost first; writing through a slot of the stack and balancing the nodes above it
  rebuilds the path. The comparison function of the caller is an argument.
\<close>

datatype 'k node = Null | Node 'k "'k node" "'k node" int

fun height :: "'k node \<Rightarrow> int" where
  "height Null = 0"
| "height (Node k l r h) = h"

text \<open>The fields: \<open>child n dir\<close> is \<^verbatim>\<open>n->a[dir]\<close>.\<close>

fun child :: "'k node \<Rightarrow> bool \<Rightarrow> 'k node" where
  "child Null dir = Null"
| "child (Node k l r h) dir = (if dir then r else l)"

fun set_child :: "'k node \<Rightarrow> bool \<Rightarrow> 'k node \<Rightarrow> 'k node" where
  "set_child Null dir c = Null"
| "set_child (Node k l r h) dir c = (if dir then Node k l c h else Node k c r h)"

fun set_h :: "'k node \<Rightarrow> int \<Rightarrow> 'k node" where
  "set_h Null h' = Null"
| "set_h (Node k l r h) h' = Node k l r h'"

fun set_key :: "'k node \<Rightarrow> 'k \<Rightarrow> 'k node" where
  "set_key Null k' = Null"
| "set_key (Node k l r h) k' = Node k' l r h"

fun key_of :: "'k node \<Rightarrow> 'k option" where
  "key_of Null = None"
| "key_of (Node k l r h) = Some k"

text \<open>A comparison function of the library, for keys that are strings: lists of non-zero bytes.\<close>

fun strcmp :: "u8 list \<Rightarrow> u8 list \<Rightarrow> int" where
  "strcmp (c # l) (d # r) = (if c = d \<and> c \<noteq> 0 then strcmp l r else uint c - uint d)"
| "strcmp [] (d # r) = 0 - uint d"
| "strcmp (c # l) [] = uint c - 0"
| "strcmp [] [] = 0"

subsection \<open>Balancing\<close>

definition rot :: "'k node \<Rightarrow> bool \<Rightarrow> 'k node \<times> int" where
  "rot x dir =
     (let y = child x dir;
          z = child y (\<not> dir);
          hx = height x;
          hz = height z
      in if hz > height (child y dir) then
           let x = set_h (set_child x dir (child z (\<not> dir))) hz;
               y = set_h (set_child y (\<not> dir) (child z dir)) hz;
               z = set_h (set_child (set_child z (\<not> dir) x) dir y) (hz + 1)
           in (z, height z - hx)
         else
           let x = set_h (set_child x dir z) (hz + 1);
               y = set_h (set_child y (\<not> dir) x) (hz + 2)
           in (y, height y - hx))"

text \<open>The unsigned comparison \<^verbatim>\<open>h0 - h1 + 1u < 3u\<close> holds when the difference is -1, 0 or 1.\<close>

definition balance :: "'k node \<Rightarrow> 'k node \<times> int" where
  "balance n =
     (let h0 = height (child n False);
          h1 = height (child n True)
      in if 0 \<le> h0 - h1 + 1 \<and> h0 - h1 + 1 < 3 then
           let old = height n;
               n = set_h n (if h0 < h1 then h1 + 1 else h0 + 1)
           in (n, height n - old)
         else rot n (h0 < h1))"

text \<open>The write to the innermost slot and the loop that balances the ancestors while the height changes.\<close>

fun climb :: "('k node \<times> bool) list \<Rightarrow> 'k node \<Rightarrow> bool \<Rightarrow> 'k node" where
  "climb [] t go = t"
| "climb ((n, dir) # a) t go =
     (let n = set_child n dir t in
      if go then (case balance n of (n, d) \<Rightarrow> climb a n (d \<noteq> 0)) else climb a n False)"

subsection \<open>The operations\<close>

text \<open>The search loop: the node where the comparison gives zero, or null, and the path to it.\<close>

fun search :: "('k \<Rightarrow> 'k \<Rightarrow> int) \<Rightarrow> 'k \<Rightarrow> 'k node \<Rightarrow> ('k node \<times> bool) list \<Rightarrow> 'k node \<times> ('k node \<times> bool) list" where
  "search cmp key Null a = (Null, a)"
| "search cmp key (Node k l r h) a =
     (let c = cmp key k in
      if c = 0 then (Node k l r h, a)
      else search cmp key (if c > 0 then r else l) ((Node k l r h, c > 0) # a))"

text \<open>
  The tree afterwards and the key of the node returned; \<open>mem\<close> says whether \<^verbatim>\<open>malloc\<close> has memory.
  A null \<^verbatim>\<open>rootp\<close> is \<open>None\<close>.
\<close>

definition tsearch :: "bool \<Rightarrow> 'k \<Rightarrow> 'k node option \<Rightarrow> ('k \<Rightarrow> 'k \<Rightarrow> int) \<Rightarrow> 'k node option \<times> 'k option" where
  "tsearch mem key rootp cmp =
     (case rootp of
        None \<Rightarrow> (None, None)
      | Some root \<Rightarrow>
          case search cmp key root [] of
            (Node k l r h, a) \<Rightarrow> (Some root, Some k)
          | (Null, a) \<Rightarrow>
              if \<not> mem then (Some root, None)
              else (Some (climb a (Node key Null Null 1) True), Some key))"

fun tfind :: "'k \<Rightarrow> 'k node option \<Rightarrow> ('k \<Rightarrow> 'k \<Rightarrow> int) \<Rightarrow> 'k option" where
  "tfind key None cmp = None"
| "tfind key (Some Null) cmp = None"
| "tfind key (Some (Node k l r h)) cmp =
     (let c = cmp key k in if c = 0 then Some k else tfind key (Some (if c > 0 then r else l)) cmp)"

text \<open>The loop to the preceding node: the last node of the right spine and the path to it.\<close>

fun rightmost :: "'k node \<Rightarrow> ('k node \<times> bool) list \<Rightarrow> 'k node \<times> ('k node \<times> bool) list" where
  "rightmost Null a = (Null, a)"
| "rightmost (Node k l Null h) a = (Node k l Null h, a)"
| "rightmost (Node k l r h) a = rightmost r ((Node k l r h, True) # a)"

text \<open>
  The pointer returned is null when the key is absent, the parent of the deleted node, or any
  non-null pointer for the root: \<open>None\<close>, \<open>Some (Some k)\<close> and \<open>Some None\<close>.
\<close>

definition tdelete :: "'k \<Rightarrow> 'k node option \<Rightarrow> ('k \<Rightarrow> 'k \<Rightarrow> int) \<Rightarrow> 'k node option \<times> 'k option option" where
  "tdelete key rootp cmp =
     (case rootp of
        None \<Rightarrow> (None, None)
      | Some root \<Rightarrow>
          case search cmp key root [] of
            (Null, a) \<Rightarrow> (Some root, None)
          | (Node k l r h, a) \<Rightarrow>
              let parent = (case a of [] \<Rightarrow> None | (p, _) # _ \<Rightarrow> key_of p);
                  (child, a) =
                    (if l \<noteq> Null then
                       case rightmost l [] of
                         (Node k' l' r' h', b) \<Rightarrow> (l', b @ (set_key (Node k l r h) k', False) # a)
                       | (Null, b) \<Rightarrow> (Null, b @ a)
                     else (r, a))
              in (Some (climb a child True), Some parent))"

datatype visit = preorder | postorder | endorder | leaf

text \<open>The calls of the action, in order, with the key of the node, the visit and the depth.\<close>

fun walk :: "'k node \<Rightarrow> int \<Rightarrow> ('k \<times> visit \<times> int) list" where
  "walk Null d = []"
| "walk (Node k l r h) d =
     (if h = 1 then [(k, leaf, d)]
      else [(k, preorder, d)] @ walk l (d + 1) @ [(k, postorder, d)] @ walk r (d + 1) @ [(k, endorder, d)])"

definition twalk :: "'k node \<Rightarrow> ('k \<times> visit \<times> int) list" where
  "twalk root = walk root 0"

text \<open>The keys \<^verbatim>\<open>freekey\<close> is called for, in order; every node is freed.\<close>

fun tdestroy :: "'k node \<Rightarrow> 'k list" where
  "tdestroy Null = []"
| "tdestroy (Node k l r h) = tdestroy l @ tdestroy r @ [k]"

definition MAXH :: nat where "MAXH = 8 * 8 * 3 div 2"

end
