(* ===== verification/TsearchCorrect.thy ===== *)
theory TsearchCorrect
  imports Tsearch "HOL-Library.List_Lexorder" "HOL-Library.Multiset"
begin

text \<open>
  The search trees are sets kept in order and balanced: every operation keeps the order, the
  stored heights and the balance, and the path of a search fits the array the code keeps it in.
\<close>

subsection \<open>Invariants\<close>

fun inorder :: "'k node \<Rightarrow> 'k list" where
  "inorder Null = []"
| "inorder (Node k l r h) = inorder l @ k # inorder r"

fun avl :: "'k node \<Rightarrow> bool" where
  "avl Null = True"
| "avl (Node k l r h) \<longleftrightarrow> \<bar>height l - height r\<bar> \<le> 1 \<and> h = max (height l) (height r) + 1 \<and> avl l \<and> avl r"

lemma height_nonneg: "avl t \<Longrightarrow> 0 \<le> height t" "avl t \<Longrightarrow> height t = 0 \<longleftrightarrow> t = Null"
  by (induction t) auto

lemma balance_avl:
  assumes "avl l" "avl r" "\<bar>height l - height r\<bar> \<le> 2" "balance (Node k l r h) = (m, d)"
  shows "avl m \<and> inorder m = inorder l @ k # inorder r \<and> d = height m - h \<and>
    (height m = max (height l) (height r) \<or> height m = max (height l) (height r) + 1) \<and>
    (\<bar>height l - height r\<bar> \<le> 1 \<longrightarrow> height m = max (height l) (height r) + 1)"
proof (cases "\<bar>height l - height r\<bar> \<le> 1")
  case True
  then show ?thesis using assms by (auto simp: balance_def Let_def max_def split: if_splits)
next
  case False
  show ?thesis
  proof (cases "height l < height r")
    case lt: True
    then obtain ky z D hy where r: "r = Node ky z D hy" using assms(2) height_nonneg(1) [OF assms(1)] by (cases r) auto
    have e: "balance (Node k l r h) = rot (Node k l r h) True" using False lt assms(3) by (auto simp: balance_def Let_def max_def split: if_splits)
    show ?thesis
    proof (cases "height z > height D")
      case True
      then obtain kz B C hz where z: "z = Node kz B C hz" using assms(2) height_nonneg(1) [of D] by (cases z) (auto simp: r)
      show ?thesis using True assms False lt unfolding e by (auto simp: rot_def Let_def r z)
    next
      case 2: False
      show ?thesis using 2 assms False lt unfolding e by (auto simp: rot_def Let_def r)
    qed
  next
    case 1: False
    then obtain ky D z hy where l: "l = Node ky D z hy" using assms(1) False height_nonneg(1) [OF assms(2)] by (cases l) auto
    have e: "balance (Node k l r h) = rot (Node k l r h) False" using False 1 assms(3) by (auto simp: balance_def Let_def max_def split: if_splits)
    show ?thesis
    proof (cases "height z > height D")
      case True
      then obtain kz B C hz where z: "z = Node kz B C hz" using assms(1) height_nonneg(1) [of D] by (cases z) (auto simp: l)
      show ?thesis using True assms False 1 unfolding e by (auto simp: rot_def Let_def l z)
    next
      case 2: False
      show ?thesis using 2 assms False 1 unfolding e by (auto simp: rot_def Let_def l)
    qed
  qed
qed

subsection \<open>Paths\<close>

text \<open>
  A path leads to a subtree of height \<open>hh\<close>: its nodes are balanced with the heights they had before
  the change. The keys to the left and to the right of the subtree.
\<close>

fun path_to :: "('k node \<times> bool) list \<Rightarrow> int \<Rightarrow> bool" where
  "path_to [] hh = True"
| "path_to ((n, dir) # a) hh \<longleftrightarrow> n \<noteq> Null \<and> avl n \<and> height (child n dir) = hh \<and> path_to a (height n)"

fun before :: "('k node \<times> bool) list \<Rightarrow> 'k list" where
  "before [] = []"
| "before ((Node k l r h, dir) # a) = before a @ (if dir then inorder l @ [k] else [])"
| "before ((Null, dir) # a) = before a"

fun after :: "('k node \<times> bool) list \<Rightarrow> 'k list" where
  "after [] = []"
| "after ((Node k l r h, dir) # a) = (if dir then [] else k # inorder r) @ after a"
| "after ((Null, dir) # a) = after a"

lemma before_append: "before (b @ a) = before a @ before b" "after (b @ a) = after b @ after a"
  by (induction b rule: before.induct) auto

text \<open>One turn of the loop: the height changes by at most one, and not at all when the loop stops.\<close>

lemma balance_step:
  assumes "avl (Node k l r h)" "height (child (Node k l r h) dir) = hh"
    and "avl t" "\<bar>height t - hh\<bar> \<le> 1" "balance (set_child (Node k l r h) dir t) = (m, d)"
  shows "avl m \<and> \<bar>height m - h\<bar> \<le> 1 \<and> d = height m - h \<and> inorder m = inorder (set_child (Node k l r h) dir t)"
proof (cases dir)
  case True
  have h: "\<bar>height l - height r\<bar> \<le> 1" "h = max (height l) (height r) + 1" "height r = hh" using assms(1,2) True by simp_all
  have B: "avl m \<and> inorder m = inorder l @ k # inorder t \<and> d = height m - h \<and>
      (height m = max (height l) (height t) \<or> height m = max (height l) (height t) + 1) \<and>
      (\<bar>height l - height t\<bar> \<le> 1 \<longrightarrow> height m = max (height l) (height t) + 1)"
    by (rule balance_avl) (use assms True h in auto)
  then have "\<bar>height m - h\<bar> \<le> 1" using h assms(4) by linarith
  then show ?thesis using B True by simp
next
  case False
  have h: "\<bar>height l - height r\<bar> \<le> 1" "h = max (height l) (height r) + 1" "height l = hh" using assms(1,2) False by simp_all
  have B: "avl m \<and> inorder m = inorder t @ k # inorder r \<and> d = height m - h \<and>
      (height m = max (height t) (height r) \<or> height m = max (height t) (height r) + 1) \<and>
      (\<bar>height t - height r\<bar> \<le> 1 \<longrightarrow> height m = max (height t) (height r) + 1)"
    by (rule balance_avl) (use assms False h in auto)
  then have "\<bar>height m - h\<bar> \<le> 1" using h assms(4) by linarith
  then show ?thesis using B False by simp
qed

lemma climb_avl:
  assumes "path_to a hh" "avl t" "\<bar>height t - hh\<bar> \<le> 1" "go \<or> height t = hh"
  shows "avl (climb a t go) \<and> inorder (climb a t go) = before a @ inorder t @ after a"
  using assms
proof (induction a arbitrary: t hh go)
  case (Cons f a)
  obtain k l r h dir where f: "f = (Node k l r h, dir)" using Cons.prems(1) by (cases f; cases "fst f") auto
  show ?case
  proof (cases go)
    case True
    obtain m d where b: "balance (set_child (Node k l r h) dir t) = (m, d)" by (metis surj_pair)
    have "avl m" "\<bar>height m - h\<bar> \<le> 1" "d = height m - h" "inorder m = inorder (set_child (Node k l r h) dir t)"
      using balance_step [of k l r h dir hh t m d] Cons.prems b f by auto
    then show ?thesis using Cons.IH [of h m "d \<noteq> 0"] Cons.prems(1) True b by (auto simp: f Let_def)
  next
    case False
    then have "avl (set_child (Node k l r h) dir t)" "height (set_child (Node k l r h) dir t) = h"
      using Cons.prems by (auto simp: f)
    then show ?thesis using Cons.IH [of h "set_child (Node k l r h) dir t" False] Cons.prems(1) False by (auto simp: f Let_def)
  qed
qed simp

subsection \<open>Searching\<close>

text \<open>The contract of a comparison function on the keys it is used for.\<close>

locale comparison =
  fixes cmp :: "'k::linorder \<Rightarrow> 'k \<Rightarrow> int" and ok :: "'k \<Rightarrow> bool"
  assumes cmp_less: "ok x \<Longrightarrow> ok y \<Longrightarrow> cmp x y < 0 \<longleftrightarrow> x < y"
    and cmp_zero: "ok x \<Longrightarrow> ok y \<Longrightarrow> cmp x y = 0 \<longleftrightarrow> x = y"
begin

lemma cmp_greater: "ok x \<Longrightarrow> ok y \<Longrightarrow> cmp x y > 0 \<longleftrightarrow> y < x"
  using cmp_less [of x y] cmp_zero [of x y] by (metis linorder_less_linear not_less_iff_gr_or_eq)

lemma search_path:
  assumes "search cmp key t a = (n, b)" "ok key" "\<forall>x \<in> set (inorder t). ok x" "sorted_wrt (<) (inorder t)" "avl t" "path_to a (height t)"
  shows "path_to b (height n) \<and> avl n \<and> before a @ inorder t @ after a = before b @ inorder n @ after b \<and>
    (\<exists>xs ys. before b = before a @ xs \<and> after b = ys @ after a \<and> (\<forall>x \<in> set xs. x < key) \<and> (\<forall>y \<in> set ys. key < y)) \<and>
    (\<forall>k l r h. n = Node k l r h \<longrightarrow> k = key)"
  using assms
proof (induction t arbitrary: a)
  case (Node k l r h)
  have k: "ok k" using Node.prems(3) by simp
  show ?case
  proof (cases "cmp key k = 0")
    case True
    then show ?thesis using Node.prems k cmp_zero by auto
  next
    case False
    show ?thesis
    proof (cases "cmp key k > 0")
      case True
      then have less: "k < key" using cmp_greater Node.prems(2) k by blast
      let ?a = "(Node k l r h, True) # a"
      have "search cmp key r ?a = (n, b)" using Node.prems(1) False True by (simp add: Let_def)
      from Node.IH(2) [OF this] obtain xs ys where
        I: "path_to b (height n)" "avl n" "before ?a @ inorder r @ after ?a = before b @ inorder n @ after b"
          "before b = before ?a @ xs" "after b = ys @ after ?a" "\<forall>x \<in> set xs. x < key" "\<forall>y \<in> set ys. key < y"
          "\<forall>k l r h. n = Node k l r h \<longrightarrow> k = key"
        using Node.prems by (auto simp: sorted_wrt_append)
      have "\<forall>x \<in> set (inorder l). x < key" using Node.prems(4) less by (auto simp: sorted_wrt_append)
      then show ?thesis using I less by (auto intro!: exI [of _ "inorder l @ k # xs"] exI [of _ ys])
    next
      case 2: False
      then have less: "key < k" using cmp_less [of key k] False Node.prems(2) k by linarith
      let ?a = "(Node k l r h, False) # a"
      have "search cmp key l ?a = (n, b)" using Node.prems(1) False 2 by (simp add: Let_def)
      from Node.IH(1) [OF this] obtain xs ys where
        I: "path_to b (height n)" "avl n" "before ?a @ inorder l @ after ?a = before b @ inorder n @ after b"
          "before b = before ?a @ xs" "after b = ys @ after ?a" "\<forall>x \<in> set xs. x < key" "\<forall>y \<in> set ys. key < y"
          "\<forall>k l r h. n = Node k l r h \<longrightarrow> k = key"
        using Node.prems by (auto simp: sorted_wrt_append)
      have "\<forall>y \<in> set (inorder r). key < y" using Node.prems(4) less by (auto simp: sorted_wrt_append)
      then show ?thesis using I less by (auto intro!: exI [of _ xs] exI [of _ "ys @ k # inorder r"])
    qed
  qed
qed auto

end

lemma rightmost_append: "rightmost t (b @ a) = (fst (rightmost t b), snd (rightmost t b) @ a)"
  by (induction t b rule: rightmost.induct) (simp_all flip: append_Cons)

lemma rightmost_path:
  "rightmost t a = (n, b) \<Longrightarrow> t \<noteq> Null \<Longrightarrow> avl t \<Longrightarrow> path_to a (height t) \<Longrightarrow>
    \<exists>k l h xs. n = Node k l Null h \<and> avl n \<and> path_to b h \<and> before b = before a @ xs \<and> after b = after a \<and>
      inorder t = xs @ inorder l @ [k]"
proof (induction t a arbitrary: n b rule: rightmost.induct)
  case (3 k l kr lr rr hr h a)
  let ?r = "Node kr lr rr hr" and ?a = "(Node k l (Node kr lr rr hr) h, True) # a"
  have "rightmost ?r ?a = (n, b)" using "3.prems"(1) by simp
  from "3.IH" [OF this] obtain k' l' h' xs where
    "n = Node k' l' Null h'" "avl n" "path_to b h'" "before b = before ?a @ xs" "after b = after ?a" "inorder ?r = xs @ inorder l' @ [k']"
    using "3.prems" by auto
  then show ?case by (intro exI [of _ k'] exI [of _ l'] exI [of _ h'] exI [of _ "inorder l @ k # xs"]) auto
qed auto

definition tree_ok :: "('k::linorder \<Rightarrow> bool) \<Rightarrow> 'k node \<Rightarrow> bool" where
  "tree_ok ok t \<longleftrightarrow> avl t \<and> sorted_wrt (<) (inorder t) \<and> list_all ok (inorder t)"

context comparison
begin

lemma search_tree:
  assumes "tree_ok ok t" "ok key" "search cmp key t [] = (n, b)"
  shows "path_to b (height n) \<and> avl n \<and> inorder t = before b @ inorder n @ after b \<and>
    (\<forall>x \<in> set (before b). x < key) \<and> (\<forall>y \<in> set (after b). key < y) \<and> (\<forall>k l r h. n = Node k l r h \<longrightarrow> k = key) \<and>
    (n = Null \<longleftrightarrow> key \<notin> set (inorder t))"
proof -
  have S: "path_to b (height n) \<and> avl n \<and> inorder t = before b @ inorder n @ after b \<and>
      (\<forall>x \<in> set (before b). x < key) \<and> (\<forall>y \<in> set (after b). key < y) \<and> (\<forall>k l r h. n = Node k l r h \<longrightarrow> k = key)"
    using search_path [OF assms(3,2)] assms(1) by (auto simp: tree_ok_def list_all_iff)
  then have "n = Null \<longleftrightarrow> key \<notin> set (inorder t)" by (cases n) auto
  then show ?thesis using S by blast
qed

lemma tsearch_tree:
  assumes "tree_ok ok t" "ok key"
  shows "\<exists>t'. tsearch mem key (Some t) cmp = (Some t', if mem \<or> key \<in> set (inorder t) then Some key else None) \<and> tree_ok ok t' \<and>
    set (inorder t') = (if mem then insert key (set (inorder t)) else set (inorder t))"
proof -
  obtain n b where s: "search cmp key t [] = (n, b)" by (metis surj_pair)
  note S = search_tree [OF assms s]
  show ?thesis
  proof (cases n)
    case Null
    let ?t = "climb b (Node key Null Null 1) True"
    have C: "avl ?t" "inorder ?t = before b @ [key] @ after b" using climb_avl [of b 0 "Node key Null Null 1" True] S Null by auto
    have "sorted_wrt (<) (inorder ?t)" using assms(1) S Null by (auto simp: C(2) tree_ok_def sorted_wrt_append)
    then have "tree_ok ok ?t" "set (inorder ?t) = insert key (set (inorder t))"
      using assms S Null C by (auto simp: tree_ok_def list_all_iff)
    then show ?thesis using assms(1) S Null by (cases mem) (auto simp: tsearch_def s)
  next
    case (Node k l r h)
    then have "key \<in> set (inorder t)" "k = key" using S by auto
    then show ?thesis using assms(1) Node by (auto simp: tsearch_def s)
  qed
qed

lemma tfind_search: "tfind key (Some t) cmp = key_of (fst (search cmp key t a))"
  by (induction t arbitrary: a) (auto simp: Let_def)

lemma tfind_tree:
  assumes "tree_ok ok t" "ok key"
  shows "tfind key (Some t) cmp = (if key \<in> set (inorder t) then Some key else None)"
proof -
  obtain n b where s: "search cmp key t [] = (n, b)" by (metis surj_pair)
  then show ?thesis using search_tree [OF assms s] tfind_search [of key t "[]"] by (cases n) auto
qed

lemma tdelete_tree:
  assumes "tree_ok ok t" "ok key"
  shows "\<exists>t' p. tdelete key (Some t) cmp = (Some t', if key \<in> set (inorder t) then Some p else None) \<and> tree_ok ok t' \<and>
    set (inorder t') = set (inorder t) - {key}"
proof -
  obtain n b where s: "search cmp key t [] = (n, b)" by (metis surj_pair)
  note S = search_tree [OF assms s]
  show ?thesis
  proof (cases n)
    case Null
    then show ?thesis using assms(1) S by (auto simp: tdelete_def s)
  next
    case (Node k l r h)
    then have k: "k = key" "key \<in> set (inorder t)" using S by auto
    have t: "inorder t = before b @ (inorder l @ key # inorder r) @ after b" using S Node k by simp
    define c where "c = (if l \<noteq> Null then case rightmost l [] of
        (Node k' l' r' h', d) \<Rightarrow> (l', d @ (set_key (Node k l r h) k', False) # b) | (Null, d) \<Rightarrow> (Null, d @ b) else (r, b))"
    have e: "tdelete key (Some t) cmp = (Some (climb (snd c) (fst c) True), Some (case b of [] \<Rightarrow> None | (p, _) # _ \<Rightarrow> key_of p))"
      by (simp add: tdelete_def s Node c_def [symmetric] split: prod.split)
    have "avl (climb (snd c) (fst c) True) \<and> inorder (climb (snd c) (fst c) True) = before b @ inorder l @ inorder r @ after b"
    proof (cases "l = Null")
      case True
      have "avl r" "height r = h - 1" using S Node True height_nonneg(1) [of r] by (auto simp: max_def)
      then show ?thesis using climb_avl [of b h r True] S Node True by (auto simp: c_def)
    next
      case False
      obtain m d where m: "rightmost l [] = (m, d)" by (metis surj_pair)
      let ?F = "\<lambda>k'. (set_key (Node k l r h) k', False) # b"
      have R: "rightmost l (?F k') = (m, d @ ?F k')" for k' using rightmost_append [of l "[]"] m by simp
      have P: "avl l" "path_to (?F k') (height l)" for k' using S Node by auto
      obtain k' l' h' where mk: "m = Node k' l' Null h'" using rightmost_path [OF R False P] by blast
      then obtain xs where M: "avl m" "inorder l = xs @ inorder l' @ [k']" "path_to (d @ ?F k') h'"
          "before (d @ ?F k') = before b @ xs" "after (d @ ?F k') = k' # inorder r @ after b"
        using rightmost_path [OF R False P, of k'] by auto
      have "avl l'" "height l' = h' - 1" using M(1) mk height_nonneg(1) [of l'] by (auto simp: max_def)
      then show ?thesis
        using climb_avl [OF M(3), of l' True] M False m mk by (auto simp: c_def)
    qed
    then show ?thesis using assms(1) k(2) unfolding e by (auto simp: t tree_ok_def sorted_wrt_append list_all_iff)
  qed
qed

end

text \<open>\<^verbatim>\<open>strcmp\<close> meets the contract on strings, with their lexicographic order.\<close>

lemma strcmp_less: "0 \<notin> set x \<Longrightarrow> 0 \<notin> set y \<Longrightarrow> strcmp x y < 0 \<longleftrightarrow> x < y"
proof (induction x y rule: strcmp.induct)
  case (2 d r)
  then have "d \<noteq> 0" by simp
  then have "0 < uint d" using uint_0_iff [of d] uint_ge_0 [of d] by linarith
  then show ?case by simp
qed (auto simp: word_less_def [symmetric] not_less)

lemma strcmp_zero: "0 \<notin> set x \<Longrightarrow> 0 \<notin> set y \<Longrightarrow> strcmp x y = 0 \<longleftrightarrow> x = y"
  by (induction x y rule: strcmp.induct) (auto simp: uint_0_iff word_uint_eq_iff [symmetric])

interpretation strings: comparison strcmp "\<lambda>s. 0 \<notin> set s"
  by unfold_locales (simp_all add: strcmp_less strcmp_zero)

subsection \<open>Walks\<close>

lemma height_one: "avl (Node k l r h) \<Longrightarrow> h = 1 \<longleftrightarrow> l = Null \<and> r = Null"
  using height_nonneg [of l] height_nonneg [of r] by (auto simp: max_def)

lemma walk_inorder: "avl t \<Longrightarrow> map fst (filter (\<lambda>(k, v, d). v = postorder \<or> v = leaf) (walk t d)) = inorder t"
proof (induction t arbitrary: d)
  case (Node k l r h)
  then show ?case using height_one [of k l r h] by auto
qed simp

lemma tdestroy_mset: "mset (tdestroy t) = mset (inorder t)"
  by (induction t) auto

subsection \<open>The depth of a balanced tree\<close>

text \<open>The fewest nodes of a balanced tree of height \<open>n\<close>, computed with the next number beside it.\<close>

definition fewest :: "nat \<Rightarrow> int" where
  "fewest n = fst (((\<lambda>(a, b). (b, a + b + 1)) ^^ n) (0, 1))"

lemma fewest_pair: "((\<lambda>(a, b). (b, a + b + 1)) ^^ n) (0, 1) = (fewest n, fewest (Suc n))"
  by (simp add: fewest_def split: prod.split)

lemma fewest_simps: "fewest 0 = 0" "fewest (Suc 0) = 1" "fewest (Suc (Suc n)) = fewest (Suc n) + fewest n + 1"
proof -
  show "fewest 0 = 0" "fewest (Suc 0) = 1" by (simp_all add: fewest_def)
  have "((\<lambda>(a, b). (b, a + b + 1)) ^^ Suc n) (0, 1) = (fewest (Suc n), fewest n + fewest (Suc n) + 1)"
    by (simp add: fewest_pair)
  then show "fewest (Suc (Suc n)) = fewest (Suc n) + fewest n + 1" using fewest_pair [of "Suc n"] by simp
qed

lemma fewest_mono: "fewest n \<le> fewest (Suc n)" "0 \<le> fewest n"
proof -
  have "0 \<le> fewest n \<and> fewest n \<le> fewest (Suc n)" by (induction n) (simp_all add: fewest_simps)
  then show "fewest n \<le> fewest (Suc n)" "0 \<le> fewest n" by simp_all
qed

lemma fewest_double: "fewest (Suc n) \<le> 2 * fewest n + 1"
  using fewest_mono(1) by (cases n) (simp_all add: fewest_simps)

lemma fewest_nodes: "avl t \<Longrightarrow> fewest (nat (height t)) \<le> int (length (inorder t))"
proof (induction t)
  case (Node k l r h)
  have nn: "0 \<le> height l" "0 \<le> height r" using Node.prems height_nonneg(1) by auto
  have I: "fewest (nat (height l)) \<le> int (length (inorder l))" "fewest (nat (height r)) \<le> int (length (inorder r))"
    using Node by simp_all
  consider "height l = height r" | "height l = height r + 1" | "height r = height l + 1" using Node.prems by fastforce
  then show ?case
  proof cases
    case 1
    then have "nat h = Suc (nat (height l))" using Node.prems nn by simp
    then show ?thesis using I 1 fewest_double [of "nat (height l)"] by simp
  next
    case 2
    then have "nat h = Suc (Suc (nat (height r)))" "nat (height l) = Suc (nat (height r))" using Node.prems nn by auto
    then show ?thesis using I by (simp add: fewest_simps)
  next
    case 3
    then have "nat h = Suc (Suc (nat (height l)))" "nat (height r) = Suc (nat (height l))" using Node.prems nn by auto
    then show ?thesis using I by (simp add: fewest_simps)
  qed
qed (simp add: fewest_simps)

lemma fewest_92: "2 ^ 64 \<le> fewest 92"
  by code_simp

lemma fewest_le: "m \<le> n \<Longrightarrow> fewest m \<le> fewest n"
  by (rule lift_Suc_mono_le) (rule fewest_mono(1))

lemma height_bound:
  assumes "avl t" "length (inorder t) < 2 ^ 64"
  shows "height t < 92"
proof (rule ccontr)
  assume "\<not> height t < 92"
  then have "fewest 92 \<le> fewest (nat (height t))" by (intro fewest_le) simp
  moreover have "int (length (inorder t)) < 2 ^ 64" using assms(2) by simp
  ultimately show False using fewest_nodes [OF assms(1)] fewest_92 by linarith
qed

lemma search_depth: "avl t \<Longrightarrow> search cmp key t a = (n, b) \<Longrightarrow> int (length b) + height n \<le> int (length a) + height t"
proof (induction t arbitrary: a)
  case (Node k l r h)
  consider "cmp key k = 0" | "cmp key k > 0" | "cmp key k < 0" by linarith
  then show ?case
  proof cases
    case 2
    then have "int (length b) + height n \<le> int (length ((Node k l r h, True) # a)) + height r" 
      by (intro Node.IH(2)) (use Node.prems 2 in \<open>auto simp: Let_def\<close>)
    then show ?thesis using Node.prems(1) by (simp add: max_def split: if_splits)
  next
    case 3
    then have "int (length b) + height n \<le> int (length ((Node k l r h, False) # a)) + height l" 
      by (intro Node.IH(1)) (use Node.prems 3 in \<open>auto simp: Let_def\<close>)
    then show ?thesis using Node.prems(1) by (simp add: max_def split: if_splits)
  qed (use Node.prems in \<open>auto simp: Let_def\<close>)
qed auto

lemma rightmost_depth: "avl t \<Longrightarrow> rightmost t a = (n, b) \<Longrightarrow> int (length b) + height n \<le> int (length a) + height t"
  by (induction t a rule: rightmost.induct) (auto simp: max_def split: if_splits)

lemma search_avl: "avl t \<Longrightarrow> search cmp key t a = (n, b) \<Longrightarrow> avl n"
  by (induction t arbitrary: a) (auto simp: Let_def split: if_splits)

lemma rightmost_avl: "avl t \<Longrightarrow> rightmost t a = (n, b) \<Longrightarrow> avl n"
  by (induction t a rule: rightmost.induct) auto

subsection \<open>Properties\<close>

text \<open>
  C24. The search trees are ordered, balanced sets. With a comparison function that agrees with a
  linear order on the keys in use, \<^verbatim>\<open>tsearch\<close> adds the key when it is absent and memory is left and
  returns the node of the key, \<^verbatim>\<open>tfind\<close> finds exactly the keys of the tree, \<^verbatim>\<open>tdelete\<close> removes the key
  and returns null exactly when it was absent; the first and the last keep the order, the
  stored heights and the balance. \<^verbatim>\<open>twalk\<close> makes its postorder and leaf calls in the order of the
  keys, and \<^verbatim>\<open>tdestroy\<close> frees each key once.
\<close>

theorem tree_set_operations:
  assumes "comparison cmp ok" "tree_ok ok t" "ok key"
  shows "(\<exists>t'. tsearch mem key (Some t) cmp = (Some t', if mem \<or> key \<in> set (inorder t) then Some key else None) \<and> tree_ok ok t' \<and>
      set (inorder t') = (if mem then insert key (set (inorder t)) else set (inorder t))) \<and>
    tfind key (Some t) cmp = (if key \<in> set (inorder t) then Some key else None) \<and>
    (\<exists>t' p. tdelete key (Some t) cmp = (Some t', if key \<in> set (inorder t) then Some p else None) \<and> tree_ok ok t' \<and>
      set (inorder t') = set (inorder t) - {key}) \<and>
    map fst (filter (\<lambda>(k, v, d). v = postorder \<or> v = leaf) (twalk t)) = inorder t \<and> mset (tdestroy t) = mset (inorder t)"
proof -
  have "avl t" using assms(2) by (simp add: tree_ok_def)
  then have "map fst (filter (\<lambda>(k, v, d). v = postorder \<or> v = leaf) (twalk t)) = inorder t"
    unfolding twalk_def by (rule walk_inorder)
  then show ?thesis
    using comparison.tsearch_tree [OF assms, of mem] comparison.tfind_tree [OF assms] comparison.tdelete_tree [OF assms]
      tdestroy_mset [of t] by blast
qed

theorem tree_set_operations_witness:
  "\<exists>t'. tsearch True [0x63] (Some (Node [0x61] Null (Node [0x62] Null Null 1) 2)) strcmp = (Some t', Some [0x63]) \<and>
     tree_ok (\<lambda>s. 0 \<notin> set s) t' \<and> set (inorder t') = {[0x61], [0x62], [0x63]}"
proof -
  have "tree_ok (\<lambda>s. 0 \<notin> set s) (Node [0x61] Null (Node [0x62] Null Null 1) 2 :: u8 list node)" by (simp add: tree_ok_def)
  moreover have "0 \<notin> set [0x63 :: u8]" by simp
  ultimately show ?thesis
    using tree_set_operations [OF strings.comparison_axioms, of "Node [0x61] Null (Node [0x62] Null Null 1) 2" "[0x63]" True] by auto
qed

text \<open>
  C27. The arrays of the path are large enough: in a balanced tree of fewer than \<open>2\<^sup>6\<^sup>4\<close> nodes \<^verbatim>\<open>tsearch\<close> uses at
  most the \<^verbatim>\<open>MAXH\<close> places of its array and \<^verbatim>\<open>tdelete\<close>, with the extra first place and the path to the
  preceding node, at most the \<^verbatim>\<open>MAXH+1\<close> of its own. The tree is less than 92 levels deep.
\<close>

theorem tree_path_fits:
  assumes "avl t" "length (inorder t) < 2 ^ 64"
  shows "height t < 92 \<and> length (snd (search cmp key t [])) + 1 \<le> MAXH \<and>
    (\<forall>k l r h b. search cmp key t [] = (Node k l r h, b) \<longrightarrow> 2 + length b + (1 + length (snd (rightmost l []))) \<le> MAXH + 1)"
proof (intro conjI allI impI)
  note H = height_bound [OF assms]
  then show "height t < 92" .
  have M: "MAXH = 96" by (simp add: MAXH_def)
  obtain n b where s: "search cmp key t [] = (n, b)" by (metis surj_pair)
  show "length (snd (search cmp key t [])) + 1 \<le> MAXH"
    using search_depth [OF assms(1) s] search_avl [OF assms(1) s] height_nonneg(1) [of n] H by (simp add: s M)
  fix k l r h b assume e: "search cmp key t [] = (Node k l r h, b)"
  have n: "avl (Node k l r h)" by (rule search_avl [OF assms(1) e])
  obtain m d where d: "rightmost l [] = (m, d)" by (metis surj_pair)
  have "height l < h" using n by simp
  then show "2 + length b + (1 + length (snd (rightmost l []))) \<le> MAXH + 1"
    using search_depth [OF assms(1) e] rightmost_depth [OF _ d] rightmost_avl [OF _ d] height_nonneg(1) [of m] n H by (simp add: d M)
qed

theorem tree_path_fits_witness:
  "length (snd (search strcmp [0x63] (Node [0x61] Null (Node [0x62] Null Null 1) 2) [])) + 1 \<le> MAXH"
  using tree_path_fits [of "Node [0x61] Null (Node [0x62] Null Null 1) 2" strcmp "[0x63]"] by simp

end
