(* ===== verification/Spec2Isabelle.thy ===== *)
theory Spec2Isabelle
  imports Boot ToString PffProperties CryptCorrect CalendarCorrect TsearchCorrect
begin

text \<open>
  A verification library for the lofi kernel.
\<close>

end
